(* ===== verification/Prelude.thy ===== *)
theory Prelude
  imports Main "HOL-Library.Word"
begin

text \<open>
  Shared vocabulary of the cxpnet development.

  \<^item> the machine types the sources use (\<open>size_t\<close>, \<open>uint32_t\<close>, the C \<open>int\<close> used as
    a bit set, bytes) as words of their width;
  \<^item> the failures a call can end in instead of returning: an \<open>ENSURE\<close> that does not
    hold (cxpnet/ensure.h), an allocation that \<open>new[]\<close> refuses, a memory access outside
    an array, through a null pointer or to a destroyed object, and a loop that never ends;
  \<^item> sequencing of calls that may fail;
  \<^item> lemmas about lists and words that several components need.
\<close>

unbundle bit_operations_syntax

named_theorems result_simps \<open>rewriting of sequenced calls\<close>
named_theorems unat_simps \<open>reading size arithmetic as natural numbers\<close>

section \<open>Machine types\<close>

type_synonym size_t = "64 word"
type_synonym uint64 = "64 word"
type_synonym uint32 = "32 word"
type_synonym uint16 = "16 word"
type_synonym cflags = "32 word"
type_synonym byte = "8 word"
type_synonym fd = int

text \<open>A char of an array obtained from \<open>new char[n]\<close>: indeterminate until written.\<close>

type_synonym cell = "byte option"

abbreviation invalid_socket :: fd where
  "invalid_socket \<equiv> -1"

section \<open>Calls that may not return normally\<close>

datatype failure =
    Ensure_failed string
  | Bad_alloc
  | Out_of_bounds
  | Null_deref
  | Never_returns
  | Dangling

type_synonym 'a result = "failure + 'a"

definition ensure :: "bool \<Rightarrow> string \<Rightarrow> 'a result \<Rightarrow> 'a result" where
  "ensure c msg k = (if c then k else Inl (Ensure_failed msg))"

definition andthen :: "'a result \<Rightarrow> ('a \<Rightarrow> 'b result) \<Rightarrow> 'b result" where
  "andthen m k = (case m of Inl e \<Rightarrow> Inl e | Inr x \<Rightarrow> k x)"

lemma andthen_Inr [simp, result_simps]: "andthen (Inr x) k = k x"
  by (simp add: andthen_def)

lemma andthen_Inl [simp, result_simps]: "andthen (Inl e) k = Inl e"
  by (simp add: andthen_def)

lemma andthen_eq_Inr [result_simps]:
  "andthen m k = Inr y \<longleftrightarrow> (\<exists>x. m = Inr x \<and> k x = Inr y)"
  by (cases m) (auto simp: andthen_def)

lemma andthen_assoc: "andthen (andthen m k) h = andthen m (\<lambda>x. andthen (k x) h)"
  by (cases m) (auto simp: andthen_def)

lemma andthen_cong [fundef_cong]:
  "m = m' \<Longrightarrow> (\<And>x. m' = Inr x \<Longrightarrow> k x = k' x) \<Longrightarrow> andthen m k = andthen m' k'"
  by (cases m') simp_all

lemma ensure_True [simp, result_simps]: "c \<Longrightarrow> ensure c msg k = k"
  by (simp add: ensure_def)

lemma ensure_eq_Inr [result_simps]: "ensure c msg k = Inr y \<longleftrightarrow> c \<and> k = Inr y"
  by (simp add: ensure_def)

section \<open>Lists\<close>

lemma take_drop_append_tail:
  assumes "r \<le> w" and "w + n \<le> length d" and "length xs = n"
  shows "take (w + n - r) (drop r (take w d @ xs @ drop (w + n) d)) =
         take (w - r) (drop r d) @ xs"
proof -
  have "drop r (take w d @ xs @ drop (w + n) d) = drop r (take w d) @ xs @ drop (w + n) d"
    using assms by simp
  moreover have "length (drop r (take w d)) = w - r"
    using assms by simp
  moreover have "take (w - r) (drop r d) = drop r (take w d)"
    by (simp add: drop_take)
  ultimately show ?thesis
    using assms by simp
qed

section \<open>Sizes as words\<close>

lemma unat_sub_le [unat_simps]: "b \<le> a \<Longrightarrow> unat (a - b) = unat a - unat b"
  for a b :: "'a::len word"
  by (simp add: unat_sub_if_size word_le_nat_alt)

lemma unat_add_lt [unat_simps]:
  "unat a + unat b < 2 ^ LENGTH('a) \<Longrightarrow> unat (a + b) = unat a + unat b"
  for a b :: "'a::len word"
  by (simp add: unat_word_ariths)

lemma unat_mult_lt [unat_simps]:
  "unat a * unat b < 2 ^ LENGTH('a) \<Longrightarrow> unat (a * b) = unat a * unat b"
  for a b :: "'a::len word"
  by (simp add: unat_word_ariths)

lemma unat_of_nat_lt [unat_simps]: "n < 2 ^ LENGTH('a) \<Longrightarrow> unat (of_nat n :: 'a::len word) = n"
  by (simp add: unat_of_nat take_bit_nat_eq_self)

lemma unat_power2 [unat_simps]: "n < LENGTH('a) \<Longrightarrow> unat (2 ^ n :: 'a::len word) = 2 ^ n"
  using unat_of_nat_lt [of "2 ^ n", where 'a = 'a] by simp

lemma unat_max [unat_simps]: "unat (max a b) = max (unat a) (unat b)"
  for a b :: "'a::len word"
  by (simp add: max_def word_le_nat_alt)

lemma unat_min [unat_simps]: "unat (min a b) = min (unat a) (unat b)"
  for a b :: "'a::len word"
  by (simp add: min_def word_le_nat_alt)

lemma word_less_add_1: "a + 1 \<noteq> 0 \<Longrightarrow> a < a + 1"
  for a :: "'a::len word"
  using unatSuc [of a] by (simp add: word_less_nat_alt add.commute)

end
