(* ===== verification/Platform.thy ===== *)
theory Platform
  imports Prelude
begin

text \<open>
  The platform layer: the constants of cxpnet/sock.h and cxpnet/platform_api.h and the Linux
  implementation of \<open>Platform\<close> (cxpnet/platform_api_for_linux.cc).

  System calls are not part of the sources. What each call answers is an argument of the
  model (a record of answers, or the list of successive answers of a call made in a loop), and
  the calls made are recorded in a trace, so that "no descriptor is leaked" is a statement
  about the trace. \<open>inet_pton\<close> is an argument as well. Error numbers and address families are
  the Linux ones.
\<close>

section \<open>Constants and enumerations\<close>

datatype protocol_stack = kIPv4Only | kIPv6Only | kDualStack
datatype ip_type = IP_Invalid | IP_v4 | IP_v6
datatype running_mode = kOnePollPerThread | kAllOneThread
datatype conn_state = kDisconnected | kConnecting | kConnected | kDisconnecting
datatype error_action = kBreak | kContinue | kClose

definition kRead :: cflags where "kRead = 1"
definition kWrite :: cflags where "kWrite = 2"
definition kError :: cflags where "kError = 4"
definition kHup :: cflags where "kHup = 8"
definition kReusePort :: cflags where "kReusePort = 1"
definition kReuseAddr :: cflags where "kReuseAddr = 2"

lemmas event_flags = kRead_def kWrite_def kError_def kHup_def

abbreviation EINTR :: int where "EINTR \<equiv> 4"
abbreviation EBADF :: int where "EBADF \<equiv> 9"
abbreviation EAGAIN :: int where "EAGAIN \<equiv> 11"
abbreviation EINVAL :: int where "EINVAL \<equiv> 22"
abbreviation EMFILE :: int where "EMFILE \<equiv> 24"
abbreviation EPROTO :: int where "EPROTO \<equiv> 71"
abbreviation ECONNABORTED :: int where "ECONNABORTED \<equiv> 103"
abbreviation ETIMEDOUT :: int where "ETIMEDOUT \<equiv> 110"
abbreviation EALREADY :: int where "EALREADY \<equiv> 114"
abbreviation EINPROGRESS :: int where "EINPROGRESS \<equiv> 115"
abbreviation ECANCELED :: int where "ECANCELED \<equiv> 125"
abbreviation AF_INET :: int where "AF_INET \<equiv> 2"
abbreviation AF_INET6 :: int where "AF_INET6 \<equiv> 10"

text \<open>\<open>FD_SETSIZE\<close>, the number of descriptors an \<open>fd_set\<close> can hold.\<close>

abbreviation FD_SETSIZE :: int where "FD_SETSIZE \<equiv> 1024"

definition handle_error_action :: "int \<Rightarrow> error_action" where
  "handle_error_action err =
     (if err = EAGAIN then kBreak
      else if err = EPROTO \<or> err = ECONNABORTED \<or> err = EINTR then kContinue
      else kClose)"

section \<open>Addresses\<close>

record sockaddr_storage =
  ss_family :: int
  sin_port :: uint16
  sin_addr :: "byte list"

definition zero_sockaddr :: sockaddr_storage where
  "zero_sockaddr = \<lparr>ss_family = 0, sin_port = 0, sin_addr = []\<rparr>"

text \<open>Byte order conversion of a port on a little-endian machine.\<close>

definition htons :: "uint16 \<Rightarrow> uint16" where
  "htons p = push_bit 8 p OR drop_bit 8 p"

definition ntohs :: "uint16 \<Rightarrow> uint16" where
  "ntohs p = push_bit 8 p OR drop_bit 8 p"

type_synonym inet_pton = "int \<Rightarrow> string \<Rightarrow> byte list option"

definition ip_address_type :: "inet_pton \<Rightarrow> string \<Rightarrow> ip_type" where
  "ip_address_type pton address =
     (if address = [] then IP_Invalid
      else if pton AF_INET address \<noteq> None then IP_v4
      else if pton AF_INET6 address \<noteq> None then IP_v6
      else IP_Invalid)"

definition get_sockaddr :: "inet_pton \<Rightarrow> string \<Rightarrow> uint16 \<Rightarrow> protocol_stack \<Rightarrow> sockaddr_storage" where
  "get_sockaddr pton address port stack =
     (let ip = ip_address_type pton address in
      if ip = IP_Invalid then zero_sockaddr
      else
        let af = (if ip = IP_v4 \<and> stack = kIPv4Only then AF_INET
                  else if ip = IP_v6 \<and> stack = kIPv6Only then AF_INET6
                  else if ip = IP_v6 \<and> stack = kDualStack then AF_INET6
                  else 0)
        in if af = 0 then zero_sockaddr
           else (case pton af address of
                   None \<Rightarrow> zero_sockaddr\<lparr>sin_port := htons port\<rparr>
                 | Some a \<Rightarrow> \<lparr>ss_family = af, sin_port = htons port, sin_addr = a\<rparr>))"

section \<open>System calls\<close>

datatype syscall =
    Sys_socket fd
  | Sys_setsockopt fd
  | Sys_fcntl fd
  | Sys_bind fd
  | Sys_listen fd
  | Sys_connect fd
  | Sys_select fd
  | Sys_getsockopt fd
  | Sys_accept fd
  | Sys_close fd
  | Sys_shut_wr fd

text \<open>The descriptors a trace leaves open.\<close>

fun open_fds :: "syscall list \<Rightarrow> fd list \<Rightarrow> fd list" where
  "open_fds [] fs = fs"
| "open_fds (Sys_socket h # tr) fs = open_fds tr (if h = invalid_socket then fs else h # fs)"
| "open_fds (Sys_accept h # tr) fs = open_fds tr (if h = invalid_socket then fs else h # fs)"
| "open_fds (Sys_close h # tr) fs = open_fds tr (remove1 h fs)"
| "open_fds (_ # tr) fs = open_fds tr fs"

subsection \<open>listen\<close>

record listen_os =
  lo_socket :: fd
  lo_v6only :: bool
  lo_reuseaddr :: bool
  lo_reuseport :: bool
  lo_nonblock :: bool
  lo_bind :: bool
  lo_listen :: bool

definition listen :: "listen_os \<Rightarrow> sockaddr_storage \<Rightarrow> protocol_stack \<Rightarrow> cflags \<Rightarrow> fd \<times> syscall list" where
  "listen os addr stack option =
     (if ss_family addr = 0 then (invalid_socket, [])
      else
        let h = lo_socket os;
            fail = (\<lambda>tr. (invalid_socket, tr @ [Sys_close h]));
            t0 = [Sys_socket h]
        in if h = invalid_socket then (h, t0)
        else
          let dual = (ss_family addr = AF_INET6 \<and> stack = kDualStack);
              t1 = (if dual then t0 @ [Sys_setsockopt h] else t0)
          in if dual \<and> \<not> lo_v6only os then fail t1
          else
            let ra = (option AND kReuseAddr = kReuseAddr);
                t2 = (if ra then t1 @ [Sys_setsockopt h] else t1)
            in if ra \<and> \<not> lo_reuseaddr os then fail t2
            else
              let rp = (option AND kReusePort = kReusePort);
                  t3 = (if rp then t2 @ [Sys_setsockopt h] else t2)
              in if rp \<and> \<not> lo_reuseport os then fail t3
              else
                let t4 = t3 @ [Sys_fcntl h] in
                if \<not> lo_nonblock os then fail t4
                else
                  let t5 = t4 @ [Sys_bind h] in
                  if \<not> lo_bind os then fail t5
                  else
                    let t6 = t5 @ [Sys_listen h] in
                    if \<not> lo_listen os then fail t6 else (h, t6))"

subsection \<open>connect\<close>

text \<open>\<open>co_last_error\<close> is the error number in force when the call answers a failure.\<close>

record connect_os =
  co_socket :: fd
  co_nonblock :: bool
  co_connect :: int
  co_errno :: int
  co_select :: int
  co_getsockopt :: int
  co_so_error :: int
  co_last_error :: int

text \<open>
  \<open>FD_SET\<close> of a descriptor not below \<open>FD_SETSIZE\<close> writes outside the \<open>fd_set\<close>.
\<close>

definition connect :: "connect_os \<Rightarrow> sockaddr_storage \<Rightarrow> bool \<Rightarrow> (fd \<times> syscall list) result" where
  "connect os addr async =
     (if ss_family addr = 0 then Inr (-1, [])
      else
        let h = co_socket os;
            fail = (\<lambda>tr. Inr (invalid_socket, tr @ [Sys_close h]))
        in if h = invalid_socket then Inr (-1, [Sys_socket h])
        else if \<not> co_nonblock os then fail [Sys_socket h, Sys_fcntl h]
        else
          let t1 = [Sys_socket h, Sys_fcntl h, Sys_connect h] in
          if co_connect os = 0 then Inr (h, t1)
          else if co_errno os \<noteq> EINPROGRESS then fail t1
          else if async then Inr (h, t1)
          else if h \<ge> FD_SETSIZE then Inl Out_of_bounds
          else
            let t2 = t1 @ [Sys_select h] in
            if co_select os \<noteq> 1 then fail t2
            else
              let t3 = t2 @ [Sys_getsockopt h] in
              if co_getsockopt os < 0 \<or> co_so_error os \<noteq> 0 then fail t3
              else Inr (h, t3))"

subsection \<open>accept\<close>

datatype accept_answer = Accepted fd sockaddr_storage | Accept_failed int

text \<open>
  The loop over \<open>accept4\<close>: \<open>None\<close> means that the answers given so far do not make the call
  return. \<open>acc\<close> is the vector \<open>accepted_handles\<close>, appended to in place.
\<close>

fun accept_loop :: "accept_answer list \<Rightarrow> (fd \<times> sockaddr_storage) list \<Rightarrow>
    (int \<times> (fd \<times> sockaddr_storage) list) option" where
  "accept_loop [] acc = None"
| "accept_loop (Accepted h addr # as) acc = accept_loop as (acc @ [(h, addr)])"
| "accept_loop (Accept_failed err # as) acc =
     (case handle_error_action err of
        kBreak \<Rightarrow> Some (0, acc)
      | kContinue \<Rightarrow> accept_loop as acc
      | kClose \<Rightarrow> Some (err, acc))"

definition accept :: "fd \<Rightarrow> accept_answer list \<Rightarrow> (fd \<times> sockaddr_storage) list \<Rightarrow>
    (int \<times> (fd \<times> sockaddr_storage) list) option" where
  "accept listen_handle as acc =
     (if listen_handle = -1 then Some (-1, acc) else accept_loop as acc)"

subsection \<open>Wakeup descriptor\<close>

text \<open>\<open>n\<close> is what \<open>read\<close> or \<open>write\<close> on the eventfd returned, \<open>err\<close> the error number if negative.\<close>

definition wakeup_write :: "int \<Rightarrow> int \<Rightarrow> unit result" where
  "wakeup_write n err = ensure (\<not> (n < 0 \<and> err \<noteq> EAGAIN)) ''wakeup_write failed'' (Inr ())"

definition wakeup_read :: "int \<Rightarrow> int \<Rightarrow> unit result" where
  "wakeup_read n err = ensure (\<not> (n < 0 \<and> err \<noteq> EAGAIN)) ''wakeup_read failed'' (Inr ())"

section \<open>Lemmas\<close>

lemma ntohs_htons [simp]: "ntohs (htons p) = p"
  unfolding ntohs_def htons_def
  by (rule bit_word_eqI) (auto simp: bit_simps)

lemma open_fds_append: "open_fds (xs @ ys) fs = open_fds ys (open_fds xs fs)"
  by (induction xs fs rule: open_fds.induct) auto

fun accepted :: "accept_answer list \<Rightarrow> (fd \<times> sockaddr_storage) list" where
  "accepted [] = []"
| "accepted (Accepted h addr # as) = (h, addr) # accepted as"
| "accepted (Accept_failed err # as) = accepted as"

fun keeps_accepting :: "accept_answer \<Rightarrow> bool" where
  "keeps_accepting (Accepted h addr) = True"
| "keeps_accepting (Accept_failed err) = (handle_error_action err = kContinue)"

lemma accept_loop_continue:
  "\<forall>a\<in>set as. keeps_accepting a \<Longrightarrow> accept_loop (as @ bs) acc = accept_loop bs (acc @ accepted as)"
  by (induction as acc rule: accept_loop.induct) auto

lemma accept_loop_None: "accept_loop as acc = None \<longleftrightarrow> (\<forall>a\<in>set as. keeps_accepting a)"
  by (induction as acc rule: accept_loop.induct) (auto split: error_action.splits)

section \<open>Properties\<close>

text \<open>
  \<open>Platform::listen\<close> leaks no descriptor: when it answers \<open>invalid_socket\<close>, the socket it may
  have opened is closed again; when it answers a descriptor, that is the one it opened, the
  only one left open, and every option that was asked for has been set.
\<close>

lemma listen_no_leak:
  "case listen os addr stack opt of (h, tr) \<Rightarrow>
     (if h = invalid_socket then open_fds tr [] = []
      else h = lo_socket os \<and> open_fds tr [] = [h] \<and> lo_nonblock os \<and> lo_bind os \<and> lo_listen os \<and>
           (opt AND kReuseAddr = kReuseAddr \<longrightarrow> lo_reuseaddr os) \<and>
           (opt AND kReusePort = kReusePort \<longrightarrow> lo_reuseport os) \<and>
           (ss_family addr = AF_INET6 \<and> stack = kDualStack \<longrightarrow> lo_v6only os))"
  unfolding listen_def Let_def by (simp add: open_fds_append)

definition sample_listen_os :: listen_os where
  "sample_listen_os = \<lparr>lo_socket = 5, lo_v6only = True, lo_reuseaddr = True, lo_reuseport = True,
     lo_nonblock = True, lo_bind = False, lo_listen = True\<rparr>"

text \<open>
  \<open>Platform::connect\<close> leaks no descriptor either, and an asynchronous connect never fails
  otherwise than by answering \<open>invalid_socket\<close>. A synchronous connect that has to wait does:
  with a descriptor of 1024 or more its \<open>FD_SET\<close> writes outside the \<open>fd_set\<close>.
\<close>

lemma connect_no_leak:
  "(case connect os addr async of
      Inl e \<Rightarrow> e = Out_of_bounds \<and> \<not> async \<and> FD_SETSIZE \<le> co_socket os
    | Inr (h, tr) \<Rightarrow>
        if h = invalid_socket then open_fds tr [] = []
        else h = co_socket os \<and> open_fds tr [] = [h]) \<and>
   (ss_family addr \<noteq> 0 \<and> co_nonblock os \<and> co_connect os \<noteq> 0 \<and> co_errno os = EINPROGRESS \<and>
    FD_SETSIZE \<le> co_socket os \<longrightarrow> connect os addr False = Inl Out_of_bounds)"
  unfolding connect_def Let_def by simp

definition sample_connect_os :: connect_os where
  "sample_connect_os = \<lparr>co_socket = 1024, co_nonblock = True, co_connect = -1,
     co_errno = EINPROGRESS, co_select = 1, co_getsockopt = 0, co_so_error = 0, co_last_error = 0\<rparr>"

text \<open>
  \<open>Platform::accept\<close> returns exactly when the kernel gives an answer other than a connection
  or a retryable error; it then has appended every connection accepted so far, in order, and
  answers 0 if the backlog was drained (\<open>EAGAIN\<close>) and the error number otherwise.
\<close>

lemma accept_exact:
  assumes "listen_handle \<noteq> -1" and "\<forall>a\<in>set as. keeps_accepting a"
    and "handle_error_action err \<noteq> kContinue"
  shows "accept listen_handle (as @ Accept_failed err # bs) acc =
      Some (if err = EAGAIN then 0 else err, acc @ accepted as) \<and>
    accept listen_handle as acc = None"
  using assms(1,3) accept_loop_continue [OF assms(2)] accept_loop_None [of as acc] assms(2)
  by (simp add: accept_def split: error_action.split) (auto simp: handle_error_action_def split: if_splits)

text \<open>
  \<open>Platform::get_sockaddr\<close> gives an IPv4 address exactly for a dotted IPv4 string with
  \<open>kIPv4Only\<close>, an IPv6 address exactly for an IPv6 string with \<open>kIPv6Only\<close> or \<open>kDualStack\<close>, and family
  0 otherwise; the port it stores is read back by \<open>ntohs\<close>.
\<close>

lemma get_sockaddr_spec:
  "(ss_family (get_sockaddr pton a p stack) = AF_INET \<longleftrightarrow>
      a \<noteq> [] \<and> pton AF_INET a \<noteq> None \<and> stack = kIPv4Only) \<and>
   (ss_family (get_sockaddr pton a p stack) = AF_INET6 \<longleftrightarrow>
      a \<noteq> [] \<and> pton AF_INET a = None \<and> pton AF_INET6 a \<noteq> None \<and> stack \<in> {kIPv6Only, kDualStack}) \<and>
   ss_family (get_sockaddr pton a p stack) \<in> {0, AF_INET, AF_INET6} \<and>
   (ss_family (get_sockaddr pton a p stack) \<noteq> 0 \<longrightarrow> ntohs (sin_port (get_sockaddr pton a p stack)) = p)"
  by (cases stack)
     (auto simp: get_sockaddr_def ip_address_type_def zero_sockaddr_def Let_def split: if_splits option.splits)

end
