(* ===== verification/Channel.thy ===== *)
theory Channel
  imports Platform
begin

text \<open>
  Event dispatch for one descriptor: cxpnet/channel.h and cxpnet/channel.cc, and the contract of
  the abstract class \<open>PollerBase\<close> (cxpnet/poller_base.h) that the channel relies on.

  A channel names the callbacks it holds; what they do belongs to the component that set them,
  so \<open>handle_event\<close> answers the calls to make, in order. The virtual call
  \<open>event_poll_->update_channel(this)\<close> is an argument of the operations that make it.
\<close>

section \<open>State\<close>

record 'f channel =
  ch_id :: nat
  ch_handle :: fd
  ch_events :: cflags
  ch_result :: cflags
  ch_registered :: bool
  ch_tied :: bool
  ch_on_read :: "'f option"
  ch_on_write :: "'f option"
  ch_on_close :: "'f option"

definition Channel_new :: "nat \<Rightarrow> fd \<Rightarrow> 'f channel" where
  "Channel_new this handle = \<lparr>ch_id = this, ch_handle = handle, ch_events = 0, ch_result = 0,
     ch_registered = False, ch_tied = False, ch_on_read = None, ch_on_write = None, ch_on_close = None\<rparr>"

definition reading :: "'f channel \<Rightarrow> bool" where
  "reading ch \<longleftrightarrow> ch_events ch AND kRead \<noteq> 0"

definition writing :: "'f channel \<Rightarrow> bool" where
  "writing ch \<longleftrightarrow> ch_events ch AND kWrite \<noteq> 0"

section \<open>Changing the interest\<close>

type_synonym ('p, 'f) poller_call = "'p \<Rightarrow> 'f channel \<Rightarrow> ('p \<times> 'f channel) result"

definition add_read_event :: "('p, 'f) poller_call \<Rightarrow> ('p, 'f) poller_call" where
  "add_read_event update p ch =
     (if reading ch then Inr (p, ch) else update p (ch\<lparr>ch_events := ch_events ch OR kRead\<rparr>))"

definition add_write_event :: "('p, 'f) poller_call \<Rightarrow> ('p, 'f) poller_call" where
  "add_write_event update p ch =
     (if writing ch then Inr (p, ch) else update p (ch\<lparr>ch_events := ch_events ch OR kWrite\<rparr>))"

definition remove_write_event :: "('p, 'f) poller_call \<Rightarrow> ('p, 'f) poller_call" where
  "remove_write_event update p ch =
     (if \<not> writing ch then Inr (p, ch) else update p (ch\<lparr>ch_events := ch_events ch AND NOT kWrite\<rparr>))"

definition clear_event :: "('p, 'f) poller_call \<Rightarrow> ('p, 'f) poller_call" where
  "clear_event update p ch = update p (ch\<lparr>ch_events := 0\<rparr>)"

text \<open>Programs of interest changes on one channel.\<close>

datatype channel_op = Op_add_read | Op_add_write | Op_remove_write | Op_clear

fun run_channel_op :: "('p, 'f) poller_call \<Rightarrow> channel_op \<Rightarrow> ('p, 'f) poller_call" where
  "run_channel_op update Op_add_read = add_read_event update"
| "run_channel_op update Op_add_write = add_write_event update"
| "run_channel_op update Op_remove_write = remove_write_event update"
| "run_channel_op update Op_clear = clear_event update"

fun run_channel_ops :: "('p, 'f) poller_call \<Rightarrow> channel_op list \<Rightarrow> ('p, 'f) poller_call" where
  "run_channel_ops update [] p ch = Inr (p, ch)"
| "run_channel_ops update (c # cs) p ch =
     andthen (run_channel_op update c p ch) (\<lambda>(p', ch'). run_channel_ops update cs p' ch')"

section \<open>Dispatch\<close>

text \<open>
  A call to a callback; the close callback gets the pending socket error. \<open>alive\<close> tells whether
  the tied owner still exists, \<open>so_error\<close> is what \<open>getsockopt(SO_ERROR)\<close> answers.
\<close>

datatype 'f dispatch = Call 'f | Call_err 'f int

definition calls_of :: "'f option \<Rightarrow> 'f dispatch list" where
  "calls_of f = (case f of None \<Rightarrow> [] | Some g \<Rightarrow> [Call g])"

definition dispatch_event :: "'f channel \<Rightarrow> int \<Rightarrow> 'f dispatch list" where
  "dispatch_event ch so_error =
     (if ch_result ch AND (kError OR kHup) \<noteq> 0 then
        let err = (if ch_result ch AND kError \<noteq> 0 then so_error else 0) in
        (if ch_result ch AND kRead \<noteq> 0 then calls_of (ch_on_read ch) else []) @
        (case ch_on_close ch of None \<Rightarrow> [] | Some f \<Rightarrow> [Call_err f err])
      else
        (if ch_result ch AND kRead \<noteq> 0 then calls_of (ch_on_read ch) else []) @
        (if ch_result ch AND kWrite \<noteq> 0 then calls_of (ch_on_write ch) else []))"

definition handle_event :: "'f channel \<Rightarrow> bool \<Rightarrow> int \<Rightarrow> 'f dispatch list" where
  "handle_event ch alive so_error =
     (if ch_tied ch then (if alive then dispatch_event ch so_error else [])
      else dispatch_event ch so_error)"

section \<open>What a channel relies on: the contract of a poller\<close>

text \<open>The interests a channel can have, and bit facts about them.\<close>

definition valid_events :: "cflags \<Rightarrow> bool" where
  "valid_events e \<longleftrightarrow> e \<in> {0, 1, 2, 3}"

lemma valid_events_ops:
  assumes "valid_events e"
  shows "valid_events (e OR kRead)" "valid_events (e OR kWrite)" "valid_events (e AND NOT kWrite)"
    "(e OR kRead) AND kRead \<noteq> 0" "(e OR kWrite) AND kWrite \<noteq> 0" "(e AND NOT kWrite) AND kWrite = 0"
    "(e OR kWrite) AND kRead = e AND kRead" "(e AND NOT kWrite) AND kRead = e AND kRead"
    "(e OR kRead) AND kWrite = e AND kWrite" "e OR kRead \<noteq> 0" "e OR kWrite \<noteq> 0"
  using assms by (auto simp: valid_events_def event_flags)

lemma valid_events_0 [simp]: "valid_events 0"
  by (simp add: valid_events_def)

text \<open>
  \<open>watched p f\<close> is the interest the operating system holds for descriptor \<open>f\<close>; \<open>synced p ch\<close> says
  that the poller's books about the channel are right; \<open>ok p\<close> collects what is assumed of the
  operating system; \<open>touches h\<close> relates states that differ in what concerns descriptor \<open>h\<close> only. Updating makes the system watch exactly the channel's events.
\<close>

definition chan_ok :: "('p \<Rightarrow> fd \<Rightarrow> cflags) \<Rightarrow> ('p \<Rightarrow> 'f channel \<Rightarrow> bool) \<Rightarrow> ('p \<Rightarrow> bool) \<Rightarrow>
    'p \<Rightarrow> 'f channel \<Rightarrow> bool" where
  "chan_ok watched synced ok p ch \<longleftrightarrow> ok p \<and> synced p ch \<and> valid_events (ch_events ch) \<and>
     watched p (ch_handle ch) = ch_events ch \<and> ch_registered ch = (ch_events ch \<noteq> 0)"

locale poller_contract =
  fixes update :: "('p, 'f) poller_call"
    and remove :: "('p, 'f) poller_call"
    and watched :: "'p \<Rightarrow> fd \<Rightarrow> cflags"
    and synced :: "'p \<Rightarrow> 'f channel \<Rightarrow> bool"
    and ok :: "'p \<Rightarrow> bool"
    and touches :: "fd \<Rightarrow> 'p \<Rightarrow> 'p \<Rightarrow> bool"
  assumes update_ok: "ok p \<Longrightarrow> synced p ch \<Longrightarrow> valid_events (ch_events ch) \<Longrightarrow>
      \<exists>p' ch'. update p ch = Inr (p', ch') \<and> ok p' \<and> synced p' ch' \<and>
        ch' = ch\<lparr>ch_registered := (ch_events ch \<noteq> 0)\<rparr> \<and> watched p' (ch_handle ch) = ch_events ch \<and>
        touches (ch_handle ch) p p'"
    and remove_unregistered: "ok p \<Longrightarrow> synced p ch \<Longrightarrow> \<not> ch_registered ch \<Longrightarrow> remove p ch = Inr (p, ch)"
    and synced_events: "synced p (ch\<lparr>ch_events := e\<rparr>) = synced p ch"
    and touches_refl: "touches h p p"
    and touches_trans: "touches h p q \<Longrightarrow> touches h q r \<Longrightarrow> touches h p r"
    and touches_frame: "touches h p p' \<Longrightarrow> ch_handle ch \<noteq> h \<Longrightarrow>
      synced p' ch = synced p ch \<and> watched p' (ch_handle ch) = watched p (ch_handle ch)"
begin

lemma frame: "touches h p p' \<Longrightarrow> ok p' \<Longrightarrow> ch_handle ch \<noteq> h \<Longrightarrow>
    chan_ok watched synced ok p ch \<Longrightarrow> chan_ok watched synced ok p' ch"
  using touches_frame [of h p p' ch] by (simp add: chan_ok_def)

lemma update_to:
  assumes "chan_ok watched synced ok p ch" and "valid_events e"
  shows "\<exists>p' ch'. update p (ch\<lparr>ch_events := e\<rparr>) = Inr (p', ch') \<and> chan_ok watched synced ok p' ch' \<and>
      ch' = ch\<lparr>ch_events := e, ch_registered := (e \<noteq> 0)\<rparr> \<and>
      touches (ch_handle ch) p p'"
  using update_ok [of p "ch\<lparr>ch_events := e\<rparr>"] assms by (auto simp: chan_ok_def synced_events)

lemma add_read_event_ok:
  assumes "chan_ok watched synced ok p ch"
  shows "\<exists>p' ch'. add_read_event update p ch = Inr (p', ch') \<and> chan_ok watched synced ok p' ch' \<and>
      ch' = ch\<lparr>ch_events := ch_events ch OR kRead, ch_registered := True\<rparr> \<and>
      touches (ch_handle ch) p p'"
proof (cases "reading ch")
  case True
  then have "ch_events ch OR kRead = ch_events ch" "ch_events ch \<noteq> 0"
    using assms by (auto simp: chan_ok_def valid_events_def reading_def event_flags)
  moreover from this have "ch_registered ch" using assms by (simp add: chan_ok_def)
  ultimately show ?thesis using True assms by (simp add: add_read_event_def touches_refl)
next
  case False
  have v: "valid_events (ch_events ch)" using assms by (simp add: chan_ok_def)
  from update_to [OF assms valid_events_ops(1) [OF v]] False valid_events_ops(10) [OF v]
  show ?thesis by (simp add: add_read_event_def)
qed

lemma add_write_event_ok:
  assumes "chan_ok watched synced ok p ch"
  shows "\<exists>p' ch'. add_write_event update p ch = Inr (p', ch') \<and> chan_ok watched synced ok p' ch' \<and>
      ch' = ch\<lparr>ch_events := ch_events ch OR kWrite, ch_registered := True\<rparr> \<and>
      touches (ch_handle ch) p p'"
proof (cases "writing ch")
  case True
  then have "ch_events ch OR kWrite = ch_events ch" "ch_events ch \<noteq> 0"
    using assms by (auto simp: chan_ok_def valid_events_def writing_def event_flags)
  moreover from this have "ch_registered ch" using assms by (simp add: chan_ok_def)
  ultimately show ?thesis using True assms by (simp add: add_write_event_def touches_refl)
next
  case False
  have v: "valid_events (ch_events ch)" using assms by (simp add: chan_ok_def)
  from update_to [OF assms valid_events_ops(2) [OF v]] False valid_events_ops(11) [OF v]
  show ?thesis by (simp add: add_write_event_def)
qed

lemma remove_write_event_ok:
  assumes "chan_ok watched synced ok p ch"
  shows "\<exists>p' ch'. remove_write_event update p ch = Inr (p', ch') \<and> chan_ok watched synced ok p' ch' \<and>
      ch' = ch\<lparr>ch_events := ch_events ch AND NOT kWrite, ch_registered := (ch_events ch AND NOT kWrite \<noteq> 0)\<rparr> \<and>
      touches (ch_handle ch) p p'"
proof (cases "writing ch")
  case False
  then have "ch_events ch AND NOT kWrite = ch_events ch"
    using assms by (auto simp: chan_ok_def valid_events_def writing_def event_flags)
  moreover have "ch_registered ch = (ch_events ch \<noteq> 0)" using assms by (simp add: chan_ok_def)
  ultimately show ?thesis using False assms by (simp add: remove_write_event_def touches_refl)
next
  case True
  have "valid_events (ch_events ch)" using assms by (simp add: chan_ok_def)
  from update_to [OF assms valid_events_ops(3) [OF this]] True
  show ?thesis by (simp add: remove_write_event_def)
qed

lemma clear_event_ok:
  assumes "chan_ok watched synced ok p ch"
  shows "\<exists>p' ch'. clear_event update p ch = Inr (p', ch') \<and> remove p' ch' = Inr (p', ch') \<and>
      chan_ok watched synced ok p' ch' \<and> ch' = ch\<lparr>ch_events := 0, ch_registered := False\<rparr> \<and>
      watched p' (ch_handle ch) = 0 \<and> touches (ch_handle ch) p p'"
proof -
  from update_to [OF assms valid_events_0] obtain p' ch' where
    u: "update p (ch\<lparr>ch_events := 0\<rparr>) = Inr (p', ch')" "chan_ok watched synced ok p' ch'"
       "ch' = ch\<lparr>ch_events := 0, ch_registered := False\<rparr>"
       "touches (ch_handle ch) p p'" by auto
  then have "remove p' ch' = Inr (p', ch')" by (intro remove_unregistered) (auto simp: chan_ok_def)
  with u show ?thesis by (auto simp: clear_event_def chan_ok_def)
qed

lemma run_channel_op_ok:
  assumes "chan_ok watched synced ok p ch"
  shows "\<exists>p' ch'. run_channel_op update c p ch = Inr (p', ch') \<and> chan_ok watched synced ok p' ch' \<and>
      ch_handle ch' = ch_handle ch \<and> touches (ch_handle ch) p p'"
  using add_read_event_ok [OF assms] add_write_event_ok [OF assms] remove_write_event_ok [OF assms] clear_event_ok [OF assms]
  by (cases c) auto

lemma run_channel_ops_ok:
  assumes "chan_ok watched synced ok p ch"
  shows "\<exists>p' ch'. run_channel_ops update cs p ch = Inr (p', ch') \<and> chan_ok watched synced ok p' ch' \<and>
      ch_handle ch' = ch_handle ch \<and> touches (ch_handle ch) p p'"
  using assms
proof (induction cs arbitrary: p ch)
  case (Cons c cs)
  from run_channel_op_ok [OF Cons.prems, of c] obtain p1 ch1 where
    1: "run_channel_op update c p ch = Inr (p1, ch1)" "chan_ok watched synced ok p1 ch1" "ch_handle ch1 = ch_handle ch"
       "touches (ch_handle ch) p p1" by blast
  from Cons.IH [OF 1(2)] 1 show ?case by (auto intro: touches_trans)
qed (simp add: touches_refl)

end

end
