(* ===== verification/Epoll.thy ===== *)
theory Epoll
  imports Channel
begin

text \<open>
  The epoll implementation of the poller: cxpnet/poller_for_epoll.h and .cc.

  \<open>epoll_ctl\<close> and \<open>epoll_wait\<close> belong to the kernel. The poller's record keeps the history of the
  \<open>epoll_ctl\<close> calls it made and a function that gives the kernel's answer to the last call of a
  history; \<open>epoll_documented\<close> states the documented answers the code relies on. The interest
  list is what the history says it is.
\<close>

section \<open>Event conversion\<close>

definition EPOLLIN :: cflags where "EPOLLIN = 0x001"
definition EPOLLOUT :: cflags where "EPOLLOUT = 0x004"
definition EPOLLERR :: cflags where "EPOLLERR = 0x008"
definition EPOLLHUP :: cflags where "EPOLLHUP = 0x010"
definition EPOLLRDHUP :: cflags where "EPOLLRDHUP = 0x2000"
definition EPOLLET :: cflags where "EPOLLET = 0x80000000"

lemmas epoll_flags = EPOLLIN_def EPOLLOUT_def EPOLLERR_def EPOLLHUP_def EPOLLRDHUP_def EPOLLET_def

definition to_epoll_events :: "cflags \<Rightarrow> cflags" where
  "to_epoll_events events =
     (if events AND kRead \<noteq> 0 then EPOLLIN OR EPOLLRDHUP else 0) OR
     (if events AND kWrite \<noteq> 0 then EPOLLOUT else 0)"

definition from_epoll_events :: "cflags \<Rightarrow> cflags" where
  "from_epoll_events events =
     (if events AND EPOLLIN \<noteq> 0 then kRead else 0) OR
     (if events AND EPOLLOUT \<noteq> 0 then kWrite else 0) OR
     (if events AND EPOLLERR \<noteq> 0 then kError else 0) OR
     (if events AND EPOLLHUP \<noteq> 0 then kHup else 0) OR
     (if events AND EPOLLRDHUP \<noteq> 0 then kHup else 0)"

section \<open>State\<close>

datatype ctl_op = EPOLL_CTL_ADD | EPOLL_CTL_MOD | EPOLL_CTL_DEL

datatype ctl_call = Ctl ctl_op fd cflags nat

record epoll_poller =
  channels :: "fd \<rightharpoonup> nat"
  ctl_log :: "ctl_call list"
  ctl_answer :: "ctl_call list \<Rightarrow> int"
  events_size :: nat

definition EpollPoller_new :: "(ctl_call list \<Rightarrow> int) \<Rightarrow> epoll_poller" where
  "EpollPoller_new answer = \<lparr>channels = Map.empty, ctl_log = [], ctl_answer = answer, events_size = 64\<rparr>"

definition has_channel :: "epoll_poller \<Rightarrow> fd \<Rightarrow> bool" where
  "has_channel p handle \<longleftrightarrow> channels p handle \<noteq> None"

text \<open>\<open>EpollPoller::update\<close>: one \<open>epoll_ctl\<close> call; a failing deletion is ignored.\<close>

definition epoll_update :: "ctl_op \<Rightarrow> epoll_poller \<Rightarrow> 'f channel \<Rightarrow> epoll_poller result" where
  "epoll_update op p ch =
     (let call = Ctl op (ch_handle ch) (to_epoll_events (ch_events ch) OR EPOLLET) (ch_id ch);
          p' = p\<lparr>ctl_log := ctl_log p @ [call]\<rparr>
      in if ctl_answer p (ctl_log p') < 0 then
           (if op = EPOLL_CTL_DEL then Inr p' else Inl (Ensure_failed ''epoll_ctl failed''))
         else Inr p')"

definition update_channel :: "(epoll_poller, 'f) poller_call" where
  "update_channel p ch =
     (if \<not> ch_registered ch then
        (if ch_events ch \<noteq> 0 then
           let p1 = p\<lparr>channels := (channels p)(ch_handle ch \<mapsto> ch_id ch)\<rparr>;
               ch1 = ch\<lparr>ch_registered := True\<rparr>
           in andthen (epoll_update EPOLL_CTL_ADD p1 ch1) (\<lambda>p2. Inr (p2, ch1))
         else Inr (p, ch))
      else if ch_events ch = 0 then
        andthen (epoll_update EPOLL_CTL_DEL p ch) (\<lambda>p1.
          Inr (p1\<lparr>channels := (channels p1)(ch_handle ch := None)\<rparr>, ch\<lparr>ch_registered := False\<rparr>))
      else andthen (epoll_update EPOLL_CTL_MOD p ch) (\<lambda>p1. Inr (p1, ch)))"

definition remove_channel :: "(epoll_poller, 'f) poller_call" where
  "remove_channel p ch =
     (if \<not> ch_registered ch then Inr (p, ch)
      else
        ensure (has_channel p (ch_handle ch)) ''not in channels_''
        (ensure (channels p (ch_handle ch) = Some (ch_id ch)) ''Duplicate channel''
         (Inr (p\<lparr>channels := (channels p)(ch_handle ch := None)\<rparr>, ch\<lparr>ch_registered := False\<rparr>))))"

text \<open>
  \<open>shutdown\<close> removes the first channel until there is none; \<open>fs\<close> are the descriptors in the order in
  which \<open>channels_.begin()\<close> yields them. A channel that is listed without being registered is never
  removed, and the loop does not end.
\<close>

fun epoll_shutdown :: "fd list \<Rightarrow> epoll_poller \<Rightarrow> (nat \<Rightarrow> 'f channel) \<Rightarrow> (epoll_poller \<times> (nat \<Rightarrow> 'f channel)) result" where
  "epoll_shutdown [] p cs = Inr (p, cs)"
| "epoll_shutdown (f # fs) p cs =
     (case channels p f of None \<Rightarrow> epoll_shutdown fs p cs
      | Some i \<Rightarrow> andthen (remove_channel p (cs i)) (\<lambda>(p', c).
          if has_channel p' f then Inl Never_returns else epoll_shutdown fs p' (cs(i := c))))"

text \<open>
  \<open>fill_active_channels\<close>: the kernel answers a list of (events, channel address); channels that
  are no longer known are skipped. \<open>chans\<close> are the channel objects.
\<close>

definition fill_active_channels :: "epoll_poller \<Rightarrow> (nat \<Rightarrow> 'f channel) \<Rightarrow> (cflags \<times> nat) list \<Rightarrow>
    (nat \<Rightarrow> 'f channel) \<times> nat list" where
  "fill_active_channels p chans evs =
     fold (\<lambda>(e, i) (cs, active).
       if \<not> has_channel p (ch_handle (cs i)) then (cs, active)
       else (cs(i := (cs i)\<lparr>ch_result := from_epoll_events e\<rparr>), active @ [i])) evs (chans, [])"

text \<open>\<open>EpollPoller::poll\<close>: \<open>n\<close> and \<open>evs\<close> are what \<open>epoll_wait\<close> answered.\<close>

definition poller_poll :: "bool \<Rightarrow> int \<Rightarrow> (cflags \<times> nat) list \<Rightarrow> epoll_poller \<Rightarrow> (nat \<Rightarrow> 'f channel) \<Rightarrow>
    (int \<times> epoll_poller \<times> (nat \<Rightarrow> 'f channel) \<times> nat list) result" where
  "poller_poll in_thread n evs p chans =
     ensure in_thread ''Unsafe cross-thread operations''
     (if n > 0 then
        (case fill_active_channels p chans (take (nat n) evs) of (cs, active) \<Rightarrow>
           Inr (n, (if nat n = events_size p then p\<lparr>events_size := events_size p * 2\<rparr> else p), cs, active))
      else Inr (n, p, chans, []))"

section \<open>The interest list\<close>

fun interest_of :: "ctl_call list \<Rightarrow> fd \<rightharpoonup> cflags \<times> nat" where
  "interest_of [] = Map.empty"
| "interest_of (Ctl EPOLL_CTL_ADD f e i # cs) = (\<lambda>g. if g = f \<and> interest_of cs f = None then Some (e, i) else interest_of cs g)"
| "interest_of (Ctl EPOLL_CTL_MOD f e i # cs) = (\<lambda>g. if g = f \<and> interest_of cs f \<noteq> None then Some (e, i) else interest_of cs g)"
| "interest_of (Ctl EPOLL_CTL_DEL f e i # cs) = (\<lambda>g. if g = f then None else interest_of cs g)"

definition interest :: "epoll_poller \<Rightarrow> fd \<rightharpoonup> cflags \<times> nat" where
  "interest p = interest_of (rev (ctl_log p))"

text \<open>
  epoll\_ctl(2): adding a descriptor that is not in the interest list succeeds, and so does
  modifying one that is.
\<close>

definition epoll_documented :: "(ctl_call list \<Rightarrow> int) \<Rightarrow> bool" where
  "epoll_documented answer \<longleftrightarrow>
     (\<forall>log f e i. interest_of (rev log) f = None \<longrightarrow> 0 \<le> answer (log @ [Ctl EPOLL_CTL_ADD f e i])) \<and>
     (\<forall>log f e i. interest_of (rev log) f \<noteq> None \<longrightarrow> 0 \<le> answer (log @ [Ctl EPOLL_CTL_MOD f e i]))"

definition epoll_watched :: "epoll_poller \<Rightarrow> fd \<Rightarrow> cflags" where
  "epoll_watched p f = (case interest p f of None \<Rightarrow> 0
     | Some (e, _) \<Rightarrow> (if e AND EPOLLIN \<noteq> 0 then kRead else 0) OR (if e AND EPOLLOUT \<noteq> 0 then kWrite else 0))"

definition epoll_synced :: "epoll_poller \<Rightarrow> 'f channel \<Rightarrow> bool" where
  "epoll_synced p ch \<longleftrightarrow>
     (if ch_registered ch then channels p (ch_handle ch) = Some (ch_id ch) \<and> interest p (ch_handle ch) \<noteq> None
      else channels p (ch_handle ch) = None \<and> interest p (ch_handle ch) = None)"

definition epoll_touches :: "fd \<Rightarrow> epoll_poller \<Rightarrow> epoll_poller \<Rightarrow> bool" where
  "epoll_touches h p p' \<longleftrightarrow>
     (\<forall>f. f \<noteq> h \<longrightarrow> channels p' f = channels p f \<and> interest p' f = interest p f)"

definition epoll_ok :: "epoll_poller \<Rightarrow> bool" where
  "epoll_ok p \<longleftrightarrow> epoll_documented (ctl_answer p)"

lemma watched_to_epoll:
  assumes "valid_events e"
  shows "(if (to_epoll_events e OR EPOLLET) AND EPOLLIN \<noteq> 0 then kRead else 0) OR
         (if (to_epoll_events e OR EPOLLET) AND EPOLLOUT \<noteq> 0 then kWrite else 0) = e"
  using assms by (auto simp: valid_events_def to_epoll_events_def epoll_flags event_flags)

lemma epoll_update_channel_ok:
  assumes "epoll_ok p" and "epoll_synced p ch" and "valid_events (ch_events ch)"
  shows "\<exists>p' ch'. update_channel p ch = Inr (p', ch') \<and> epoll_ok p' \<and> epoll_synced p' ch' \<and>
      ch' = ch\<lparr>ch_registered := (ch_events ch \<noteq> 0)\<rparr> \<and> epoll_watched p' (ch_handle ch) = ch_events ch \<and>
      epoll_touches (ch_handle ch) p p'"
proof -
  note D = assms(1) [unfolded epoll_ok_def epoll_documented_def]
  note W = watched_to_epoll [OF assms(3)]
  consider (idle) "\<not> ch_registered ch" "ch_events ch = 0" | (add) "\<not> ch_registered ch" "ch_events ch \<noteq> 0"
    | (del) "ch_registered ch" "ch_events ch = 0" | (modify) "ch_registered ch" "ch_events ch \<noteq> 0" by blast
  then show ?thesis
  proof cases
    case idle
    moreover from this have "ch = ch\<lparr>ch_registered := False\<rparr>" by simp
    ultimately show ?thesis
      using assms by (auto simp: update_channel_def epoll_synced_def epoll_watched_def epoll_touches_def)
  next
    case add
    with assms(2) have "interest p (ch_handle ch) = None" by (simp add: epoll_synced_def)
    with D add W assms(1) show ?thesis
      by (auto simp: update_channel_def epoll_update_def Let_def interest_def epoll_synced_def
            epoll_ok_def epoll_watched_def epoll_touches_def not_less [symmetric])
  next
    case del
    with assms(1) show ?thesis
      by (auto simp: update_channel_def epoll_update_def Let_def interest_def epoll_synced_def
            epoll_ok_def epoll_watched_def epoll_touches_def)
  next
    case modify
    moreover from this have "ch = ch\<lparr>ch_registered := True\<rparr>" by simp
    moreover from modify assms(2) have "interest p (ch_handle ch) \<noteq> None"
      "channels p (ch_handle ch) = Some (ch_id ch)" by (auto simp: epoll_synced_def)
    ultimately show ?thesis
      using D W assms(1)
      by (auto simp: update_channel_def epoll_update_def Let_def interest_def epoll_synced_def
            epoll_ok_def epoll_watched_def epoll_touches_def not_less [symmetric])
  qed
qed

interpretation ep: poller_contract update_channel remove_channel epoll_watched epoll_synced epoll_ok
    epoll_touches
proof unfold_locales
  fix p :: epoll_poller and ch :: "'a channel"
  assume "epoll_ok p" "epoll_synced p ch" "valid_events (ch_events ch)"
  then show "\<exists>p' ch'. update_channel p ch = Inr (p', ch') \<and> epoll_ok p' \<and> epoll_synced p' ch' \<and>
      ch' = ch\<lparr>ch_registered := (ch_events ch \<noteq> 0)\<rparr> \<and> epoll_watched p' (ch_handle ch) = ch_events ch \<and>
      epoll_touches (ch_handle ch) p p'"
    by (rule epoll_update_channel_ok)
qed (auto simp: remove_channel_def epoll_synced_def epoll_touches_def epoll_watched_def)

abbreviation epoll_chan_ok :: "epoll_poller \<Rightarrow> 'f channel \<Rightarrow> bool" where
  "epoll_chan_ok \<equiv> chan_ok epoll_watched epoll_synced epoll_ok"

lemma new_channel_ok:
  assumes "epoll_ok p" and "channels p h = None" and "interest p h = None"
  shows "epoll_chan_ok p (Channel_new i h)"
  using assms by (simp add: chan_ok_def epoll_synced_def Channel_new_def epoll_watched_def)

section \<open>Properties\<close>

text \<open>
  C39. The interest of a channel and the kernel's interest list never diverge. Whatever sequence
  of \<open>add_read_event\<close>, \<open>add_write_event\<close>, \<open>remove_write_event\<close> and \<open>clear_event\<close> is applied to a
  channel, no call fails an \<open>ENSURE\<close>, epoll watches the descriptor for exactly the events the
  channel has, the poller lists the channel exactly when it has some, and the channels of all
  other descriptors are unaffected.
\<close>

theorem channel_interest_synced:
  assumes "epoll_chan_ok p ch"
  shows "\<exists>p' ch'. run_channel_ops update_channel cs p ch = Inr (p', ch') \<and> epoll_chan_ok p' ch' \<and>
      epoll_watched p' (ch_handle ch) = ch_events ch' \<and>
      (channels p' (ch_handle ch) = Some (ch_id ch') \<longleftrightarrow> ch_events ch' \<noteq> 0) \<and>
      (\<forall>other. ch_handle other \<noteq> ch_handle ch \<longrightarrow> epoll_chan_ok p other \<longrightarrow> epoll_chan_ok p' other)"
proof -
  from ep.run_channel_ops_ok [OF assms, of cs] obtain p' ch' where
    r: "run_channel_ops update_channel cs p ch = Inr (p', ch')" "epoll_chan_ok p' ch'" "ch_handle ch' = ch_handle ch"
      "epoll_touches (ch_handle ch) p p'" by blast
  from r(2) have "epoll_ok p'" by (simp add: chan_ok_def)
  then have frame: "\<forall>other. ch_handle other \<noteq> ch_handle ch \<longrightarrow> epoll_chan_ok p other \<longrightarrow> epoll_chan_ok p' other"
    using ep.frame [OF r(4)] by blast
  from r(2,3) have "epoll_watched p' (ch_handle ch) = ch_events ch'"
    "channels p' (ch_handle ch) = Some (ch_id ch') \<longleftrightarrow> ch_events ch' \<noteq> 0"
    by (auto simp: chan_ok_def epoll_synced_def split: if_splits)
  with r(1,2) frame show ?thesis by blast
qed

definition sample_poller :: epoll_poller where
  "sample_poller = EpollPoller_new (\<lambda>_. 0)"

lemma sample_poller_ok: "epoll_ok sample_poller" "channels sample_poller h = None" "interest sample_poller h = None"
  by (simp_all add: epoll_ok_def epoll_documented_def sample_poller_def EpollPoller_new_def interest_def)

theorem channel_interest_synced_witness:
  "\<exists>p' ch'. run_channel_ops update_channel [Op_add_read, Op_add_write, Op_remove_write] sample_poller
        (Channel_new 1 7 :: nat channel) = Inr (p', ch') \<and> epoll_watched p' 7 = ch_events ch'"
proof -
  have "epoll_chan_ok sample_poller (Channel_new 1 7 :: nat channel)"
    by (rule new_channel_ok) (rule sample_poller_ok)+
  from channel_interest_synced [OF this, of "[Op_add_read, Op_add_write, Op_remove_write]"]
  show ?thesis by (auto simp: Channel_new_def)
qed

lemma flag_tests:
  fixes b1 b2 b3 b4 b5 :: bool
  defines "e \<equiv> (if b1 then kRead else 0) OR (if b2 then kWrite else 0) OR (if b3 then kError else 0) OR
                (if b4 then kHup else 0) OR (if b5 then kHup else 0)"
  shows "(e AND kRead \<noteq> 0) = b1" "(e AND kWrite \<noteq> 0) = b2" "(e AND kError \<noteq> 0) = b3"
        "(e AND kHup \<noteq> 0) = (b4 \<or> b5)"
  unfolding e_def by (cases b1; cases b2; cases b3; cases b4; cases b5; simp add: event_flags)+

text \<open>
  Event conversion. A channel's events survive the trip to epoll: each bit asked for is
  asked of epoll, and every condition epoll reports comes back as the unified bit of the same
  meaning, the peer's half-close (\<open>EPOLLRDHUP\<close>) counting as \<open>kHup\<close>.
\<close>

lemma epoll_event_conversion:
  "(from_epoll_events ev AND kRead \<noteq> 0 \<longleftrightarrow> ev AND EPOLLIN \<noteq> 0) \<and>
   (from_epoll_events ev AND kWrite \<noteq> 0 \<longleftrightarrow> ev AND EPOLLOUT \<noteq> 0) \<and>
   (from_epoll_events ev AND kError \<noteq> 0 \<longleftrightarrow> ev AND EPOLLERR \<noteq> 0) \<and>
   (from_epoll_events ev AND kHup = 0 \<longleftrightarrow> ev AND EPOLLHUP = 0 \<and> ev AND EPOLLRDHUP = 0) \<and>
   (to_epoll_events e AND EPOLLIN \<noteq> 0 \<longleftrightarrow> e AND kRead \<noteq> 0) \<and>
   (to_epoll_events e AND EPOLLRDHUP \<noteq> 0 \<longleftrightarrow> e AND kRead \<noteq> 0) \<and>
   (to_epoll_events e AND EPOLLOUT \<noteq> 0 \<longleftrightarrow> e AND kWrite \<noteq> 0)"
proof -
  have "(to_epoll_events e AND EPOLLIN \<noteq> 0 \<longleftrightarrow> e AND kRead \<noteq> 0) \<and>
        (to_epoll_events e AND EPOLLRDHUP \<noteq> 0 \<longleftrightarrow> e AND kRead \<noteq> 0) \<and>
        (to_epoll_events e AND EPOLLOUT \<noteq> 0 \<longleftrightarrow> e AND kWrite \<noteq> 0)"
    by (cases "e AND kRead = 0"; cases "e AND kWrite = 0"; simp add: to_epoll_events_def epoll_flags)
  moreover have "(from_epoll_events ev AND kRead \<noteq> 0 \<longleftrightarrow> ev AND EPOLLIN \<noteq> 0) \<and>
      (from_epoll_events ev AND kWrite \<noteq> 0 \<longleftrightarrow> ev AND EPOLLOUT \<noteq> 0) \<and>
      (from_epoll_events ev AND kError \<noteq> 0 \<longleftrightarrow> ev AND EPOLLERR \<noteq> 0) \<and>
      (from_epoll_events ev AND kHup \<noteq> 0 \<longleftrightarrow> ev AND EPOLLHUP \<noteq> 0 \<or> ev AND EPOLLRDHUP \<noteq> 0)"
    unfolding from_epoll_events_def flag_tests by blast
  ultimately show ?thesis by argo
qed

text \<open>
  Order of dispatch. On an error or hang-up the readable data is delivered first, the close
  callback comes last and gets the pending socket error (0 for a plain hang-up), and the write
  callback is never called; without one, reading comes before writing. A channel whose tied
  owner is gone calls nothing.
\<close>

lemma handle_event_order:
  "handle_event ch alive so_error =
     (if ch_tied ch \<and> \<not> alive then []
      else (if ch_result ch AND kRead \<noteq> 0 then calls_of (ch_on_read ch) else []) @
        (if ch_result ch AND kError = 0 \<and> ch_result ch AND kHup = 0
         then (if ch_result ch AND kWrite \<noteq> 0 then calls_of (ch_on_write ch) else [])
         else (case ch_on_close ch of None \<Rightarrow> []
           | Some f \<Rightarrow> [Call_err f (if ch_result ch AND kError \<noteq> 0 then so_error else 0)])))"
proof -
  have "x AND (kError OR kHup) = 0 \<longleftrightarrow> x AND kError = 0 \<and> x AND kHup = 0" for x :: cflags
    by (simp add: bit.conj_disj_distrib or_eq_0_iff)
  then show ?thesis by (auto simp: handle_event_def dispatch_event_def Let_def)
qed

end
