(* ===== verification/Acceptor.thy ===== *)
theory Acceptor
  imports Epoll
begin

text \<open>
  The listening socket: cxpnet/acceptor.h and cxpnet/acceptor.cc.

  The record \<open>acceptor\<close> has the fields of the class, \<open>aw\<close> adds what its methods act on: the poller
  of its event poll, whether the caller is on the poll thread, whether that poll was shut down,
  whether its loop still runs closures, and a log of system calls and of calls to the two
  callbacks. The calls to the callbacks are logged in the order in which they are made.
\<close>

section \<open>State\<close>

datatype acc_fn = Fn_accept

record acceptor =
  listen_handle :: fd
  a_channel :: "acc_fn channel option"
  listening :: bool
  sock_option :: cflags
  proto_stack :: protocol_stack
  has_err_func :: bool
  has_conn_func :: bool
  local_addr :: sockaddr_storage
  accepted_handles :: "(fd \<times> sockaddr_storage) list"

datatype acc_event = A_sys syscall | A_conn fd sockaddr_storage | A_error int

record aw = acceptor +
  a_poller :: epoll_poller
  has_poll :: bool
  a_in_poll :: bool
  poll_shut :: bool
  loop_alive :: bool
  a_next_channel :: nat
  a_log :: "acc_event list"

definition Acceptor_new :: acceptor where
  "Acceptor_new = \<lparr>listen_handle = invalid_socket, a_channel = None, listening = False, sock_option = 0,
     proto_stack = kIPv4Only, has_err_func = False, has_conn_func = False, local_addr = zero_sockaddr,
     accepted_handles = []\<rparr>"

definition a_emit :: "acc_event list \<Rightarrow> aw \<Rightarrow> aw" where
  "a_emit es w = w\<lparr>a_log := a_log w @ es\<rparr>"

section \<open>Operations\<close>

definition set_listen_addr :: "inet_pton \<Rightarrow> string \<Rightarrow> uint16 \<Rightarrow> protocol_stack \<Rightarrow> cflags \<Rightarrow> aw \<Rightarrow> aw" where
  "set_listen_addr pton addr port stack option w =
     w\<lparr>sock_option := option, proto_stack := stack, local_addr := get_sockaddr pton addr port stack\<rparr>"

definition close_listen_handle :: "aw \<Rightarrow> aw" where
  "close_listen_handle w =
     (if listen_handle w \<noteq> invalid_socket
      then (a_emit [A_sys (Sys_close (listen_handle w))] w)\<lparr>listen_handle := invalid_socket\<rparr>
      else w)"

definition shutdown_local :: "aw \<Rightarrow> aw" where
  "shutdown_local w = (close_listen_handle (w\<lparr>a_channel := None\<rparr>))\<lparr>listening := False\<rparr>"

definition acceptor_shutdown_in_poll :: "aw \<Rightarrow> aw result" where
  "acceptor_shutdown_in_poll w =
     andthen (case a_channel w of None \<Rightarrow> Inr w
       | Some ch \<Rightarrow>
           andthen (clear_event update_channel (a_poller w) ch) (\<lambda>(p1, ch1).
           andthen (remove_channel p1 ch1) (\<lambda>(p2, ch2).
             Inr (w\<lparr>a_poller := p2, a_channel := None\<rparr>))))
       (\<lambda>w1. Inr ((close_listen_handle w1)\<lparr>listening := False\<rparr>))"

text \<open>
  From another thread the closure is posted and its completion awaited: the call returns only if
  the loop of the poll runs it.
\<close>

definition acceptor_shutdown :: "aw \<Rightarrow> aw result" where
  "acceptor_shutdown w =
     (if \<not> has_poll w then Inr (shutdown_local w)
      else if a_in_poll w then acceptor_shutdown_in_poll w
      else if poll_shut w then Inr (shutdown_local w)
      else if loop_alive w then acceptor_shutdown_in_poll w
      else Inl Never_returns)"

definition acceptor_listen :: "listen_os \<Rightarrow> aw \<Rightarrow> (bool \<times> aw) result" where
  "acceptor_listen os w =
     (if ss_family (local_addr w) = 0 then Inr (False, w)
      else
        case listen os (local_addr w) (proto_stack w) (sock_option w) of (h, tr) \<Rightarrow>
          let w1 = (a_emit (map A_sys tr) w)\<lparr>listen_handle := h\<rparr> in
          if h = invalid_socket then Inr (False, w1)
          else
            let ch = (Channel_new (a_next_channel w) h)\<lparr>ch_on_read := Some Fn_accept\<rparr> in
            andthen (add_read_event update_channel (a_poller w1) ch) (\<lambda>(p, ch').
              Inr (True, w1\<lparr>listening := True, a_channel := Some ch', a_poller := p,
                            a_next_channel := a_next_channel w + 1\<rparr>)))"

text \<open>
  \<open>handle_read_\<close>. \<open>as\<close> are the answers of \<open>accept4\<close>; the descriptors it opens are logged.
\<close>

definition handle_read :: "accept_answer list \<Rightarrow> aw \<Rightarrow> aw result" where
  "handle_read as w =
     (case accept (listen_handle w) as (accepted_handles w) of
        None \<Rightarrow> Inl Never_returns
      | Some (err, handles) \<Rightarrow>
          let fresh = drop (length (accepted_handles w)) handles;
              w1 = (a_emit (map (\<lambda>(h, addr). A_sys (Sys_accept h)) fresh) w)\<lparr>accepted_handles := handles\<rparr>
          in if err \<noteq> 0 then Inr (if has_err_func w1 then a_emit [A_error err] w1 else w1)
             else Inr ((a_emit (if has_conn_func w1 then map (\<lambda>(h, addr). A_conn h addr) handles else []) w1)
                         \<lparr>accepted_handles := []\<rparr>))"

definition Acceptor_delete :: "aw \<Rightarrow> aw result" where
  "Acceptor_delete w = acceptor_shutdown w"

section \<open>Views of the log\<close>

fun sys_of :: "acc_event list \<Rightarrow> syscall list" where
  "sys_of [] = []"
| "sys_of (A_sys c # es) = c # sys_of es"
| "sys_of (_ # es) = sys_of es"

fun delivered :: "acc_event list \<Rightarrow> (fd \<times> sockaddr_storage) list" where
  "delivered [] = []"
| "delivered (A_conn h addr # es) = (h, addr) # delivered es"
| "delivered (_ # es) = delivered es"

lemma delivered_append: "delivered (es @ fs) = delivered es @ delivered fs"
  by (induction es rule: delivered.induct) auto

lemma sys_of_append: "sys_of (es @ fs) = sys_of es @ sys_of fs"
  by (induction es rule: sys_of.induct) auto

lemma views_sys [simp]: "delivered (map A_sys tr) = []" "sys_of (map A_sys tr) = tr"
  by (induction tr) auto

lemma views_accept [simp]:
  "delivered (map (\<lambda>(h, addr). A_sys (f h)) hs) = []" "sys_of (map (\<lambda>(h, addr). A_sys (f h)) hs) = map (f \<circ> fst) hs"
  by (induction hs) auto

lemma views_conn [simp]:
  "delivered (map (\<lambda>(h, addr). A_conn h addr) hs) = hs" "sys_of (map (\<lambda>(h, addr). A_conn h addr) hs) = []"
  by (induction hs) auto

section \<open>Contract of the listening socket\<close>

definition acceptor_ok :: "aw \<Rightarrow> bool" where
  "acceptor_ok w \<longleftrightarrow> epoll_ok (a_poller w) \<and>
     (case a_channel w of None \<Rightarrow> listen_handle w = invalid_socket
      | Some ch \<Rightarrow> epoll_chan_ok (a_poller w) ch \<and> ch_handle ch = listen_handle w \<and> listen_handle w \<noteq> invalid_socket)"

lemma acceptor_shutdown_in_poll_ok:
  assumes "acceptor_ok w"
  shows "\<exists>w'. acceptor_shutdown_in_poll w = Inr w' \<and> acceptor_ok w' \<and> a_channel w' = None \<and>
     listen_handle w' = invalid_socket \<and> \<not> listening w' \<and> accepted_handles w' = accepted_handles w \<and>
     a_log w' = a_log w @ (if listen_handle w = invalid_socket then [] else [A_sys (Sys_close (listen_handle w))]) \<and>
     (listen_handle w \<noteq> invalid_socket \<longrightarrow> epoll_watched (a_poller w') (listen_handle w) = 0) \<and>
     epoll_touches (listen_handle w) (a_poller w) (a_poller w')"
proof (cases "a_channel w")
  case None
  then show ?thesis using assms
    by (auto simp: acceptor_shutdown_in_poll_def acceptor_ok_def close_listen_handle_def epoll_touches_def)
next
  case (Some ch)
  with assms have ch: "epoll_chan_ok (a_poller w) ch" "ch_handle ch = listen_handle w" "listen_handle w \<noteq> invalid_socket"
    by (simp_all add: acceptor_ok_def)
  from ep.clear_event_ok [OF ch(1)] obtain p ch' where
    p: "clear_event update_channel (a_poller w) ch = Inr (p, ch')" "remove_channel p ch' = Inr (p, ch')"
       "epoll_chan_ok p ch'" "epoll_watched p (ch_handle ch) = 0" "epoll_touches (ch_handle ch) (a_poller w) p" by blast
  from p(3) have "epoll_ok p" by (simp add: chan_ok_def)
  with p Some ch show ?thesis
    by (auto simp: acceptor_shutdown_in_poll_def acceptor_ok_def close_listen_handle_def a_emit_def)
qed

lemma listen_result: "listen os addr stack opt = (h, tr) \<Longrightarrow> h = invalid_socket \<or> h = lo_socket os"
  by (auto simp: listen_def Let_def split: if_splits)

lemma acceptor_listen_ok:
  assumes ok: "acceptor_ok w" "listen_handle w = invalid_socket"
    and fresh: "channels (a_poller w) (lo_socket os) = None" "interest (a_poller w) (lo_socket os) = None"
  shows "\<exists>b w'. acceptor_listen os w = Inr (b, w') \<and> acceptor_ok w' \<and> accepted_handles w' = accepted_handles w \<and>
     (b \<longrightarrow> listen_handle w' = lo_socket os \<and> lo_socket os \<noteq> invalid_socket \<and> listening w' \<and>
        epoll_watched (a_poller w') (lo_socket os) = kRead) \<and>
     (\<not> b \<longrightarrow> listen_handle w' = invalid_socket \<and> a_channel w' = a_channel w \<and> a_poller w' = a_poller w)"
proof (cases "ss_family (local_addr w) = 0")
  case True
  then show ?thesis using ok by (auto simp: acceptor_listen_def)
next
  case fam: False
  obtain h tr where l: "listen os (local_addr w) (proto_stack w) (sock_option w) = (h, tr)" by fastforce
  have none: "a_channel w = None" using ok by (auto simp: acceptor_ok_def split: option.splits)
  show ?thesis
  proof (cases "h = invalid_socket")
    case True
    then show ?thesis using ok fam l none by (auto simp: acceptor_listen_def acceptor_ok_def a_emit_def)
  next
    case False
    with listen_result [OF l] have h: "h = lo_socket os" by simp
    let ?ch = "(Channel_new (a_next_channel w) h)\<lparr>ch_on_read := Some Fn_accept\<rparr>"
    have "epoll_chan_ok (a_poller w) (Channel_new (a_next_channel w) h :: acc_fn channel)"
      by (rule new_channel_ok) (use ok fresh h in \<open>simp_all add: acceptor_ok_def\<close>)
    then have "epoll_chan_ok (a_poller w) ?ch" by (simp add: chan_ok_def epoll_synced_def)
    from ep.add_read_event_ok [OF this] obtain p ch where
      p: "add_read_event update_channel (a_poller w) ?ch = Inr (p, ch)" "epoll_chan_ok p ch"
         "ch = ?ch\<lparr>ch_events := ch_events ?ch OR kRead, ch_registered := True\<rparr>" by blast
    have w: "epoll_watched p h = kRead" "ch_handle ch = h" "epoll_ok p"
      using p(2) by (simp_all add: chan_ok_def p(3) Channel_new_def)
    from p(1,2) w h False fam l show ?thesis
      by (auto simp: acceptor_listen_def acceptor_ok_def a_emit_def)
  qed
qed

section \<open>Accept rounds\<close>

text \<open>A round of answers that makes \<open>accept\<close> return, and the connections it accepts.\<close>

definition ends_round :: "accept_answer list \<Rightarrow> bool" where
  "ends_round as \<longleftrightarrow> (\<exists>a\<in>set as. \<not> keeps_accepting a)"

definition round_accepts :: "accept_answer list \<Rightarrow> (fd \<times> sockaddr_storage) list" where
  "round_accepts as = accepted (takeWhile keeps_accepting as)"

lemma accept_round:
  assumes "ends_round as" and "h \<noteq> -1"
  shows "\<exists>err. accept h as acc = Some (err, acc @ round_accepts as)"
proof -
  from assms(1) obtain a bs where a: "as = takeWhile keeps_accepting as @ a # bs" "\<not> keeps_accepting a"
    unfolding ends_round_def by (metis dropWhile_eq_Cons_conv dropWhile_eq_Nil_conv takeWhile_dropWhile_id list.exhaust)
  then obtain err where e: "a = Accept_failed err" by (cases a) auto
  have "\<forall>x\<in>set (takeWhile keeps_accepting as). keeps_accepting x" by (auto dest: set_takeWhileD)
  from accept_loop_continue [OF this, of "a # bs" acc] a e assms(2) show ?thesis
    by (auto simp: accept_def round_accepts_def split: error_action.splits)
qed

fun read_rounds :: "accept_answer list list \<Rightarrow> aw \<Rightarrow> aw result" where
  "read_rounds [] w = Inr w"
| "read_rounds (as # rounds) w = andthen (handle_read as w) (read_rounds rounds)"

lemma handle_read_ok:
  assumes "ends_round as" and "listen_handle w \<noteq> invalid_socket" and "has_conn_func w"
  shows "\<exists>w'. handle_read as w = Inr w' \<and> listen_handle w' = listen_handle w \<and> has_conn_func w' \<and>
     delivered (a_log w') @ accepted_handles w' = delivered (a_log w) @ accepted_handles w @ round_accepts as \<and>
     sys_of (a_log w') = sys_of (a_log w) @ map (Sys_accept \<circ> fst) (round_accepts as)"
proof -
  from accept_round [OF assms(1), of "listen_handle w" "accepted_handles w"] assms(2) obtain err where
    "accept (listen_handle w) as (accepted_handles w) = Some (err, accepted_handles w @ round_accepts as)" by auto
  then show ?thesis using assms(3)
    by (simp add: handle_read_def Let_def a_emit_def delivered_append sys_of_append)
qed

section \<open>Properties\<close>

text \<open>
  C38. No accepted connection is lost or delivered twice. Over any sequence of read events, with
  whatever answers of the kernel, the connections handed to the new-connection callback, followed
  by those the acceptor still holds, are the connections accepted, each once and in the order in
  which they were accepted.
\<close>

theorem acceptor_conserves_connections:
  assumes "\<forall>as\<in>set rounds. ends_round as" and "listen_handle w \<noteq> invalid_socket" and "has_conn_func w"
  shows "\<exists>w'. read_rounds rounds w = Inr w' \<and>
     delivered (a_log w') @ accepted_handles w' =
       delivered (a_log w) @ accepted_handles w @ concat (map round_accepts rounds)"
  using assms
proof (induction rounds arbitrary: w)
  case (Cons as rounds)
  from handle_read_ok [of as w] Cons.prems obtain w1 where
    1: "handle_read as w = Inr w1" "listen_handle w1 = listen_handle w" "has_conn_func w1"
       "delivered (a_log w1) @ accepted_handles w1 = delivered (a_log w) @ accepted_handles w @ round_accepts as" by auto
  from Cons.IH [of w1] Cons.prems 1(2,3) obtain w' where
    "read_rounds rounds w1 = Inr w'"
    "delivered (a_log w') @ accepted_handles w' =
       delivered (a_log w1) @ accepted_handles w1 @ concat (map round_accepts rounds)" by auto
  with 1 show ?case by (auto simp flip: append_assoc)
qed simp

definition sample_acceptor :: aw where
  "sample_acceptor = acceptor.extend
     (Acceptor_new\<lparr>has_conn_func := True, has_err_func := True, local_addr := \<lparr>ss_family = AF_INET, sin_port = 80, sin_addr = []\<rparr>\<rparr>)
     (aw.fields sample_poller True True False True 1 [])"

lemma sample_acceptor_simps:
  "listen_handle sample_acceptor = invalid_socket" "has_conn_func sample_acceptor" "accepted_handles sample_acceptor = []"
  "a_log sample_acceptor = []" "a_poller sample_acceptor = sample_poller" "a_channel sample_acceptor = None"
  "local_addr sample_acceptor = \<lparr>ss_family = AF_INET, sin_port = 80, sin_addr = []\<rparr>"
  "has_err_func sample_acceptor"
  by (simp_all add: sample_acceptor_def acceptor.defs aw.defs Acceptor_new_def)

definition busy_round :: "accept_answer list" where
  "busy_round = [Accepted 7 zero_sockaddr, Accept_failed EINTR, Accepted 8 zero_sockaddr, Accept_failed EMFILE]"

lemma busy_round_simps: "ends_round busy_round" "round_accepts busy_round = [(7, zero_sockaddr), (8, zero_sockaddr)]"
  by (simp_all add: ends_round_def round_accepts_def busy_round_def handle_error_action_def)

theorem acceptor_conserves_connections_witness:
  "\<exists>w'. read_rounds [busy_round, [Accept_failed EAGAIN]] (sample_acceptor\<lparr>listen_handle := 3\<rparr>) = Inr w' \<and>
     delivered (a_log w') @ accepted_handles w' = [(7, zero_sockaddr), (8, zero_sockaddr)]"
proof -
  have e: "ends_round [Accept_failed EAGAIN]" "round_accepts [Accept_failed EAGAIN] = []"
    by (simp_all add: ends_round_def round_accepts_def handle_error_action_def)
  from acceptor_conserves_connections [of "[busy_round, [Accept_failed EAGAIN]]" "sample_acceptor\<lparr>listen_handle := 3\<rparr>"]
  show ?thesis by (simp add: busy_round_simps e sample_acceptor_simps)
qed

text \<open>
  An error withholds connections. When \<open>accept\<close> stops at a fatal error after accepting some
  connections, none of them is delivered: the error is reported and they stay in the acceptor. A
  shutdown then closes the listening descriptor only; the descriptors held are never closed.
\<close>

lemma accept_error_withholds:
  assumes keep: "\<forall>a\<in>set as. keeps_accepting a" and err: "handle_error_action err = kClose" "err \<noteq> 0"
    and ok: "acceptor_ok w" "listen_handle w \<noteq> invalid_socket"
  shows "\<exists>w' w''. handle_read (as @ Accept_failed err # bs) w = Inr w' \<and>
     delivered (a_log w') = delivered (a_log w) \<and> accepted_handles w' = accepted_handles w @ accepted as \<and>
     acceptor_shutdown_in_poll w' = Inr w'' \<and> accepted_handles w'' = accepted_handles w @ accepted as \<and>
     sys_of (a_log w'') = sys_of (a_log w) @ map (Sys_accept \<circ> fst) (accepted as) @ [Sys_close (listen_handle w)]"
proof -
  have "accept (listen_handle w) (as @ Accept_failed err # bs) (accepted_handles w) =
      Some (err, accepted_handles w @ accepted as)"
    using accept_loop_continue [OF keep] err(1) ok(2) by (simp add: accept_def)
  then obtain w' where w': "handle_read (as @ Accept_failed err # bs) w = Inr w'"
    "delivered (a_log w') = delivered (a_log w)" "accepted_handles w' = accepted_handles w @ accepted as"
    "sys_of (a_log w') = sys_of (a_log w) @ map (Sys_accept \<circ> fst) (accepted as)" "listen_handle w' = listen_handle w"
    "a_channel w' = a_channel w" "a_poller w' = a_poller w"
    using err(2) by (simp add: handle_read_def Let_def a_emit_def delivered_append sys_of_append)
  then have "acceptor_ok w'" using ok(1) by (simp add: acceptor_ok_def split: option.splits)
  from acceptor_shutdown_in_poll_ok [OF this] w' ok(2) show ?thesis by (auto simp: sys_of_append)
qed

text \<open>
  The life of a listening socket. Listening either fails, leaving nothing registered and no
  descriptor, or registers the new descriptor for reading; shutting down stops watching it before
  closing it, and shutting down again does nothing.
\<close>

lemma acceptor_lifecycle:
  assumes "acceptor_ok w" and "listen_handle w = invalid_socket"
    and "channels (a_poller w) (lo_socket os) = None" and "interest (a_poller w) (lo_socket os) = None"
  shows "\<exists>b w1 w2. acceptor_listen os w = Inr (b, w1) \<and>
     (if b then listen_handle w1 = lo_socket os \<and> listening w1 \<and> epoll_watched (a_poller w1) (lo_socket os) = kRead
      else listen_handle w1 = invalid_socket \<and> a_poller w1 = a_poller w) \<and>
     acceptor_shutdown_in_poll w1 = Inr w2 \<and> listen_handle w2 = invalid_socket \<and> \<not> listening w2 \<and> a_channel w2 = None \<and>
     (b \<longrightarrow> epoll_watched (a_poller w2) (lo_socket os) = 0 \<and> a_log w2 = a_log w1 @ [A_sys (Sys_close (lo_socket os))]) \<and>
     acceptor_shutdown_in_poll w2 = Inr w2"
proof -
  from acceptor_listen_ok [OF assms] obtain b w1 where
    1: "acceptor_listen os w = Inr (b, w1)" "acceptor_ok w1"
       "b \<longrightarrow> listen_handle w1 = lo_socket os \<and> lo_socket os \<noteq> invalid_socket \<and> listening w1 \<and>
          epoll_watched (a_poller w1) (lo_socket os) = kRead"
       "\<not> b \<longrightarrow> listen_handle w1 = invalid_socket \<and> a_channel w1 = a_channel w \<and> a_poller w1 = a_poller w" by blast
  from acceptor_shutdown_in_poll_ok [OF 1(2)] obtain w2 where
    2: "acceptor_shutdown_in_poll w1 = Inr w2" "a_channel w2 = None" "listen_handle w2 = invalid_socket" "\<not> listening w2"
       "a_log w2 = a_log w1 @ (if listen_handle w1 = invalid_socket then [] else [A_sys (Sys_close (listen_handle w1))])"
       "listen_handle w1 \<noteq> invalid_socket \<longrightarrow> epoll_watched (a_poller w2) (listen_handle w1) = 0" by blast
  have "w2\<lparr>listening := False\<rparr> = w2" by (rule aw.equality) (simp_all add: 2(4))
  with 2(2,3) have "acceptor_shutdown_in_poll w2 = Inr w2"
    by (simp add: acceptor_shutdown_in_poll_def close_listen_handle_def)
  with 1 2 show ?thesis by (intro exI [of _ b] exI [of _ w1] exI [of _ w2]) auto
qed

lemma sample_acceptor_ok: "acceptor_ok sample_acceptor"
  by (simp add: acceptor_ok_def sample_acceptor_simps sample_poller_ok)

definition working_listen_os :: listen_os where
  "working_listen_os = sample_listen_os\<lparr>lo_bind := True\<rparr>"

lemma sample_listens: "acceptor_listen working_listen_os sample_acceptor \<noteq> Inr (False, w)"
proof -
  have "listen working_listen_os (local_addr sample_acceptor) st opt \<noteq> (invalid_socket, tr)" for st opt tr
    by (simp add: listen_def Let_def sample_acceptor_simps sample_listen_os_def working_listen_os_def)
  then show ?thesis
    by (auto simp: acceptor_listen_def sample_acceptor_simps andthen_eq_Inr Let_def split: prod.splits)
qed

end
