(* ===== verification/Poll_Round.thy ===== *)
theory Poll_Round
  imports Acceptor
begin

text \<open>
  One round of an event poll on its own thread: \<open>IOEventPoll::poll_\<close> of cxpnet/io_event_poll.cc with
  \<open>Channel::handle_event\<close> inlined, and the construction and destruction of a poll.

  The theory \<open>Event_Poll\<close> looks at the loop from other threads; here it is what the round does to the
  channels. \<open>active_channels_\<close> holds plain pointers, and \<open>handle_event_\<close> reads its channel again after
  the read callback has returned; a callback can destroy channels. A channel is a number, \<open>live\<close> tells
  which channel objects exist, and a use of a destroyed one is the failure \<open>Dangling\<close>.
\<close>

section \<open>A round\<close>

text \<open>What the round calls: the callbacks of channels, the queued closures, the error callback.\<close>

record ('s, 'f, 't) poll_env =
  live :: "'s \<Rightarrow> nat \<Rightarrow> 'f channel option"
  owner_alive :: "'s \<Rightarrow> nat \<Rightarrow> bool"
  so_error :: "'s \<Rightarrow> nat \<Rightarrow> int"
  run_call :: "'f dispatch \<Rightarrow> 's \<Rightarrow> 's result"
  take_tasks :: "'s \<Rightarrow> 't list \<times> 's"
  run_task :: "'t \<Rightarrow> 's \<Rightarrow> 's result"
  on_err_func :: "(int \<Rightarrow> 's \<Rightarrow> 's result) option"

definition call_opt :: "('s, 'f, 't) poll_env \<Rightarrow> ('f \<Rightarrow> 'f dispatch) \<Rightarrow> 'f option \<Rightarrow> 's \<Rightarrow> 's result" where
  "call_opt env mk f s = (case f of None \<Rightarrow> Inr s | Some g \<Rightarrow> run_call env (mk g) s)"

text \<open>Reading a field of channel \<open>i\<close>.\<close>

definition with_channel :: "('s, 'f, 't) poll_env \<Rightarrow> nat \<Rightarrow> ('f channel \<Rightarrow> 's \<Rightarrow> 's result) \<Rightarrow> 's \<Rightarrow> 's result" where
  "with_channel env i k s = (case live env s i of None \<Rightarrow> Inl Dangling | Some ch \<Rightarrow> k ch s)"

definition channel_event :: "('s, 'f, 't) poll_env \<Rightarrow> nat \<Rightarrow> 's \<Rightarrow> 's result" where
  "channel_event env i = with_channel env i (\<lambda>ch s.
     let read = (if ch_result ch AND kRead \<noteq> 0 then call_opt env Call (ch_on_read ch) s else Inr s) in
     if ch_result ch AND (kError OR kHup) \<noteq> 0 then
       (let err = (if ch_result ch AND kError \<noteq> 0 then so_error env s i else 0)
        in andthen read (with_channel env i (\<lambda>ch1. call_opt env (\<lambda>f. Call_err f err) (ch_on_close ch1))))
     else
       andthen read (with_channel env i (\<lambda>ch1 s1.
         if ch_result ch1 AND kWrite \<noteq> 0 then call_opt env Call (ch_on_write ch1) s1 else Inr s1)))"

definition run_channel :: "('s, 'f, 't) poll_env \<Rightarrow> nat \<Rightarrow> 's \<Rightarrow> 's result" where
  "run_channel env i = with_channel env i (\<lambda>ch s.
     if ch_tied ch then (if owner_alive env s i then channel_event env i s else Inr s)
     else channel_event env i s)"

fun run_active :: "('s, 'f, 't) poll_env \<Rightarrow> nat list \<Rightarrow> 's \<Rightarrow> 's result" where
  "run_active env [] s = Inr s"
| "run_active env (i # is) s = andthen (run_channel env i s) (run_active env is)"

fun run_tasks :: "('s, 'f, 't) poll_env \<Rightarrow> 't list \<Rightarrow> 's \<Rightarrow> 's result" where
  "run_tasks env [] s = Inr s"
| "run_tasks env (t # ts) s = andthen (run_task env t s) (run_tasks env ts)"

text \<open>\<open>res\<close> is what the poller's wait returned, \<open>errno\<close> the error number if negative, \<open>active\<close> the channels it found.\<close>

definition poll_round :: "('s, 'f, 't) poll_env \<Rightarrow> int \<Rightarrow> int \<Rightarrow> nat list \<Rightarrow> 's \<Rightarrow> 's result" where
  "poll_round env res errno active s =
     (let err = (if res < 0 then errno else 0) in
      andthen (run_active env active s) (\<lambda>s1.
      case take_tasks env s1 of (ts, s2) \<Rightarrow>
      andthen (run_tasks env ts s2) (\<lambda>s3.
        if err \<noteq> 0 \<and> err \<noteq> EINTR then (case on_err_func env of None \<Rightarrow> Inr s3 | Some f \<Rightarrow> f err s3)
        else Inr s3)))"

section \<open>Making and destroying a poll\<close>

datatype wakeup_fn = Fn_wakeup

record io_poll =
  io_poller :: epoll_poller
  wakeup_handle :: fd
  wakeup_read_fd :: fd
  wakeup_channel :: "wakeup_fn channel option"
  io_shut :: bool

text \<open>\<open>h\<close> is the eventfd created, \<open>this\<close> the address of its channel.\<close>

definition IOEventPoll_new :: "(ctl_call list \<Rightarrow> int) \<Rightarrow> nat \<Rightarrow> fd \<Rightarrow> io_poll result" where
  "IOEventPoll_new answer this h =
     andthen (add_read_event update_channel (EpollPoller_new answer) ((Channel_new this h)\<lparr>ch_on_read := Some Fn_wakeup\<rparr>))
       (\<lambda>(p, ch). Inr \<lparr>io_poller = p, wakeup_handle = h, wakeup_read_fd = h, wakeup_channel = Some ch, io_shut = False\<rparr>)"

text \<open>\<open>shutdown\<close> here is its flag; the timers and the notification are in \<open>Timer\<close> and \<open>Event_Poll\<close>.\<close>

definition io_shutdown :: "io_poll \<Rightarrow> io_poll" where
  "io_shutdown q = (if io_shut q then q else q\<lparr>io_shut := True\<rparr>)"

definition IOEventPoll_delete :: "io_poll \<Rightarrow> (syscall list \<times> io_poll) result" where
  "IOEventPoll_delete q =
     (let q1 = io_shutdown q in
      andthen (case wakeup_channel q1 of None \<Rightarrow> Inr q1
         | Some ch \<Rightarrow>
             andthen (clear_event update_channel (io_poller q1) ch) (\<lambda>(p1, ch1).
             andthen (remove_channel p1 ch1) (\<lambda>(p2, ch2). Inr (q1\<lparr>io_poller := p2, wakeup_channel := None\<rparr>))))
        (\<lambda>q2. Inr (if wakeup_handle q2 \<ge> 0 then [Sys_close (wakeup_handle q2)] else [],
                   q2\<lparr>wakeup_handle := invalid_socket, wakeup_read_fd := invalid_socket\<rparr>)))"

lemma io_poll_lifecycle:
  assumes "epoll_documented answer" and "0 \<le> h"
  shows "\<exists>q q'. IOEventPoll_new answer this h = Inr q \<and> epoll_watched (io_poller q) h = kRead \<and>
     IOEventPoll_delete q = Inr ([Sys_close h], q') \<and> epoll_watched (io_poller q') h = 0 \<and> wakeup_channel q' = None \<and> io_shut q'"
proof -
  let ?ch = "(Channel_new this h)\<lparr>ch_on_read := Some Fn_wakeup\<rparr>" and ?p = "EpollPoller_new answer"
  have "epoll_chan_ok ?p (Channel_new this h :: wakeup_fn channel)"
    by (rule new_channel_ok) (use assms(1) in \<open>simp_all add: epoll_ok_def EpollPoller_new_def interest_def\<close>)
  then have "epoll_chan_ok ?p ?ch" by (simp add: chan_ok_def epoll_synced_def)
  from ep.add_read_event_ok [OF this] obtain p ch where
    p: "add_read_event update_channel ?p ?ch = Inr (p, ch)" "epoll_chan_ok p ch"
       "ch = ?ch\<lparr>ch_events := ch_events ?ch OR kRead, ch_registered := True\<rparr>" by blast
  have w: "epoll_watched p h = kRead" "ch_handle ch = h" using p(2) by (simp_all add: chan_ok_def p(3) Channel_new_def)
  from ep.clear_event_ok [OF p(2)] obtain p' ch' where
    "clear_event update_channel p ch = Inr (p', ch')" "remove_channel p' ch' = Inr (p', ch')" "epoll_watched p' (ch_handle ch) = 0" by blast
  with p(1) w assms(2) show ?thesis by (simp add: IOEventPoll_new_def IOEventPoll_delete_def io_shutdown_def)
qed

section \<open>Rounds in which callbacks leave the channels alone\<close>













section \<open>Properties\<close>




text \<open>Callbacks may destroy channels only after the round, as a connection does by posting the deletion.\<close>

definition defers_deletion :: "('s, 'f, 't) poll_env \<Rightarrow> bool" where
  "defers_deletion env \<longleftrightarrow> (\<forall>d s. run_call env d s \<noteq> Inl Dangling \<and>
     (\<forall>s' i. run_call env d s = Inr s' \<longrightarrow> live env s i \<noteq> None \<longrightarrow> live env s' i \<noteq> None))"

definition good_step :: "('s, 'f, 't) poll_env \<Rightarrow> 's \<Rightarrow> 's result \<Rightarrow> bool" where
  "good_step env s m \<longleftrightarrow> m \<noteq> Inl Dangling \<and> (\<forall>s'. m = Inr s' \<longrightarrow> (\<forall>i. live env s i \<noteq> None \<longrightarrow> live env s' i \<noteq> None))"

lemma good_andthen:
  assumes "good_step env s m" and "\<And>s'. m = Inr s' \<Longrightarrow> good_step env s' (k s')"
  shows "good_step env s (andthen m k)"
  using assms by (cases m) (auto simp: good_step_def)

lemma good_call_opt: "defers_deletion env \<Longrightarrow> good_step env s (call_opt env mk f s)"
  by (auto simp: good_step_def call_opt_def defers_deletion_def split: option.split)

lemma good_refl: "good_step env s (Inr s)"
  by (simp add: good_step_def)

lemma good_again:
  assumes "good_step env s m" and "live env s i \<noteq> None" and "\<And>ch s'. good_step env s' (k ch s')"
  shows "good_step env s (andthen m (with_channel env i k))"
proof (rule good_andthen [OF assms(1)])
  fix s'
  assume "m = Inr s'"
  with assms(1,2) obtain ch where "live env s' i = Some ch" by (auto simp: good_step_def)
  then show "good_step env s' (with_channel env i k s')" using assms(3) by (simp add: with_channel_def)
qed

lemma good_run_channel:
  assumes "defers_deletion env" and "live env s i \<noteq> None"
  shows "good_step env s (run_channel env i s)"
proof -
  from assms(2) obtain ch where ch: "live env s i = Some ch" by blast
  let ?read = "if ch_result ch AND kRead \<noteq> 0 then call_opt env Call (ch_on_read ch) s else Inr s"
  have rd: "good_step env s ?read" using good_call_opt [OF assms(1)] good_refl [of env s] by simp
  have "good_step env s (andthen ?read (with_channel env i k))" if "\<And>ch s'. good_step env s' (k ch s')" for k
    by (rule good_again [OF rd assms(2) that])
  then have "good_step env s (channel_event env i s)"
    using good_call_opt [OF assms(1)] good_refl [of env]
    unfolding channel_event_def with_channel_def [of env i _ s] ch option.case Let_def by presburger
  then show ?thesis by (simp add: run_channel_def with_channel_def [of env i _ s] ch good_refl)
qed

lemma good_run_active:
  assumes "defers_deletion env" and "\<forall>i\<in>set active. live env s i \<noteq> None"
  shows "good_step env s (run_active env active s)"
  using assms(2)
proof (induction active arbitrary: s)
  case (Cons i active)
  have g: "good_step env s (run_channel env i s)" by (rule good_run_channel) (use assms(1) Cons.prems in auto)
  show ?case unfolding run_active.simps
  proof (rule good_andthen [OF g])
    fix s'
    assume "run_channel env i s = Inr s'"
    with g Cons.prems have "\<forall>i\<in>set active. live env s' i \<noteq> None" by (auto simp: good_step_def)
    then show "good_step env s' (run_active env active s')" by (rule Cons.IH)
  qed
qed (simp add: good_refl)

section \<open>The acceptor's channel\<close>

text \<open>
  The round as the acceptor sees it in one-thread mode, where the user's connection callback runs
  inside the acceptor's read callback. \<open>closes\<close>: the callback shuts the server down, which shuts the
  acceptor down on the spot and destroys its channel.
\<close>

definition acceptor_live :: "aw \<Rightarrow> nat \<Rightarrow> acc_fn channel option" where
  "acceptor_live a i = (case a_channel a of None \<Rightarrow> None | Some ch \<Rightarrow> if ch_id ch = i then Some ch else None)"

definition accept_call :: "accept_answer list \<Rightarrow> bool \<Rightarrow> acc_fn dispatch \<Rightarrow> aw \<Rightarrow> aw result" where
  "accept_call as closes d a =
     (case d of Call Fn_accept \<Rightarrow>
        andthen (handle_read as a) (\<lambda>a1.
          if closes \<and> delivered (a_log a1) \<noteq> delivered (a_log a) then acceptor_shutdown a1 else Inr a1)
      | Call_err f err \<Rightarrow> Inr a)"

definition accept_env :: "accept_answer list \<Rightarrow> bool \<Rightarrow> (aw, acc_fn, unit) poll_env" where
  "accept_env as closes = \<lparr>live = acceptor_live, owner_alive = (\<lambda>_ _. True), so_error = (\<lambda>_ _. 0),
     run_call = accept_call as closes, take_tasks = (\<lambda>a. ([], a)), run_task = (\<lambda>_ a. Inr a), on_err_func = None\<rparr>"

lemma handle_read_drained:
  assumes "\<forall>b\<in>set bs. keeps_accepting b" and "listen_handle a \<noteq> invalid_socket" and "has_conn_func a"
  shows "\<exists>a1. handle_read (bs @ [Accept_failed EAGAIN]) a = Inr a1 \<and> a_channel a1 = a_channel a \<and> a_poller a1 = a_poller a \<and>
     listen_handle a1 = listen_handle a \<and> has_poll a1 = has_poll a \<and> a_in_poll a1 = a_in_poll a \<and>
     delivered (a_log a1) = delivered (a_log a) @ accepted_handles a @ accepted bs"
proof -
  have "accept (listen_handle a) (bs @ [Accept_failed EAGAIN]) (accepted_handles a) = Some (0, accepted_handles a @ accepted bs)"
    using accept_loop_continue [OF assms(1)] assms(2) by (simp add: accept_def handle_error_action_def)
  then show ?thesis using assms(3) by (simp add: handle_read_def Let_def a_emit_def delivered_append)
qed

text \<open>
  C32. Shutting the server down in the connection callback of a server in one-thread mode uses a
  destroyed channel. When the listening socket is readable and a connection is delivered, the
  callback that shuts down destroys the acceptor's channel while its \<open>handle_event_\<close> is running, and
  \<open>handle_event_\<close> then reads the channel again. Without that call the same round completes.
\<close>

theorem shutdown_in_conn_callback_dangles:
  assumes ok: "acceptor_ok a" and ch: "a_channel a = Some ch" "ch_result ch = kRead" "ch_on_read ch = Some Fn_accept" "\<not> ch_tied ch"
    and a: "has_conn_func a" "has_poll a" "a_in_poll a"
    and bs: "\<forall>b\<in>set bs. keeps_accepting b" "accepted bs \<noteq> []"
  shows "(\<exists>a'. poll_round (accept_env (bs @ [Accept_failed EAGAIN]) False) 1 0 [ch_id ch] a = Inr a') \<and>
     poll_round (accept_env (bs @ [Accept_failed EAGAIN]) True) 1 0 [ch_id ch] a = Inl Dangling"
proof -
  let ?as = "bs @ [Accept_failed EAGAIN]"
  have l: "listen_handle a \<noteq> invalid_socket" using ok ch(1) by (simp add: acceptor_ok_def)
  from handle_read_drained [OF bs(1) l a(1)] obtain a1 where
    a1: "handle_read ?as a = Inr a1" "a_channel a1 = Some ch" "a_poller a1 = a_poller a" "listen_handle a1 = listen_handle a"
      "has_poll a1" "a_in_poll a1" "delivered (a_log a1) \<noteq> delivered (a_log a)" using ch(1) a bs(2) by auto
  have "acceptor_ok a1" using ok ch(1) a1(2-4) by (simp add: acceptor_ok_def)
  from acceptor_shutdown_in_poll_ok [OF this] obtain a2 where
    a2: "acceptor_shutdown_in_poll a1 = Inr a2" "a_channel a2 = None" by blast
  then have c: "accept_call ?as True (Call Fn_accept) a = Inr a2" "accept_call ?as False (Call Fn_accept) a = Inr a1"
    using a1 by (simp_all add: accept_call_def acceptor_shutdown_def)
  have flags: "kRead AND (kError OR kHup) = 0" "kRead AND kRead \<noteq> 0" "kRead AND kWrite = 0" by (simp_all add: event_flags)
  have ev: "channel_event (accept_env ?as b) (ch_id ch) a =
      andthen (accept_call ?as b (Call Fn_accept) a) (with_channel (accept_env ?as b) (ch_id ch) (\<lambda>ch1 s1.
         if ch_result ch1 AND kWrite \<noteq> 0 then call_opt (accept_env ?as b) Call (ch_on_write ch1) s1 else Inr s1))" for b
    unfolding channel_event_def with_channel_def [of _ _ _ a]
    using ch flags by (simp add: acceptor_live_def call_opt_def accept_env_def)
  have rc: "run_channel (accept_env ?as b) (ch_id ch) a = channel_event (accept_env ?as b) (ch_id ch) a" for b
    using ch by (simp add: run_channel_def with_channel_def accept_env_def acceptor_live_def)
  have "run_channel (accept_env ?as True) (ch_id ch) a = Inl Dangling"
    unfolding rc ev c andthen_Inr using a2(2) by (simp add: with_channel_def accept_env_def acceptor_live_def)
  moreover have "run_channel (accept_env ?as False) (ch_id ch) a = Inr a1"
    unfolding rc ev c andthen_Inr using a1(2) ch(2) flags by (simp add: with_channel_def accept_env_def acceptor_live_def)
  ultimately show ?thesis by (simp add: poll_round_def accept_env_def)
qed

theorem shutdown_in_conn_callback_dangles_witness:
  "\<exists>a i. poll_round (accept_env ([Accepted 7 zero_sockaddr] @ [Accept_failed EAGAIN]) True) 1 0 [i] a = Inl Dangling"
proof -
  let ?c = "(Channel_new 1 3)\<lparr>ch_on_read := Some Fn_accept\<rparr>"
  have "epoll_chan_ok sample_poller (Channel_new 1 3 :: acc_fn channel)" by (rule new_channel_ok) (rule sample_poller_ok)+
  then have "epoll_chan_ok sample_poller ?c" by (simp add: chan_ok_def epoll_synced_def)
  from ep.add_read_event_ok [OF this] obtain p ch where
    p: "epoll_chan_ok p ch" "ch = ?c\<lparr>ch_events := ch_events ?c OR kRead, ch_registered := True\<rparr>" by blast
  let ?ch = "ch\<lparr>ch_result := kRead\<rparr>"
  let ?a = "sample_acceptor\<lparr>listen_handle := 3, a_channel := Some ?ch, a_poller := p\<rparr>"
  have c: "ch_handle ch = 3" "\<not> ch_tied ch" "ch_on_read ch = Some Fn_accept" by (simp_all add: p(2) Channel_new_def)
  have "epoll_chan_ok p ?ch" using p(1) by (simp add: chan_ok_def epoll_synced_def split: if_splits)
  then have "acceptor_ok ?a" by (simp add: acceptor_ok_def c chan_ok_def)
  moreover have "has_poll sample_acceptor" "a_in_poll sample_acceptor" by (simp_all add: sample_acceptor_def acceptor.defs aw.defs)
  ultimately show ?thesis
    using shutdown_in_conn_callback_dangles [of ?a ?ch "[Accepted 7 zero_sockaddr]"] c sample_acceptor_simps(2) by auto
qed

end
