(* ===== verification/Kqueue.thy ===== *)
theory Kqueue
  imports Channel
begin

text \<open>
  The kqueue implementation of the poller, used on macOS: cxpnet/poller_for_kqueue.h and .cc.

  As for epoll, the kernel is the history of the changes submitted with \<open>kevent\<close> and a function that
  gives its answer to the last one; the filters it watches are what the history says they are. The
  poller keeps its own record of the events registered per descriptor and submits only differences.
  It provides the same contract to a channel as the epoll poller.
\<close>

section \<open>State\<close>

datatype kfilter = EVFILT_READ | EVFILT_WRITE

datatype kchange = EV_ADD_ENABLE fd kfilter | EV_DELETE fd kfilter

record kevent =
  ident :: fd
  kfilter :: kfilter
  kflags :: uint16

record kqueue_poller =
  kq_channels :: "fd \<rightharpoonup> nat"
  registered_events :: "fd \<rightharpoonup> cflags"
  change_log :: "kchange list"
  change_answer :: "kchange list \<Rightarrow> int"
  kq_events_size :: nat

definition KqueuePoller_new :: "(kchange list \<Rightarrow> int) \<Rightarrow> kqueue_poller" where
  "KqueuePoller_new answer = \<lparr>kq_channels = Map.empty, registered_events = Map.empty, change_log = [],
     change_answer = answer, kq_events_size = 64\<rparr>"

definition kq_has_channel :: "kqueue_poller \<Rightarrow> fd \<Rightarrow> bool" where
  "kq_has_channel p handle \<longleftrightarrow> kq_channels p handle \<noteq> None"

section \<open>Changing the interest\<close>

text \<open>\<open>register_read\<close> and \<open>register_write\<close>; \<open>unregister_read\<close> and \<open>unregister_write\<close> ignore the answer.\<close>

definition register_filter :: "kfilter \<Rightarrow> fd \<Rightarrow> kqueue_poller \<Rightarrow> kqueue_poller result" where
  "register_filter k f p =
     (let p' = p\<lparr>change_log := change_log p @ [EV_ADD_ENABLE f k]\<rparr>
      in if change_answer p (change_log p') < 0 then Inl (Ensure_failed ''kqueue register failed'') else Inr p')"

definition unregister_filter :: "kfilter \<Rightarrow> fd \<Rightarrow> kqueue_poller \<Rightarrow> kqueue_poller" where
  "unregister_filter k f p = p\<lparr>change_log := change_log p @ [EV_DELETE f k]\<rparr>"

text \<open>The change of one filter, from the events registered before to those wanted now.\<close>

definition change_filter :: "kfilter \<Rightarrow> cflags \<Rightarrow> fd \<Rightarrow> cflags \<Rightarrow> cflags \<Rightarrow> kqueue_poller \<Rightarrow> kqueue_poller result" where
  "change_filter k flag f events old_events p =
     (if events AND flag \<noteq> 0 \<and> old_events AND flag = 0 then register_filter k f p
      else if events AND flag = 0 \<and> old_events AND flag \<noteq> 0 then Inr (unregister_filter k f p)
      else Inr p)"

text \<open>\<open>registered_events_[fd]\<close> makes an entry 0 where there is none.\<close>

definition events_before :: "kqueue_poller \<Rightarrow> fd \<Rightarrow> cflags" where
  "events_before p f = (case registered_events p f of None \<Rightarrow> 0 | Some e \<Rightarrow> e)"

definition kq_update_channel :: "(kqueue_poller, 'f) poller_call" where
  "kq_update_channel p ch =
     (let f = ch_handle ch; events = ch_events ch; old_events = events_before p f;
          p0 = p\<lparr>registered_events := (registered_events p)(f \<mapsto> old_events)\<rparr>;
          is_new = (\<not> kq_has_channel p f)
      in andthen (change_filter EVFILT_READ kRead f events old_events p0) (\<lambda>p1.
         andthen (change_filter EVFILT_WRITE kWrite f events old_events p1) (\<lambda>p2.
           if events = 0 then
             (if kq_has_channel p2 f
              then Inr (p2\<lparr>kq_channels := (kq_channels p2)(f := None),
                           registered_events := (registered_events p2)(f := None)\<rparr>, ch\<lparr>ch_registered := False\<rparr>)
              else Inr (p2, ch))
           else
             let (p3, ch') = (if is_new then (p2\<lparr>kq_channels := (kq_channels p2)(f \<mapsto> ch_id ch)\<rparr>, ch\<lparr>ch_registered := True\<rparr>)
                              else (p2, ch))
             in Inr (p3\<lparr>registered_events := (registered_events p3)(f \<mapsto> events)\<rparr>, ch'))))"

definition kq_remove_channel :: "(kqueue_poller, 'f) poller_call" where
  "kq_remove_channel p ch =
     (let f = ch_handle ch in
      if \<not> kq_has_channel p f then Inr (p, ch)
      else
        let p1 = (case registered_events p f of None \<Rightarrow> p
                  | Some old_events \<Rightarrow>
                      let pr = (if old_events AND kRead \<noteq> 0 then unregister_filter EVFILT_READ f p else p);
                          pw = (if old_events AND kWrite \<noteq> 0 then unregister_filter EVFILT_WRITE f pr else pr)
                      in pw\<lparr>registered_events := (registered_events pw)(f := None)\<rparr>)
        in Inr (p1\<lparr>kq_channels := (kq_channels p1)(f := None)\<rparr>, ch\<lparr>ch_registered := False\<rparr>))"

text \<open>
  \<open>shutdown\<close> removes the first channel until there is none; \<open>fs\<close> are the descriptors in the order in
  which \<open>channels_.begin()\<close> yields them. \<open>chans\<close> are the channel objects.
\<close>

fun kq_remove_all :: "fd list \<Rightarrow> kqueue_poller \<Rightarrow> (nat \<Rightarrow> 'f channel) \<Rightarrow> (kqueue_poller \<times> (nat \<Rightarrow> 'f channel)) result" where
  "kq_remove_all [] p cs = Inr (p, cs)"
| "kq_remove_all (f # fs) p cs =
     (case kq_channels p f of None \<Rightarrow> kq_remove_all fs p cs
      | Some i \<Rightarrow> andthen (kq_remove_channel p (cs i)) (\<lambda>(p', c).
          if kq_has_channel p' f then Inl Never_returns else kq_remove_all fs p' (cs(i := c))))"

definition kq_shutdown :: "fd list \<Rightarrow> kqueue_poller \<Rightarrow> (nat \<Rightarrow> 'f channel) \<Rightarrow> (kqueue_poller \<times> (nat \<Rightarrow> 'f channel)) result" where
  "kq_shutdown fs p cs = andthen (kq_remove_all fs p cs) (\<lambda>(p', cs'). Inr (p'\<lparr>registered_events := Map.empty\<rparr>, cs'))"

section \<open>Waiting\<close>

definition EV_ERROR :: uint16 where "EV_ERROR = 0x4000"
definition EV_EOF :: uint16 where "EV_EOF = 0x8000"

definition from_kqueue_events :: "kevent \<Rightarrow> cflags" where
  "from_kqueue_events ev =
     (if kfilter ev = EVFILT_READ then kRead else 0) OR
     (if kfilter ev = EVFILT_WRITE then kWrite else 0) OR
     (if kflags ev AND EV_ERROR \<noteq> 0 then kError else 0) OR
     (if kflags ev AND EV_EOF \<noteq> 0 then kHup else 0)"

text \<open>\<open>fd_events[fd] |= revents\<close> on an association list, in the order of first occurrence.\<close>

fun merge_event :: "fd \<Rightarrow> cflags \<Rightarrow> (fd \<times> cflags) list \<Rightarrow> (fd \<times> cflags) list" where
  "merge_event f r [] = [(f, 0 OR r)]"
| "merge_event f r ((g, e) # m) = (if g = f then (g, e OR r) # m else (g, e) # merge_event f r m)"

definition merge_events :: "kqueue_poller \<Rightarrow> kevent list \<Rightarrow> (fd \<times> cflags) list" where
  "merge_events p evs =
     fold (\<lambda>ev m. if kq_channels p (ident ev) = None then m else merge_event (ident ev) (from_kqueue_events ev) m) evs []"

definition kq_fill_active_channels :: "kqueue_poller \<Rightarrow> (nat \<Rightarrow> 'f channel) \<Rightarrow> kevent list \<Rightarrow>
    (nat \<Rightarrow> 'f channel) \<times> nat list" where
  "kq_fill_active_channels p chans evs =
     fold (\<lambda>(f, r) (cs, active).
       case kq_channels p f of None \<Rightarrow> (cs, active)
       | Some i \<Rightarrow> (cs(i := (cs i)\<lparr>ch_result := r\<rparr>), active @ [i])) (merge_events p evs) (chans, [])"

text \<open>The timeout in seconds and nanoseconds; \<open>None\<close> is the null pointer, which waits without limit.\<close>

definition kq_timespec :: "int \<Rightarrow> (int \<times> int) option" where
  "kq_timespec timeout = (if timeout \<ge> 0 then Some (timeout div 1000, (timeout mod 1000) * 1000000) else None)"

definition kq_poll :: "bool \<Rightarrow> int \<Rightarrow> kevent list \<Rightarrow> kqueue_poller \<Rightarrow> (nat \<Rightarrow> 'f channel) \<Rightarrow>
    (int \<times> kqueue_poller \<times> (nat \<Rightarrow> 'f channel) \<times> nat list) result" where
  "kq_poll in_thread n evs p chans =
     ensure in_thread ''Unsafe cross-thread operations''
     (if n > 0 then
        (case kq_fill_active_channels p chans (take (nat n) evs) of (cs, active) \<Rightarrow>
           Inr (n, (if nat n = kq_events_size p then p\<lparr>kq_events_size := kq_events_size p * 2\<rparr> else p), cs, active))
      else Inr (n, p, chans, []))"

section \<open>The filters the kernel watches\<close>

fun filters_of :: "kchange list \<Rightarrow> (fd \<times> kfilter) set" where
  "filters_of [] = {}"
| "filters_of (EV_ADD_ENABLE f k # cs) = insert (f, k) (filters_of cs)"
| "filters_of (EV_DELETE f k # cs) = filters_of cs - {(f, k)}"

definition filters :: "kqueue_poller \<Rightarrow> (fd \<times> kfilter) set" where
  "filters p = filters_of (rev (change_log p))"

text \<open>kevent(2): adding a filter to a queue succeeds, also when it is already there.\<close>

definition kqueue_documented :: "(kchange list \<Rightarrow> int) \<Rightarrow> bool" where
  "kqueue_documented answer \<longleftrightarrow> (\<forall>log f k. 0 \<le> answer (log @ [EV_ADD_ENABLE f k]))"

definition kq_watched :: "kqueue_poller \<Rightarrow> fd \<Rightarrow> cflags" where
  "kq_watched p f = (if (f, EVFILT_READ) \<in> filters p then kRead else 0) OR (if (f, EVFILT_WRITE) \<in> filters p then kWrite else 0)"

definition kq_synced :: "kqueue_poller \<Rightarrow> 'f channel \<Rightarrow> bool" where
  "kq_synced p ch \<longleftrightarrow> events_before p (ch_handle ch) = kq_watched p (ch_handle ch) \<and>
     (if ch_registered ch then kq_channels p (ch_handle ch) = Some (ch_id ch)
      else kq_channels p (ch_handle ch) = None \<and> kq_watched p (ch_handle ch) = 0)"

definition kq_touches :: "fd \<Rightarrow> kqueue_poller \<Rightarrow> kqueue_poller \<Rightarrow> bool" where
  "kq_touches h p p' \<longleftrightarrow>
     (\<forall>f. f \<noteq> h \<longrightarrow> kq_channels p' f = kq_channels p f \<and> events_before p' f = events_before p f \<and>
        (\<forall>k. (f, k) \<in> filters p' \<longleftrightarrow> (f, k) \<in> filters p))"

definition kq_ok :: "kqueue_poller \<Rightarrow> bool" where
  "kq_ok p \<longleftrightarrow> kqueue_documented (change_answer p)"

section \<open>The contract of a poller\<close>

lemma change_filter_ok:
  assumes "kq_ok p" and "(f, k) \<in> filters p \<longleftrightarrow> old_events AND flag \<noteq> 0"
  shows "\<exists>log. change_filter k flag f events old_events p = Inr (p\<lparr>change_log := log\<rparr>) \<and>
    filters_of (rev log) = (if events AND flag \<noteq> 0 then insert (f, k) (filters p) else filters p - {(f, k)})"
proof -
  consider (add) "events AND flag \<noteq> 0" "old_events AND flag = 0" | (del) "events AND flag = 0" "old_events AND flag \<noteq> 0"
    | (same) "(events AND flag \<noteq> 0) = (old_events AND flag \<noteq> 0)" by blast
  then show ?thesis
  proof cases
    case add
    have "0 \<le> change_answer p (change_log p @ [EV_ADD_ENABLE f k])"
      using assms(1) by (simp add: kq_ok_def kqueue_documented_def)
    with add show ?thesis
      by (intro exI [of _ "change_log p @ [EV_ADD_ENABLE f k]"]) (simp_all add: change_filter_def register_filter_def filters_def Let_def)
  next
    case del
    then show ?thesis
      by (intro exI [of _ "change_log p @ [EV_DELETE f k]"]) (simp_all add: change_filter_def unregister_filter_def filters_def)
  next
    case same
    then have "change_filter k flag f events old_events p = Inr p" by (auto simp: change_filter_def)
    with same assms(2) show ?thesis by (intro exI [of _ "change_log p"]) (auto simp: filters_def)
  qed
qed

lemma watched_tests:
  "kq_watched p f AND kRead \<noteq> 0 \<longleftrightarrow> (f, EVFILT_READ) \<in> filters p"
  "kq_watched p f AND kWrite \<noteq> 0 \<longleftrightarrow> (f, EVFILT_WRITE) \<in> filters p"
  by (simp_all add: kq_watched_def event_flags)

lemma valid_events_bits:
  "valid_events e \<Longrightarrow> (if e AND kRead \<noteq> 0 then kRead else 0) OR (if e AND kWrite \<noteq> 0 then kWrite else 0) = e"
  by (auto simp: valid_events_def event_flags)

lemma kq_changes_ok:
  assumes ok: "kq_ok p" and old: "events_before p f = kq_watched p f" and v: "valid_events e"
  obtains log where
    "andthen (change_filter EVFILT_READ kRead f e (events_before p f) (p\<lparr>registered_events := m\<rparr>)) (\<lambda>p1.
       andthen (change_filter EVFILT_WRITE kWrite f e (events_before p f) p1) k) =
     k (p\<lparr>registered_events := m, change_log := log\<rparr>)"
    and "(f, EVFILT_READ) \<in> filters_of (rev log) \<longleftrightarrow> e AND kRead \<noteq> 0"
    and "(f, EVFILT_WRITE) \<in> filters_of (rev log) \<longleftrightarrow> e AND kWrite \<noteq> 0"
    and "\<And>g k. g \<noteq> f \<Longrightarrow> (g, k) \<in> filters_of (rev log) \<longleftrightarrow> (g, k) \<in> filters p"
proof -
  let ?p = "p\<lparr>registered_events := m\<rparr>"
  have p: "kq_ok ?p" "filters ?p = filters p" using ok by (simp_all add: kq_ok_def filters_def)
  have "(f, EVFILT_READ) \<in> filters ?p \<longleftrightarrow> events_before p f AND kRead \<noteq> 0" by (simp add: p(2) old watched_tests)
  from change_filter_ok [OF p(1) this, of e] obtain l1 where 1: "change_filter EVFILT_READ kRead f e (events_before p f) ?p = Inr (?p\<lparr>change_log := l1\<rparr>)"
    "filters_of (rev l1) = (if e AND kRead \<noteq> 0 then insert (f, EVFILT_READ) (filters p) else filters p - {(f, EVFILT_READ)})"
    unfolding p(2) by blast
  let ?q = "?p\<lparr>change_log := l1\<rparr>"
  have q: "kq_ok ?q" "filters ?q = filters_of (rev l1)" using ok by (simp_all add: kq_ok_def filters_def)
  have "(f, EVFILT_WRITE) \<in> filters ?q \<longleftrightarrow> events_before p f AND kWrite \<noteq> 0" by (simp add: q(2) 1(2) old watched_tests)
  from change_filter_ok [OF q(1) this, of e] obtain l2 where 2: "change_filter EVFILT_WRITE kWrite f e (events_before p f) ?q = Inr (?q\<lparr>change_log := l2\<rparr>)"
    "filters_of (rev l2) = (if e AND kWrite \<noteq> 0 then insert (f, EVFILT_WRITE) (filters_of (rev l1)) else filters_of (rev l1) - {(f, EVFILT_WRITE)})"
    unfolding q(2) by auto
  show ?thesis
    by (rule that [of l2]) (use 1 2 in \<open>auto split: if_splits\<close>)
qed

lemma kq_update_channel_ok:
  assumes ok: "kq_ok p" and s: "kq_synced p ch" and v: "valid_events (ch_events ch)"
  shows "\<exists>p' ch'. kq_update_channel p ch = Inr (p', ch') \<and> kq_ok p' \<and> kq_synced p' ch' \<and>
      ch' = ch\<lparr>ch_registered := (ch_events ch \<noteq> 0)\<rparr> \<and> kq_watched p' (ch_handle ch) = ch_events ch \<and>
      kq_touches (ch_handle ch) p p'"
proof -
  let ?f = "ch_handle ch" and ?e = "ch_events ch"
  let ?m = "(registered_events p)(?f \<mapsto> events_before p ?f)"
  have old: "events_before p ?f = kq_watched p ?f" using s by (simp add: kq_synced_def)
  define k where "k = (\<lambda>p2. if ?e = 0 then
             (if kq_has_channel p2 ?f
              then Inr (p2\<lparr>kq_channels := (kq_channels p2)(?f := None),
                           registered_events := (registered_events p2)(?f := None)\<rparr>, ch\<lparr>ch_registered := False\<rparr>)
              else Inr (p2, ch))
           else
             let (p3, ch') = (if \<not> kq_has_channel p ?f then (p2\<lparr>kq_channels := (kq_channels p2)(?f \<mapsto> ch_id ch)\<rparr>, ch\<lparr>ch_registered := True\<rparr>)
                              else (p2, ch))
             in Inr (p3\<lparr>registered_events := (registered_events p3)(?f \<mapsto> ?e)\<rparr>, ch') :: (kqueue_poller \<times> 'a channel) result)"
  obtain log where u: "kq_update_channel p ch = k (p\<lparr>registered_events := ?m, change_log := log\<rparr>)"
    and fl: "(?f, EVFILT_READ) \<in> filters_of (rev log) \<longleftrightarrow> ?e AND kRead \<noteq> 0"
      "(?f, EVFILT_WRITE) \<in> filters_of (rev log) \<longleftrightarrow> ?e AND kWrite \<noteq> 0"
      "\<And>g k. g \<noteq> ?f \<Longrightarrow> (g, k) \<in> filters_of (rev log) \<longleftrightarrow> (g, k) \<in> filters p"
    using kq_changes_ok [OF ok old v, of ?m k] by (auto simp: kq_update_channel_def Let_def k_def)
  have w: "kq_watched q ?f = ?e" if "change_log q = log" for q
    using that fl(1,2) valid_events_bits [OF v] by (simp add: kq_watched_def filters_def)
  have reg: "ch_registered ch \<longleftrightarrow> kq_has_channel p ?f" using s by (auto simp: kq_synced_def kq_has_channel_def split: if_splits)
  have t: "kq_touches ?f p q" if "change_log q = log" "\<And>g. g \<noteq> ?f \<Longrightarrow> kq_channels q g = kq_channels p g"
    "\<And>g. g \<noteq> ?f \<Longrightarrow> registered_events q g = registered_events p g" for q
    using that fl(3) by (simp add: kq_touches_def filters_def events_before_def)
  show ?thesis
  proof (cases "?e = 0")
    case True
    let ?q = "p\<lparr>registered_events := if kq_has_channel p ?f then (registered_events p)(?f := None) else ?m,
      change_log := log, kq_channels := (kq_channels p)(?f := None)\<rparr>"
    have "kq_channels p = (kq_channels p)(?f := None)" if "\<not> kq_has_channel p ?f"
      using that by (auto simp: kq_has_channel_def)
    then have "kq_update_channel p ch = Inr (?q, ch\<lparr>ch_registered := False\<rparr>)"
      using True reg by (cases "kq_has_channel p ?f") (auto simp: u k_def kq_has_channel_def intro!: channel.equality kqueue_poller.equality)
    moreover have "events_before ?q ?f = 0" using old s True reg by (auto simp: events_before_def kq_synced_def)
    ultimately show ?thesis using True ok w [of ?q] t [of ?q] by (auto simp: kq_ok_def kq_synced_def)
  next
    case False
    let ?q = "p\<lparr>registered_events := (registered_events p)(?f \<mapsto> ?e), change_log := log, kq_channels := (kq_channels p)(?f \<mapsto> ch_id ch)\<rparr>"
    have "kq_channels p = (kq_channels p)(?f \<mapsto> ch_id ch)" if "kq_has_channel p ?f"
      using that s reg by (auto simp: kq_synced_def)
    then have "kq_update_channel p ch = Inr (?q, ch\<lparr>ch_registered := True\<rparr>)"
      using False reg by (cases "kq_has_channel p ?f") (auto simp: u k_def intro!: channel.equality kqueue_poller.equality)
    moreover have "events_before ?q ?f = ?e" by (simp add: events_before_def)
    ultimately show ?thesis using False ok w [of ?q] t [of ?q] by (auto simp: kq_ok_def kq_synced_def)
  qed
qed

interpretation kq: poller_contract kq_update_channel kq_remove_channel kq_watched kq_synced kq_ok kq_touches
proof unfold_locales
  fix p :: kqueue_poller and ch :: "'a channel"
  assume "kq_ok p" "kq_synced p ch" "valid_events (ch_events ch)"
  then show "\<exists>p' ch'. kq_update_channel p ch = Inr (p', ch') \<and> kq_ok p' \<and> kq_synced p' ch' \<and>
      ch' = ch\<lparr>ch_registered := (ch_events ch \<noteq> 0)\<rparr> \<and> kq_watched p' (ch_handle ch) = ch_events ch \<and>
      kq_touches (ch_handle ch) p p'"
    by (rule kq_update_channel_ok)
qed (auto simp: kq_remove_channel_def kq_has_channel_def kq_synced_def kq_touches_def kq_watched_def)

abbreviation kq_chan_ok :: "kqueue_poller \<Rightarrow> 'f channel \<Rightarrow> bool" where
  "kq_chan_ok \<equiv> chan_ok kq_watched kq_synced kq_ok"

text \<open>A shutdown removes every channel.\<close>

lemma kq_remove_channel_effect:
  "kq_has_channel p (ch_handle ch) \<Longrightarrow>
   \<exists>p'. kq_remove_channel p ch = Inr (p', ch\<lparr>ch_registered := False\<rparr>) \<and> kq_channels p' = (kq_channels p)(ch_handle ch := None)"
  by (auto simp: kq_remove_channel_def unregister_filter_def Let_def split: option.split)

lemma kq_remove_all_ok:
  assumes "\<forall>f i. kq_channels p f = Some i \<longrightarrow> ch_handle (cs i) = f"
  shows "\<exists>p' cs'. kq_remove_all fs p cs = Inr (p', cs') \<and> kq_channels p' = kq_channels p |` (- set fs)"
  using assms
proof (induction fs arbitrary: p cs)
  case Nil
  then show ?case by simp
next
  case (Cons f fs)
  show ?case
  proof (cases "kq_channels p f")
    case None
    then have "kq_channels p |` (- set (f # fs)) = kq_channels p |` (- set fs)" by (auto simp: restrict_map_def fun_eq_iff)
    with None Cons show ?thesis by simp
  next
    case (Some i)
    with Cons.prems have h: "ch_handle (cs i) = f" by blast
    from kq_remove_channel_effect [of p "cs i"] Some h obtain p1 where
      1: "kq_remove_channel p (cs i) = Inr (p1, (cs i)\<lparr>ch_registered := False\<rparr>)" "kq_channels p1 = (kq_channels p)(f := None)"
      by (auto simp: kq_has_channel_def)
    have "\<forall>g j. kq_channels p1 g = Some j \<longrightarrow> ch_handle ((cs(i := (cs i)\<lparr>ch_registered := False\<rparr>)) j) = g"
      using Cons.prems 1(2) h by auto
    from Cons.IH [OF this] obtain p' cs' where
      "kq_remove_all fs p1 (cs(i := (cs i)\<lparr>ch_registered := False\<rparr>)) = Inr (p', cs')" "kq_channels p' = kq_channels p1 |` (- set fs)" by blast
    moreover have "kq_channels p1 |` (- set fs) = kq_channels p |` (- set (f # fs))" by (auto simp: 1(2) restrict_map_def fun_eq_iff)
    ultimately show ?thesis using Some 1 by (simp add: kq_has_channel_def)
  qed
qed

lemma kq_shutdown_clears:
  assumes "\<forall>f i. kq_channels p f = Some i \<longrightarrow> ch_handle (cs i) = f" and "dom (kq_channels p) \<subseteq> set fs"
  shows "\<exists>p' cs'. kq_shutdown fs p cs = Inr (p', cs') \<and> kq_channels p' = Map.empty \<and> registered_events p' = Map.empty"
proof -
  from kq_remove_all_ok [OF assms(1)] obtain p' cs' where
    "kq_remove_all fs p cs = Inr (p', cs')" "kq_channels p' = kq_channels p |` (- set fs)" by blast
  moreover from assms(2) have "kq_channels p |` (- set fs) = Map.empty" by (auto simp: restrict_map_def fun_eq_iff dom_def)
  ultimately show ?thesis by (simp add: kq_shutdown_def)
qed

lemma kq_timespec_exact: "kq_timespec t = Some (s, ns) \<Longrightarrow> 0 \<le> ns \<and> ns < 1000000000 \<and> s * 1000000000 + ns = t * 1000000"
  by (auto simp: kq_timespec_def split: if_splits) presburger+

section \<open>Merged events\<close>

definition or_all :: "cflags list \<Rightarrow> cflags" where
  "or_all rs = foldr (OR) rs 0"

lemma or_all_snoc: "or_all (rs @ [r]) = or_all rs OR r"
  by (induction rs) (simp_all add: or_all_def or.assoc)

lemma merge_event_look: "map_of (merge_event f r m) = (map_of m)(f \<mapsto> (case map_of m f of None \<Rightarrow> 0 | Some e \<Rightarrow> e) OR r)"
  by (induction m) auto

lemma merge_event_keys: "fst ` set (merge_event f r m) = insert f (fst ` set m)"
proof (induction m)
  case (Cons x m)
  then show ?case by (cases x) (simp add: insert_commute)
qed simp

lemma merge_event_distinct: "distinct (map fst m) \<Longrightarrow> distinct (map fst (merge_event f r m))"
proof (induction m)
  case (Cons x m)
  then show ?case using merge_event_keys [of f r m] by (cases x) auto
qed simp

lemma merge_events_snoc:
  "merge_events p (evs @ [ev]) =
     (if kq_channels p (ident ev) = None then merge_events p evs
      else merge_event (ident ev) (from_kqueue_events ev) (merge_events p evs))"
  by (simp add: merge_events_def)

lemma merge_events_distinct: "distinct (map fst (merge_events p evs))"
  by (induction evs rule: rev_induct) (simp_all add: merge_events_snoc merge_event_distinct, simp add: merge_events_def)

lemma merge_events_look:
  "map_of (merge_events p evs) f =
     (if kq_channels p f \<noteq> None \<and> f \<in> ident ` set evs
      then Some (or_all (map from_kqueue_events (filter (\<lambda>ev. ident ev = f) evs))) else None)"
proof (induction evs rule: rev_induct)
  case Nil
  then show ?case by (simp add: merge_events_def)
next
  case (snoc ev evs)
  have "filter (\<lambda>ev. ident ev = f) evs = []" if "f \<notin> ident ` set evs" using that by (auto simp: filter_empty_conv)
  moreover have "or_all [] = 0" by (simp add: or_all_def)
  ultimately show ?case using snoc by (cases "f = ident ev") (simp_all add: merge_events_snoc merge_event_look or_all_snoc)
qed

text \<open>The loop over the merged events; \<open>active\<close> holds the objects reported so far.\<close>

lemma fill_loop:
  assumes "distinct (map fst m)" and "\<forall>f i. kq_channels p f = Some i \<longrightarrow> handle_of i = f" and "\<forall>f\<in>fst ` set m. kq_channels p f \<noteq> None"
  shows "fold (\<lambda>(f, r) (cs, active). case kq_channels p f of None \<Rightarrow> (cs, active)
       | Some i \<Rightarrow> (cs(i := (cs i)\<lparr>ch_result := r\<rparr>), active @ [i])) m (cs, active) =
     (\<lambda>i. if kq_channels p (handle_of i) = Some i then (case map_of m (handle_of i) of None \<Rightarrow> cs i | Some r \<Rightarrow> (cs i)\<lparr>ch_result := r\<rparr>)
          else cs i,
      active @ map (the \<circ> kq_channels p \<circ> fst) m)"
  using assms
proof (induction m arbitrary: cs active)
  case Nil
  show ?case by (simp add: fun_eq_iff)
next
  case (Cons x m)
  obtain f r i where x: "x = (f, r)" "kq_channels p f = Some i" using Cons.prems(3) by (cases x) auto
  with Cons.prems(2) have h: "handle_of i = f" by blast
  have "map_of m f = None" using Cons.prems(1) x by (simp add: map_of_eq_None_iff)
  let ?cs = "cs(i := (cs i)\<lparr>ch_result := r\<rparr>)"
  have "(if kq_channels p (handle_of j) = Some j
         then (case map_of m (handle_of j) of None \<Rightarrow> ?cs j | Some r \<Rightarrow> (?cs j)\<lparr>ch_result := r\<rparr>) else ?cs j) =
      (if kq_channels p (handle_of j) = Some j
       then (case map_of (x # m) (handle_of j) of None \<Rightarrow> cs j | Some r \<Rightarrow> (cs j)\<lparr>ch_result := r\<rparr>) else cs j)" for j
  proof (cases "j = i")
    case True
    then show ?thesis using x h \<open>map_of m f = None\<close> by simp
  next
    case False
    then have "handle_of j \<noteq> f" if "kq_channels p (handle_of j) = Some j" using that x(2) by auto
    then show ?thesis using False x(1) by (simp split: option.split)
  qed
  then have eq: "(\<lambda>j. if kq_channels p (handle_of j) = Some j
         then (case map_of m (handle_of j) of None \<Rightarrow> ?cs j | Some r \<Rightarrow> (?cs j)\<lparr>ch_result := r\<rparr>) else ?cs j) =
      (\<lambda>j. if kq_channels p (handle_of j) = Some j
       then (case map_of (x # m) (handle_of j) of None \<Rightarrow> cs j | Some r \<Rightarrow> (cs j)\<lparr>ch_result := r\<rparr>) else cs j)"
    by (rule ext)
  have a: "(active @ [i]) @ map (the \<circ> kq_channels p \<circ> fst) m = active @ map (the \<circ> kq_channels p \<circ> fst) (x # m)"
    by (simp add: x)
  have "distinct (map fst m)" "\<forall>f\<in>fst ` set m. kq_channels p f \<noteq> None" using Cons.prems(1,3) by simp_all
  from Cons.IH [OF this(1) Cons.prems(2) this(2), of ?cs "active @ [i]", unfolded eq a] show ?case
    unfolding fold_simps x(1) prod.case x(2) option.case .
qed

section \<open>Properties\<close>

text \<open>
  C40. On kqueue, too, the interest of a channel and the kernel's filters never diverge. Whatever
  sequence of interest changes is applied to a channel, no call fails an \<open>ENSURE\<close>, the kernel watches
  the descriptor for exactly the events the channel has, the poller lists the channel exactly when
  it has some, and the channels of all other descriptors are unaffected.
\<close>

theorem kqueue_interest_synced:
  assumes "kq_chan_ok p ch"
  shows "\<exists>p' ch'. run_channel_ops kq_update_channel cs p ch = Inr (p', ch') \<and> kq_chan_ok p' ch' \<and>
      ((ch_handle ch, EVFILT_READ) \<in> filters p' \<longleftrightarrow> reading ch') \<and> ((ch_handle ch, EVFILT_WRITE) \<in> filters p' \<longleftrightarrow> writing ch') \<and>
      (kq_channels p' (ch_handle ch) = Some (ch_id ch') \<longleftrightarrow> ch_events ch' \<noteq> 0) \<and>
      (\<forall>other. ch_handle other \<noteq> ch_handle ch \<longrightarrow> kq_chan_ok p other \<longrightarrow> kq_chan_ok p' other)"
proof -
  from kq.run_channel_ops_ok [OF assms, of cs] obtain p' ch' where
    r: "run_channel_ops kq_update_channel cs p ch = Inr (p', ch')" "kq_chan_ok p' ch'" "ch_handle ch' = ch_handle ch"
      "kq_touches (ch_handle ch) p p'" by blast
  from r(2) have "kq_ok p'" by (simp add: chan_ok_def)
  then have frame: "\<forall>other. ch_handle other \<noteq> ch_handle ch \<longrightarrow> kq_chan_ok p other \<longrightarrow> kq_chan_ok p' other"
    using kq.frame [OF r(4)] by blast
  from r(2,3) have w: "kq_watched p' (ch_handle ch) = ch_events ch'"
    "kq_channels p' (ch_handle ch) = Some (ch_id ch') \<longleftrightarrow> ch_events ch' \<noteq> 0"
    by (auto simp: chan_ok_def kq_synced_def split: if_splits)
  then have "(ch_handle ch, EVFILT_READ) \<in> filters p' \<longleftrightarrow> reading ch'" "(ch_handle ch, EVFILT_WRITE) \<in> filters p' \<longleftrightarrow> writing ch'"
    using watched_tests [of p' "ch_handle ch"] by (simp_all add: reading_def writing_def)
  with r(1,2) w frame show ?thesis by blast
qed

definition sample_kqueue :: kqueue_poller where
  "sample_kqueue = KqueuePoller_new (\<lambda>_. 0)"

lemma sample_kqueue_ok: "kq_chan_ok sample_kqueue (Channel_new i h)"
  by (simp add: chan_ok_def kq_ok_def kqueue_documented_def sample_kqueue_def KqueuePoller_new_def kq_synced_def
     kq_watched_def filters_def Channel_new_def events_before_def)

theorem kqueue_interest_synced_witness:
  "\<exists>p' ch'. run_channel_ops kq_update_channel [Op_add_read, Op_add_write, Op_remove_write] sample_kqueue
        (Channel_new 1 7 :: nat channel) = Inr (p', ch') \<and> ((7, EVFILT_READ) \<in> filters p' \<longleftrightarrow> reading ch')"
  using kqueue_interest_synced [OF sample_kqueue_ok, of "[Op_add_read, Op_add_write, Op_remove_write]" 1 7]
  by (auto simp: Channel_new_def)

text \<open>
  What a wait on kqueue reports. kqueue reports the conditions of a descriptor one by one; the
  poller reports each channel with a pending condition once, with the union of its conditions as
  its result events, reports no other channel, and changes nothing else. Conditions of descriptors
  without a channel are dropped.
\<close>

lemma kqueue_merges_events:
  assumes "\<forall>f i. kq_channels p f = Some i \<longrightarrow> ch_handle (chans i) = f"
    and "kq_fill_active_channels p chans evs = (cs, active)"
  shows "distinct active \<and> set active = {i. \<exists>ev. ev \<in> set evs \<and> kq_channels p (ident ev) = Some i} \<and>
     cs i = (if i \<in> set active
       then (chans i)\<lparr>ch_result := or_all (map from_kqueue_events (filter (\<lambda>ev. ident ev = ch_handle (chans i)) evs))\<rparr>
       else chans i)"
proof -
  let ?m = "merge_events p evs"
  note look = merge_events_look [of p evs]
  have keys: "fst ` set ?m = {f. kq_channels p f \<noteq> None \<and> f \<in> ident ` set evs}"
    unfolding dom_map_of_conv_image_fst [symmetric] dom_def look by auto
  have cs: "cs = (\<lambda>i. if kq_channels p (ch_handle (chans i)) = Some i
        then (case map_of ?m (ch_handle (chans i)) of None \<Rightarrow> chans i | Some r \<Rightarrow> (chans i)\<lparr>ch_result := r\<rparr>) else chans i)"
    and act: "active = map (the \<circ> kq_channels p \<circ> fst) ?m"
    using assms(2) fill_loop [OF merge_events_distinct assms(1), of p evs chans "[]"] keys
    by (auto simp: kq_fill_active_channels_def)
  have inj: "inj_on (the \<circ> kq_channels p) (fst ` set ?m)"
    using assms(1) unfolding keys by (auto intro!: inj_onI) (metis option.sel)
  have "distinct (map (the \<circ> kq_channels p) (map fst ?m))"
    by (subst distinct_map, intro conjI merge_events_distinct) (use inj in simp)
  then have d: "distinct active" by (simp add: act comp_assoc)
  have "set active = (the \<circ> kq_channels p) ` (fst ` set ?m)" by (simp add: act image_comp)
  then have sa: "set active = {i. \<exists>ev. ev \<in> set evs \<and> kq_channels p (ident ev) = Some i}"
    unfolding keys by (auto simp: image_iff) (metis option.sel)+
  have "i \<in> set active \<longleftrightarrow> kq_channels p (ch_handle (chans i)) = Some i \<and> ch_handle (chans i) \<in> ident ` set evs"
    using assms(1) unfolding sa by (auto simp: image_iff)
  then have "cs i = (if i \<in> set active
       then (chans i)\<lparr>ch_result := or_all (map from_kqueue_events (filter (\<lambda>ev. ident ev = ch_handle (chans i)) evs))\<rparr>
       else chans i)" unfolding cs look by simp
  with d sa show ?thesis by blast
qed

end
