(* ===== verification/Macos.thy ===== *)
theory Macos
  imports Platform "HOL-Library.Multiset"
begin

text \<open>
  The platform layer on macOS: cxpnet/platform_api_for_macos.cc.

  Its functions have the contracts of the Linux layer (theory \<open>Platform\<close>), some of them word for word.
  What differs: \<open>listen\<close> has no port reuse, \<open>accept\<close> makes each descriptor non-blocking itself, and the
  wakeup is a pipe whose read end is looked up from its write end in a table shared by all polls.
  Error numbers keep the names they have in the source; nothing depends on their values.
\<close>

section \<open>Addresses and errors\<close>

definition macos_handle_error_action :: "int \<Rightarrow> error_action" where
  "macos_handle_error_action err =
     (if err = EAGAIN then kBreak
      else if err = EPROTO \<or> err = ECONNABORTED \<or> err = EINTR then kContinue
      else kClose)"

definition macos_get_sockaddr :: "inet_pton \<Rightarrow> string \<Rightarrow> uint16 \<Rightarrow> protocol_stack \<Rightarrow> sockaddr_storage" where
  "macos_get_sockaddr pton address port stack =
     (let ip = ip_address_type pton address in
      if ip = IP_Invalid then zero_sockaddr
      else
        let af0 = (0 :: int);
            af1 = (if ip = IP_v4 \<and> stack = kIPv4Only then AF_INET else af0);
            af2 = (if ip = IP_v6 \<and> stack = kIPv6Only then AF_INET6 else af1);
            af = (if ip = IP_v6 \<and> stack = kDualStack then AF_INET6 else af2)
        in if af = 0 then zero_sockaddr
           else (case pton af address of
                   None \<Rightarrow> zero_sockaddr\<lparr>sin_port := htons port\<rparr>
                 | Some a \<Rightarrow> \<lparr>ss_family = af, sin_port = htons port, sin_addr = a\<rparr>))"

section \<open>Sockets\<close>

text \<open>\<open>kReusePort\<close> is not looked at. The option \<open>IPV6_V6ONLY\<close> is set to 0, so a failure to set it is final.\<close>

definition macos_listen :: "listen_os \<Rightarrow> sockaddr_storage \<Rightarrow> protocol_stack \<Rightarrow> cflags \<Rightarrow> fd \<times> syscall list" where
  "macos_listen os addr stack option =
     (if ss_family addr = 0 then (invalid_socket, [])
      else
        let h = lo_socket os;
            fail = (\<lambda>tr. (invalid_socket, tr @ [Sys_close h]));
            t0 = [Sys_socket h]
        in if h = invalid_socket then (h, t0)
        else
          let dual = (ss_family addr = AF_INET6 \<and> stack = kDualStack);
              t1 = (if dual then t0 @ [Sys_setsockopt h] else t0)
          in if dual \<and> \<not> lo_v6only os then fail t1
          else
            let ra = (option AND kReuseAddr = kReuseAddr);
                t2 = (if ra then t1 @ [Sys_setsockopt h] else t1)
            in if ra \<and> \<not> lo_reuseaddr os then fail t2
            else
              let t3 = t2 @ [Sys_fcntl h] in
              if \<not> lo_nonblock os then fail t3
              else
                let t4 = t3 @ [Sys_bind h] in
                if \<not> lo_bind os then fail t4
                else
                  let t5 = t4 @ [Sys_listen h] in
                  if \<not> lo_listen os then fail t5 else (h, t5))"

definition macos_connect :: "connect_os \<Rightarrow> sockaddr_storage \<Rightarrow> bool \<Rightarrow> (fd \<times> syscall list) result" where
  "macos_connect os addr async =
     (if ss_family addr = 0 then Inr (-1, [])
      else
        let h = co_socket os; fail = (\<lambda>tr. Inr (invalid_socket, tr @ [Sys_close h])) in
        if h = invalid_socket then Inr (-1, [Sys_socket h])
        else if \<not> co_nonblock os then fail [Sys_socket h, Sys_fcntl h]
        else
          let t1 = [Sys_socket h, Sys_fcntl h, Sys_connect h] in
          if co_connect os = 0 then Inr (h, t1)
          else if co_errno os \<noteq> EINPROGRESS then fail t1
          else if \<not> async then
            (if h \<ge> FD_SETSIZE then Inl Out_of_bounds
             else
               let t2 = t1 @ [Sys_select h] in
               if co_select os \<noteq> 1 then fail t2
               else
                 let t3 = t2 @ [Sys_getsockopt h] in
                 if co_getsockopt os < 0 \<or> co_so_error os \<noteq> 0 then fail t3 else Inr (h, t3))
          else Inr (h, t1))"

text \<open>
  An answer to \<open>accept\<close>: a connection and whether its descriptor could be made non-blocking, or an
  error. The result has the descriptors closed again; \<open>None\<close> means that the call has not returned.
\<close>

datatype mac_answer = Mac_accepted fd sockaddr_storage bool | Mac_failed int

fun macos_accept_loop :: "mac_answer list \<Rightarrow> (fd \<times> sockaddr_storage) list \<Rightarrow> fd list \<Rightarrow>
    (int \<times> (fd \<times> sockaddr_storage) list \<times> fd list) option" where
  "macos_accept_loop [] acc closed = None"
| "macos_accept_loop (Mac_accepted h addr nb # as) acc closed =
     (if \<not> nb then macos_accept_loop as acc (closed @ [h]) else macos_accept_loop as (acc @ [(h, addr)]) closed)"
| "macos_accept_loop (Mac_failed err # as) acc closed =
     (case macos_handle_error_action err of
        kBreak \<Rightarrow> Some (0, acc, closed)
      | kContinue \<Rightarrow> macos_accept_loop as acc closed
      | kClose \<Rightarrow> Some (err, acc, closed))"

definition macos_accept :: "fd \<Rightarrow> mac_answer list \<Rightarrow> (fd \<times> sockaddr_storage) list \<Rightarrow>
    (int \<times> (fd \<times> sockaddr_storage) list \<times> fd list) option" where
  "macos_accept listen_handle as acc =
     (if listen_handle = -1 then Some (-1, acc, []) else macos_accept_loop as acc [])"

section \<open>The wakeup pipe\<close>

text \<open>The table \<open>g_wakeup_fd_map\<close> from write ends to read ends. \<open>pipe\<close> is the answer of pipe(2), read end first.\<close>

type_synonym wakeup_map = "fd \<rightharpoonup> fd"

definition create_wakeup_fd :: "(fd \<times> fd) option \<Rightarrow> wakeup_map \<Rightarrow> fd \<times> syscall list \<times> wakeup_map" where
  "create_wakeup_fd pipe m =
     (case pipe of None \<Rightarrow> (invalid_socket, [], m)
      | Some (r, w) \<Rightarrow> (w, [Sys_fcntl r, Sys_fcntl w], m(w \<mapsto> r)))"

definition get_wakeup_read_fd :: "fd \<Rightarrow> wakeup_map \<Rightarrow> fd" where
  "get_wakeup_read_fd write_fd m = (case m write_fd of Some r \<Rightarrow> r | None \<Rightarrow> invalid_socket)"

definition destroy_wakeup_fd :: "fd \<Rightarrow> wakeup_map \<Rightarrow> syscall list \<times> wakeup_map" where
  "destroy_wakeup_fd write_fd m =
     (if write_fd < 0 then ([], m)
      else
        let (read_fd, m') = (case m write_fd of Some r \<Rightarrow> (r, m(write_fd := None)) | None \<Rightarrow> (invalid_socket, m))
        in ((if read_fd \<ge> 0 then [Sys_close read_fd] else []) @ [Sys_close write_fd], m'))"

text \<open>
  \<open>n\<close> is what \<open>write\<close> returned, \<open>err\<close> the error number if negative. The read loop gets the answers of
  \<open>read\<close> one by one; without a further answer it waits.
\<close>

definition macos_wakeup_write :: "int \<Rightarrow> int \<Rightarrow> unit result" where
  "macos_wakeup_write n err = ensure (\<not> (n < 0 \<and> err \<noteq> EAGAIN)) ''wakeup_write failed'' (Inr ())"

fun macos_wakeup_read :: "(int \<times> int) list \<Rightarrow> unit result" where
  "macos_wakeup_read [] = Inl Never_returns"
| "macos_wakeup_read ((n, err) # as) =
     (if n < 0 then ensure (err = EAGAIN) ''wakeup_read failed'' (Inr ())
      else if n = 0 then Inr ()
      else macos_wakeup_read as)"

text \<open>The answers of a pipe that holds \<open>bytes\<close> bytes to reads of 256 bytes, until it is empty.\<close>

function pipe_reads :: "bool \<Rightarrow> nat \<Rightarrow> (int \<times> int) list" where
  "pipe_reads nonblocking bytes =
     (if bytes = 0 then (if nonblocking then [(-1, EAGAIN)] else [])
      else (int (min 256 bytes), 0) # pipe_reads nonblocking (bytes - min 256 bytes))"
  by pat_completeness auto
termination
  by (relation "measure snd") auto

declare pipe_reads.simps [simp del]

section \<open>Relation to the Linux layer\<close>

lemma macos_as_linux:
  "macos_handle_error_action = handle_error_action" "macos_get_sockaddr = get_sockaddr" "macos_connect = connect"
  by (auto simp: fun_eq_iff macos_handle_error_action_def handle_error_action_def macos_get_sockaddr_def get_sockaddr_def
     macos_connect_def connect_def Let_def)

text \<open>\<open>listen\<close> is the one of Linux when port reuse is not asked for; asked for, it is silently ignored.\<close>

lemma macos_listen_ignores_reuse_port:
  "macos_listen os addr stack option = listen os addr stack (option AND NOT kReusePort)"
proof -
  have "\<not> bit ((option AND NOT kReusePort) AND kReusePort) 0" by (simp add: bit_simps)
  then have "(option AND NOT kReusePort) AND kReusePort \<noteq> kReusePort" by (auto simp: kReusePort_def)
  moreover have "(option AND NOT kReusePort) AND kReuseAddr = option AND kReuseAddr"
    by (simp add: kReusePort_def kReuseAddr_def and.assoc)
  ultimately show ?thesis by (simp add: macos_listen_def listen_def Let_def)
qed

section \<open>Wakeup\<close>

lemma wakeup_round_trip:
  assumes "create_wakeup_fd (Some (r, w)) m = (h, tr, m')" and "0 \<le> r" and "0 \<le> w"
  shows "h = w" and "get_wakeup_read_fd h m' = r" and "k \<noteq> w \<Longrightarrow> get_wakeup_read_fd k m' = get_wakeup_read_fd k m"
    and "destroy_wakeup_fd h m' = ([Sys_close r, Sys_close w], m(w := None))"
  using assms by (auto simp: create_wakeup_fd_def get_wakeup_read_fd_def destroy_wakeup_fd_def)

text \<open>
  Reading empties the pipe and returns. A pipe whose read end could not be made non-blocking, which
  \<open>create_wakeup_fd\<close> does not look at, blocks the reader for good.
\<close>

lemma macos_wakeup_read_drains:
  "macos_wakeup_read (pipe_reads nonblocking bytes) = (if nonblocking then Inr () else Inl Never_returns)"
proof (induction nonblocking bytes rule: pipe_reads.induct)
  case (1 nonblocking bytes)
  show ?case
  proof (cases "bytes = 0")
    case True
    then show ?thesis using pipe_reads.simps [of nonblocking bytes] by simp
  next
    case False
    then have "min 256 bytes \<noteq> 0" by (simp add: min_def)
    then have "macos_wakeup_read (pipe_reads nonblocking bytes) = macos_wakeup_read (pipe_reads nonblocking (bytes - min 256 bytes))"
      using False by (subst pipe_reads.simps) (simp add: min_def)
    with 1 [OF False] show ?thesis by simp
  qed
qed

section \<open>Properties\<close>

fun mac_keeps :: "mac_answer \<Rightarrow> bool" where
  "mac_keeps (Mac_accepted h addr nb) = True"
| "mac_keeps (Mac_failed err) = (macos_handle_error_action err = kContinue)"

text \<open>The descriptors opened, the connections kept and the descriptors closed again.\<close>

fun mac_opened :: "mac_answer list \<Rightarrow> fd list" where
  "mac_opened [] = []"
| "mac_opened (Mac_accepted h addr nb # as) = h # mac_opened as"
| "mac_opened (Mac_failed err # as) = mac_opened as"

fun mac_kept :: "mac_answer list \<Rightarrow> (fd \<times> sockaddr_storage) list" where
  "mac_kept [] = []"
| "mac_kept (Mac_accepted h addr nb # as) = (if nb then (h, addr) # mac_kept as else mac_kept as)"
| "mac_kept (Mac_failed err # as) = mac_kept as"

lemma macos_accept_loop_spec:
  assumes "\<forall>a\<in>set as. mac_keeps a"
  shows "\<exists>cl. (\<forall>bs acc closed. macos_accept_loop (as @ bs) acc closed = macos_accept_loop bs (acc @ mac_kept as) (closed @ cl)) \<and>
     mset (mac_opened as) = mset (map fst (mac_kept as)) + mset cl"
  using assms
proof (induction as)
  case (Cons a as)
  then obtain cl where cl: "\<And>bs acc closed. macos_accept_loop (as @ bs) acc closed = macos_accept_loop bs (acc @ mac_kept as) (closed @ cl)"
    "mset (mac_opened as) = mset (map fst (mac_kept as)) + mset cl" by auto
  show ?case
  proof (cases a)
    case (Mac_accepted h addr nb)
    then show ?thesis using cl by (intro exI [of _ "if nb then cl else h # cl"]) simp
  next
    case (Mac_failed err)
    then show ?thesis using cl Cons.prems by (intro exI [of _ cl]) simp
  qed
qed simp

text \<open>
  Accepting on macOS. The call returns at the first answer that is neither a connection nor a
  retryable error, with 0 for \<open>EAGAIN\<close> and the error number otherwise. The connections that could be
  made non-blocking are appended in order; every other descriptor accepted is closed again, so that
  none is lost.
\<close>

lemma macos_accept_conserves:
  assumes "listen_handle \<noteq> -1" and "\<forall>a\<in>set as. mac_keeps a" and "macos_handle_error_action err \<noteq> kContinue"
  shows "\<exists>closed. macos_accept listen_handle (as @ Mac_failed err # bs) acc =
       Some (if err = EAGAIN then 0 else err, acc @ mac_kept as, closed) \<and>
     mset (mac_opened as) = mset (map fst (mac_kept as)) + mset closed"
proof -
  from macos_accept_loop_spec [OF assms(2)] obtain cl where
    cl: "\<And>bs acc closed. macos_accept_loop (as @ bs) acc closed = macos_accept_loop bs (acc @ mac_kept as) (closed @ cl)"
      "mset (mac_opened as) = mset (map fst (mac_kept as)) + mset cl" by auto
  have "macos_accept_loop (Mac_failed err # bs) xs ys = Some (if err = EAGAIN then 0 else err, xs, ys)" for xs ys
    using assms(3) by (auto simp: macos_handle_error_action_def)
  with cl assms(1) show ?thesis by (simp add: macos_accept_def)
qed

end
