(* ===== verification/Fifo_Spec.thy ===== *)
theory Fifo_Spec
  imports Prelude
begin

text \<open>
  The contract of a byte queue, as the connection code uses one: bytes are put at the
  back, read and dropped at the front. The abstract queue is a list; the locale states
  what an implementation owes to it and proves, once, that any program of puts and gets
  runs on the implementation as it does on the list.
\<close>

section \<open>Programs over a queue and their abstract meaning\<close>

datatype 'x fifo_op = Put "'x list" | Get nat

text \<open>
  The abstract run: \<open>None\<close> when the program breaks the contract (an empty put, a get of more
  than is there, or a put beyond \<open>limit\<close>), otherwise what was read and the final queue.
\<close>

fun fifo_spec :: "nat \<Rightarrow> ('x \<Rightarrow> 'c) \<Rightarrow> 'x fifo_op list \<Rightarrow> 'c list \<Rightarrow> ('c list \<times> 'c list) option" where
  "fifo_spec limit emb [] q = Some ([], q)"
| "fifo_spec limit emb (Put xs # ops) q =
     (if xs = [] \<or> limit < length q + length xs then None
      else fifo_spec limit emb ops (q @ map emb xs))"
| "fifo_spec limit emb (Get n # ops) q =
     (if length q < n then None
      else map_option (\<lambda>(out, q'). (take n q @ out, q')) (fifo_spec limit emb ops (drop n q)))"

text \<open>The same program run on an implementation given by its three operations.\<close>

fun fifo_run :: "('b \<Rightarrow> 'x list \<Rightarrow> 'b result) \<Rightarrow> ('b \<Rightarrow> 'c list result) \<Rightarrow> ('b \<Rightarrow> nat \<Rightarrow> 'b result) \<Rightarrow>
    'x fifo_op list \<Rightarrow> 'b \<Rightarrow> ('c list \<times> 'b) result" where
  "fifo_run put look get [] b = Inr ([], b)"
| "fifo_run put look get (Put xs # ops) b =
     andthen (put b xs) (\<lambda>b'. fifo_run put look get ops b')"
| "fifo_run put look get (Get n # ops) b =
     andthen (look b) (\<lambda>xs.
     andthen (get b n) (\<lambda>b'.
     andthen (fifo_run put look get ops b') (\<lambda>(out, b''). Inr (take n xs @ out, b''))))"

text \<open>In the abstract queue nothing is lost, invented or reordered.\<close>

fun fifo_puts :: "('x \<Rightarrow> 'c) \<Rightarrow> 'x fifo_op list \<Rightarrow> 'c list" where
  "fifo_puts emb [] = []"
| "fifo_puts emb (Put xs # ops) = map emb xs @ fifo_puts emb ops"
| "fifo_puts emb (Get n # ops) = fifo_puts emb ops"

lemma fifo_spec_conserves:
  "fifo_spec limit emb ops q = Some (out, q') \<Longrightarrow> out @ q' = q @ fifo_puts emb ops"
proof (induction limit emb ops q arbitrary: out q' rule: fifo_spec.induct)
  case (3 limit emb n ops q)
  then obtain o2 where o2: "fifo_spec limit emb ops (drop n q) = Some (o2, q')"
    and out: "out = take n q @ o2" and n: "n \<le> length q" by (auto split: if_splits)
  from 3(1) [OF _ o2] n have "o2 @ q' = drop n q @ fifo_puts emb ops" by simp
  then have "take n q @ o2 @ q' = (take n q @ drop n q) @ fifo_puts emb ops"
    by (simp only: append_assoc)
  with out show ?case by simp
qed (auto split: if_splits)

section \<open>The contract\<close>

locale byte_fifo =
  fixes cells :: "'b \<Rightarrow> 'c list"
    and inv :: "'b \<Rightarrow> bool"
    and put :: "'b \<Rightarrow> 'x list \<Rightarrow> 'b result"
    and look :: "'b \<Rightarrow> 'c list result"
    and get :: "'b \<Rightarrow> nat \<Rightarrow> 'b result"
    and emb :: "'x \<Rightarrow> 'c"
    and limit :: nat
  assumes put_ok: "inv b \<Longrightarrow> xs \<noteq> [] \<Longrightarrow> length (cells b) + length xs \<le> limit \<Longrightarrow>
      \<exists>b'. put b xs = Inr b' \<and> inv b' \<and> cells b' = cells b @ map emb xs"
    and look_ok: "inv b \<Longrightarrow> look b = Inr (cells b)"
    and get_ok: "inv b \<Longrightarrow> n \<le> length (cells b) \<Longrightarrow>
      \<exists>b'. get b n = Inr b' \<and> inv b' \<and> cells b' = drop n (cells b)"
begin

lemma run_refines:
  "inv b \<Longrightarrow> fifo_spec limit emb ops (cells b) = Some (out, q) \<Longrightarrow>
     \<exists>b'. fifo_run put look get ops b = Inr (out, b') \<and> inv b' \<and> cells b' = q"
proof (induction ops arbitrary: b out)
  case Nil
  then show ?case by simp
next
  case (Cons op ops)
  show ?case
  proof (cases op)
    case (Put xs)
    with Cons.prems have "xs \<noteq> []" "length (cells b) + length xs \<le> limit"
      and rest: "fifo_spec limit emb ops (cells b @ map emb xs) = Some (out, q)"
      by (auto split: if_splits)
    with put_ok [OF Cons.prems(1)] obtain b' where
      "put b xs = Inr b'" "inv b'" "cells b' = cells b @ map emb xs" by blast
    with Cons.IH [of b' out] rest Put show ?thesis by simp
  next
    case (Get n)
    with Cons.prems obtain o2 where n: "n \<le> length (cells b)"
      and rest: "fifo_spec limit emb ops (drop n (cells b)) = Some (o2, q)"
      and out: "out = take n (cells b) @ o2" by (auto split: if_splits)
    from get_ok [OF Cons.prems(1) n] obtain b' where
      b': "get b n = Inr b'" "inv b'" "cells b' = drop n (cells b)" by blast
    with Cons.IH [of b' o2] rest obtain b'' where
      "fifo_run put look get ops b' = Inr (o2, b'')" "inv b''" "cells b'' = q" by auto
    with b' Get out look_ok [OF Cons.prems(1)] show ?thesis by simp
  qed
qed

text \<open>Draining the queue with one get of everything leaves it empty.\<close>

lemma drain: "inv b \<Longrightarrow> \<exists>b'. get b (length (cells b)) = Inr b' \<and> inv b' \<and> cells b' = []"
  using get_ok [of b "length (cells b)"] by simp

end

end
