(* ===== verification/Buffer.thy ===== *)
theory Buffer
  imports Prelude Fifo_Spec
begin

text \<open>
  The byte buffer of cxpnet/buffer.h: a growable array with a read and a write index.

  The class's four fields are the record \<open>buffer\<close>; the array is a list of cells, \<open>None\<close>
  standing for the null pointer a moved-from buffer holds. Sizes are 64-bit words, so
  every subtraction, doubling and comparison wraps where the C++ one does. The methods
  return a \<open>result\<close>: an \<open>ENSURE\<close> that fails, a refused allocation, an access outside the
  array and the doubling loop that does not stop are values.
\<close>

section \<open>Memory\<close>

text \<open>\<open>new char[n]\<close>: sizes above \<open>PTRDIFF_MAX\<close> are refused, others give indeterminate chars.\<close>

definition new_array :: "size_t \<Rightarrow> cell list result" where
  "new_array n = (if unat n < 2 ^ 63 then Inr (replicate (unat n) None) else Inl Bad_alloc)"

text \<open>Reading \<open>n\<close> chars from offset \<open>off\<close>, writing \<open>xs\<close> at offset \<open>off\<close>.\<close>

definition mem_read :: "cell list option \<Rightarrow> size_t \<Rightarrow> size_t \<Rightarrow> cell list result" where
  "mem_read d off n = (case d of
       None \<Rightarrow> if n = 0 then Inr [] else Inl Null_deref
     | Some a \<Rightarrow> if unat off + unat n \<le> length a
                then Inr (take (unat n) (drop (unat off) a)) else Inl Out_of_bounds)"

definition mem_write :: "cell list option \<Rightarrow> size_t \<Rightarrow> cell list \<Rightarrow> cell list option result" where
  "mem_write d off xs = (case d of
       None \<Rightarrow> if xs = [] then Inr None else Inl Null_deref
     | Some a \<Rightarrow> if unat off + length xs \<le> length a
                then Inr (Some (take (unat off) a @ xs @ drop (unat off + length xs) a))
                else Inl Out_of_bounds)"

section \<open>The class\<close>

record buffer =
  data_ptr :: "cell list option"
  write_index :: size_t
  read_index :: size_t
  capacity :: size_t

definition kInitialCapacity :: size_t where
  "kInitialCapacity = 8192"

definition kShrinkThreshold :: size_t where
  "kShrinkThreshold = 16384"

text \<open>The two constructors: with a capacity, and with the bytes to hold.\<close>

definition Buffer_new :: "size_t \<Rightarrow> buffer result" where
  "Buffer_new initial_capacity =
     (let cap = max initial_capacity kInitialCapacity in
      andthen (new_array cap) (\<lambda>a.
        Inr \<lparr>data_ptr = Some a, write_index = 0, read_index = 0, capacity = cap\<rparr>))"

definition Buffer_from :: "byte list \<Rightarrow> buffer result" where
  "Buffer_from bytes =
     (let size = of_nat (length bytes) in
      andthen (new_array size) (\<lambda>a.
      andthen (mem_write (Some a) 0 (map Some bytes)) (\<lambda>d.
        Inr \<lparr>data_ptr = d, write_index = size, read_index = 0, capacity = size\<rparr>)))"

definition clear :: "buffer \<Rightarrow> buffer" where
  "clear b = b\<lparr>read_index := 0, write_index := 0\<rparr>"

definition readable_size :: "buffer \<Rightarrow> size_t" where
  "readable_size b = write_index b - read_index b"

definition writable_size :: "buffer \<Rightarrow> size_t" where
  "writable_size b = capacity b - write_index b"

definition buffer_empty :: "buffer \<Rightarrow> bool" where
  "buffer_empty b = (readable_size b = 0)"

text \<open>The chars \<open>peek\<close> and \<open>to_read\<close> point at, as many as \<open>readable_size\<close> says.\<close>

definition peek :: "buffer \<Rightarrow> cell list result" where
  "peek b = mem_read (data_ptr b) (read_index b) (readable_size b)"

definition shrink_if_needed :: "buffer \<Rightarrow> buffer result" where
  "shrink_if_needed b =
     (let used = readable_size b; idle = capacity b - used in
      if used = 0 then
        (if capacity b > kInitialCapacity * 4
         then andthen (new_array kInitialCapacity) (\<lambda>a.
                Inr (clear (b\<lparr>capacity := kInitialCapacity, data_ptr := Some a\<rparr>)))
         else Inr (clear b))
      else if idle * 4 \<le> capacity b * 3 \<or> idle < kShrinkThreshold then Inr b
      else
        (let t = max used kInitialCapacity; target = t + t div 2 in
         andthen (new_array target) (\<lambda>new_buf.
         andthen (mem_read (data_ptr b) (read_index b) used) (\<lambda>xs.
         andthen (mem_write (Some new_buf) 0 xs) (\<lambda>d.
           Inr (b\<lparr>data_ptr := d, capacity := target, read_index := 0, write_index := used\<rparr>))))))"

definition been_read :: "buffer \<Rightarrow> size_t \<Rightarrow> buffer result" where
  "been_read b len =
     ensure (len \<le> readable_size b) ''been_read: len exceeds readable size''
     (if len = 0 then Inr b
      else if len = readable_size b then shrink_if_needed (b\<lparr>read_index := write_index b\<rparr>)
      else (let b' = b\<lparr>read_index := read_index b + len\<rparr> in
            if read_index b' \<ge> capacity b' div 2 then shrink_if_needed b' else Inr b'))"

definition been_read_all :: "buffer \<Rightarrow> buffer result" where
  "been_read_all b = been_read b (readable_size b)"

definition been_written :: "buffer \<Rightarrow> size_t \<Rightarrow> buffer result" where
  "been_written b len =
     ensure (len \<le> writable_size b) ''been_written: len exceeds writable size''
     (Inr (b\<lparr>write_index := write_index b + len\<rparr>))"

text \<open>The loop \<open>while (new_capacity < required) new_capacity *= 2\<close>; \<open>None\<close> is "never ends".\<close>

partial_function (option) grow_capacity :: "size_t \<Rightarrow> size_t \<Rightarrow> size_t option" where
  "grow_capacity new_capacity required =
     (if new_capacity < required then grow_capacity (new_capacity * 2) required
      else Some new_capacity)"

definition ensure_writable_size :: "buffer \<Rightarrow> size_t \<Rightarrow> buffer result" where
  "ensure_writable_size b len =
     (let head_size = read_index b; tail_size = writable_size b; written_size = readable_size b in
      if tail_size \<ge> len then Inr b
      else if head_size + tail_size \<ge> len then
        andthen (mem_read (data_ptr b) (read_index b) written_size) (\<lambda>xs.
        andthen (mem_write (data_ptr b) 0 xs) (\<lambda>d.
          Inr (b\<lparr>data_ptr := d, read_index := 0, write_index := written_size\<rparr>)))
      else
        (case grow_capacity (capacity b) (written_size + len) of
           None \<Rightarrow> Inl Never_returns
         | Some new_capacity \<Rightarrow>
             andthen (new_array new_capacity) (\<lambda>new_buffer.
             andthen (mem_read (data_ptr b) (read_index b) written_size) (\<lambda>xs.
             andthen (mem_write (Some new_buffer) 0 xs) (\<lambda>d.
               Inr (b\<lparr>data_ptr := d, capacity := new_capacity,
                     read_index := 0, write_index := written_size\<rparr>))))))"

text \<open>Copying \<open>bytes\<close> to \<open>to_write()\<close>; \<open>append\<close> (here \<open>append_bytes\<close>) makes room, copies and advances.\<close>

definition copy_to_write :: "buffer \<Rightarrow> byte list \<Rightarrow> buffer result" where
  "copy_to_write b bytes =
     andthen (mem_write (data_ptr b) (write_index b) (map Some bytes)) (\<lambda>d.
       Inr (b\<lparr>data_ptr := d\<rparr>))"

definition append_bytes :: "buffer \<Rightarrow> byte list \<Rightarrow> buffer result" where
  "append_bytes b bytes =
     (let len = of_nat (length bytes) in
      ensure (len > 0) ''append size must > 0''
      (andthen (ensure_writable_size b len) (\<lambda>b1.
       andthen (copy_to_write b1 bytes) (\<lambda>b2.
         been_written b2 len))))"

text \<open>
  Moving. Buffers own their arrays, so two of them hold the same pointer only when they
  are the same object or both hold null; objects are addressed by a number.
\<close>

definition moved_from :: buffer where
  "moved_from = \<lparr>data_ptr = None, write_index = 0, read_index = 0, capacity = 0\<rparr>"

definition move_construct :: "(nat \<Rightarrow> buffer) \<Rightarrow> nat \<Rightarrow> nat \<Rightarrow> (nat \<Rightarrow> buffer)" where
  "move_construct st this other = st(this := st other, other := moved_from)"

definition same_data :: "(nat \<Rightarrow> buffer) \<Rightarrow> nat \<Rightarrow> nat \<Rightarrow> bool" where
  "same_data st i j = (i = j \<or> (data_ptr (st i) = None \<and> data_ptr (st j) = None))"

definition move_assign :: "(nat \<Rightarrow> buffer) \<Rightarrow> nat \<Rightarrow> nat \<Rightarrow> (nat \<Rightarrow> buffer)" where
  "move_assign st this other =
     (if same_data st this other then st else st(this := st other, other := moved_from))"

section \<open>Invariant and contents\<close>

text \<open>
  What every live buffer satisfies: it owns an array of \<open>capacity\<close> chars and
  \<open>read_index \<le> write_index \<le> capacity\<close>. The bound \<open>2^61\<close> is far above what an address
  space can hold; it keeps the products \<open>idle * 4\<close> and \<open>capacity * 3\<close> below \<open>2^64\<close>.
\<close>

definition buf_inv :: "buffer \<Rightarrow> bool" where
  "buf_inv b \<longleftrightarrow>
     (case data_ptr b of None \<Rightarrow> False | Some a \<Rightarrow> length a = unat (capacity b)) \<and>
     read_index b \<le> write_index b \<and> write_index b \<le> capacity b \<and>
     0 < capacity b \<and> unat (capacity b) \<le> 2 ^ 61"

definition contents :: "buffer \<Rightarrow> cell list" where
  "contents b = (case data_ptr b of None \<Rightarrow> []
     | Some a \<Rightarrow> take (unat (readable_size b)) (drop (unat (read_index b)) a))"

lemma buf_invE:
  assumes "buf_inv b"
  obtains a where "data_ptr b = Some a" "length a = unat (capacity b)"
    "unat (read_index b) \<le> unat (write_index b)" "unat (write_index b) \<le> unat (capacity b)"
    "0 < unat (capacity b)" "unat (capacity b) \<le> 2 ^ 61"
    "unat (readable_size b) = unat (write_index b) - unat (read_index b)"
    "unat (writable_size b) = unat (capacity b) - unat (write_index b)"
  using assms unfolding buf_inv_def readable_size_def writable_size_def
  by (auto split: option.splits simp: word_le_nat_alt word_less_nat_alt unat_simps)

lemma buf_inv_intro:
  assumes "data_ptr b = Some a" "length a = unat (capacity b)"
    "unat (read_index b) \<le> unat (write_index b)" "unat (write_index b) \<le> unat (capacity b)"
    "0 < unat (capacity b)" "unat (capacity b) \<le> 2 ^ 61"
  shows "buf_inv b"
  using assms unfolding buf_inv_def by (simp add: word_le_nat_alt word_less_nat_alt)

lemma length_contents: "buf_inv b \<Longrightarrow> length (contents b) = unat (readable_size b)"
  by (erule buf_invE) (simp add: contents_def)

lemma readable_le_capacity: "buf_inv b \<Longrightarrow> unat (readable_size b) \<le> unat (capacity b)"
  by (erule buf_invE) simp

lemma mem_read_contents:
  "buf_inv b \<Longrightarrow> mem_read (data_ptr b) (read_index b) (readable_size b) = Inr (contents b)"
  by (erule buf_invE) (simp add: contents_def mem_read_def)

lemma mem_write_0:
  "length xs \<le> length a \<Longrightarrow> mem_write (Some a) 0 xs = Inr (Some (xs @ drop (length xs) a))"
  by (simp add: mem_write_def)

lemma new_array_ok: "unat n < 2 ^ 63 \<Longrightarrow> new_array n = Inr (replicate (unat n) None)"
  by (simp add: new_array_def)

text \<open>
  Moving the readable chars to the front of an array that can hold them: the step shared
  by compaction, growth and shrinking.
\<close>

lemma relocate:
  assumes inv: "buf_inv b" and len: "length a = unat cap"
    and fits: "unat (readable_size b) \<le> unat cap" and pos: "0 < unat cap" and top: "unat cap \<le> 2 ^ 61"
  defines "b' \<equiv> b\<lparr>data_ptr := Some (contents b @ drop (length (contents b)) a), capacity := cap,
                 read_index := 0, write_index := readable_size b\<rparr>"
  shows "mem_write (Some a) 0 (contents b) = Inr (data_ptr b')" (is ?wrote)
    and "buf_inv b'" (is ?inv) and "contents b' = contents b" (is ?cont)
    and "readable_size b' = readable_size b" (is ?rd)
    and "unat (writable_size b') = unat cap - unat (readable_size b)" (is ?wr)
proof -
  have l: "length (contents b) = unat (readable_size b)" by (rule length_contents [OF inv])
  show ?wrote using l fits len by (simp add: mem_write_0 b'_def)
  show ?inv
    by (rule buf_inv_intro [where a = "contents b @ drop (length (contents b)) a"])
       (use l fits pos top len in \<open>simp_all add: b'_def\<close>)
  show rd: ?rd by (simp add: b'_def readable_size_def)
  show ?cont unfolding contents_def [of b'] rd using l by (simp add: b'_def)
  show ?wr using fits by (simp add: b'_def writable_size_def unat_simps word_le_nat_alt)
qed

section \<open>The doubling loop\<close>

lemma grow_capacity_stop: "\<not> nc < req \<Longrightarrow> grow_capacity nc req = Some nc"
  by (simp add: grow_capacity.simps)

lemma grow_capacity_step: "nc < req \<Longrightarrow> grow_capacity nc req = grow_capacity (nc * 2) req"
  by (subst grow_capacity.simps) simp

lemma grow_capacity_least:
  assumes "0 < unat nc" and "unat req \<le> 2 ^ 63"
  shows "\<exists>k r. grow_capacity nc req = Some r \<and> unat r = unat nc * 2 ^ k \<and> unat req \<le> unat r \<and>
           (\<forall>j<k. unat nc * 2 ^ j < unat req)"
  using assms
proof (induction "unat req - unat nc" arbitrary: nc rule: less_induct)
  case less
  show ?case
  proof (cases "nc < req")
    case False
    then show ?thesis
      by (intro exI [of _ 0] exI [of _ nc]) (simp add: grow_capacity_stop word_less_nat_alt)
  next
    case True
    then have lt: "unat nc < unat req" by (simp add: word_less_nat_alt)
    then have dbl: "unat (nc * 2) = 2 * unat nc"
      using less.prems by (subst unat_mult_lt) simp_all
    have "unat req - unat (nc * 2) < unat req - unat nc" "0 < unat (nc * 2)"
      using lt less.prems dbl by simp_all
    from less.hyps [OF this less.prems(2)] obtain k r where
      r: "grow_capacity (nc * 2) req = Some r" "unat r = unat (nc * 2) * 2 ^ k"
         "unat req \<le> unat r" "\<forall>j<k. unat (nc * 2) * 2 ^ j < unat req"
      by blast
    have "\<forall>j<Suc k. unat nc * 2 ^ j < unat req"
    proof (intro allI impI)
      fix j assume "j < Suc k"
      then show "unat nc * 2 ^ j < unat req"
        using r(4) lt dbl by (cases j) (auto simp: mult.assoc mult.left_commute)
    qed
    with r dbl True show ?thesis
      by (intro exI [of _ "Suc k"] exI [of _ r]) (simp add: grow_capacity_step)
  qed
qed

lemma grow_capacity_zero: "0 < req \<Longrightarrow> grow_capacity 0 req = None"
proof (rule ccontr)
  assume pos: "0 < req" and "grow_capacity 0 req \<noteq> None"
  then obtain r where ret: "grow_capacity 0 req = Some r" by auto
  have "(0::size_t) = 0 \<longrightarrow> \<not> 0 < req"
  proof (rule grow_capacity.raw_induct [where P = "\<lambda>nc req r. nc = 0 \<longrightarrow> \<not> 0 < req", OF _ ret])
    fix g :: "size_t \<Rightarrow> size_t \<Rightarrow> size_t option" and nc req r
    assume "\<And>nc req r. g nc req = Some r \<Longrightarrow> nc = 0 \<longrightarrow> \<not> 0 < req"
      and "(if nc < req then g (nc * 2) req else Some nc) = Some r"
    then show "nc = 0 \<longrightarrow> \<not> 0 < req" by (auto split: if_splits)
  qed
  with pos show False by simp
qed

lemma grow_capacity_power_wraps:
  assumes "(2::nat) ^ 63 < unat req" and "k \<le> 63"
  shows "grow_capacity (2 ^ (63 - k)) req = None"
  using assms(2)
proof (induction k)
  case 0
  have "(2 ^ 63 :: size_t) < req" and pos: "0 < req"
    using assms(1) by (simp_all add: word_less_nat_alt)
  then have "grow_capacity (2 ^ 63) req = grow_capacity (2 ^ 63 * 2) req"
    by (intro grow_capacity_step)
  also have "(2 ^ 63 * 2 :: size_t) = 0" by simp
  finally show ?case using grow_capacity_zero [OF pos] by simp
next
  case (Suc k)
  have "(2::nat) ^ (63 - Suc k) \<le> 2 ^ 63" by (rule power_increasing) simp_all
  then have "unat (2 ^ (63 - Suc k) :: size_t) \<le> 2 ^ 63"
    by (simp add: unat_power2)
  then have "(2 ^ (63 - Suc k) :: size_t) < req"
    using assms(1) by (simp add: word_less_nat_alt)
  moreover have "Suc (63 - Suc k) = 63 - k" using Suc.prems by simp
  then have "(2 ^ (63 - Suc k) :: size_t) * 2 = 2 ^ (63 - k)" by (metis power_Suc2)
  ultimately show ?case using Suc by (simp add: grow_capacity_step)
qed

section \<open>Operations keep the invariant and act as a queue\<close>

lemma ensure_writable_size_correct:
  assumes inv: "buf_inv b" and room: "unat (readable_size b) + unat len \<le> 2 ^ 60"
  shows "\<exists>b'. ensure_writable_size b len = Inr b' \<and> buf_inv b' \<and> contents b' = contents b \<and>
          readable_size b' = readable_size b \<and> len \<le> writable_size b' \<and>
          capacity b \<le> capacity b'"
proof (cases "len \<le> writable_size b")
  case True
  then show ?thesis using inv by (simp add: ensure_writable_size_def Let_def)
next
  case tail: False
  from inv obtain a where b: "data_ptr b = Some a" "length a = unat (capacity b)"
    "unat (read_index b) \<le> unat (write_index b)" "unat (write_index b) \<le> unat (capacity b)"
    "0 < unat (capacity b)" "unat (capacity b) \<le> 2 ^ 61"
    "unat (readable_size b) = unat (write_index b) - unat (read_index b)"
    "unat (writable_size b) = unat (capacity b) - unat (write_index b)"
    by (rule buf_invE)
  have head: "unat (read_index b + writable_size b) = unat (capacity b) - unat (readable_size b)"
    using b by (subst unat_add_lt) simp_all
  show ?thesis
  proof (cases "len \<le> read_index b + writable_size b")
    case True
    note R = relocate [OF inv b(2) _ b(5) b(6)]
    have "unat (readable_size b) \<le> unat (capacity b)" using b by simp
    from R [OF this] True tail head show ?thesis
      by (simp add: ensure_writable_size_def Let_def mem_read_contents [OF inv, unfolded b(1)]
                    b(1) word_le_nat_alt)
  next
    case False
    define req where "req = readable_size b + len"
    have req: "unat req = unat (readable_size b) + unat len"
      unfolding req_def using room by (subst unat_add_lt) simp_all
    have small: "unat req \<le> 2 ^ 63" using req room by simp
    obtain k r where r: "grow_capacity (capacity b) req = Some r"
      "unat r = unat (capacity b) * 2 ^ k" "unat req \<le> unat r"
      "\<forall>j<k. unat (capacity b) * 2 ^ j < unat req"
      using grow_capacity_least [OF b(5) small] by blast
    have top: "unat r \<le> 2 ^ 61"
    proof (cases k)
      case 0 then show ?thesis using r(2) b(6) by simp
    next
      case (Suc j)
      then have "unat (capacity b) * 2 ^ j < unat req" using r(4) by simp
      then show ?thesis using r(2) Suc room req by simp
    qed
    have pos: "0 < unat r" and fits: "unat (readable_size b) \<le> unat r"
      using r(2,3) b(5) req by simp_all
    have cap: "unat (capacity b) \<le> unat r" using r(2) by simp
    note R = relocate [OF inv length_replicate fits pos top, of None]
    have "new_array r = Inr (replicate (unat r) None)" using top by (intro new_array_ok) simp
    with R r(1,3) req tail False cap show ?thesis
      by (simp add: ensure_writable_size_def Let_def mem_read_contents [OF inv] req_def
                    word_le_nat_alt)
  qed
qed

lemma been_written_correct:
  assumes inv: "buf_inv b" and "len \<le> writable_size b"
  shows "\<exists>b'. been_written b len = Inr b' \<and> buf_inv b' \<and>
           unat (readable_size b') = unat (readable_size b) + unat len \<and>
           take (unat (readable_size b)) (contents b') = contents b"
proof -
  from inv obtain a where b: "data_ptr b = Some a" "length a = unat (capacity b)"
    "unat (read_index b) \<le> unat (write_index b)" "unat (write_index b) \<le> unat (capacity b)"
    "0 < unat (capacity b)" "unat (capacity b) \<le> 2 ^ 61"
    "unat (readable_size b) = unat (write_index b) - unat (read_index b)"
    "unat (writable_size b) = unat (capacity b) - unat (write_index b)"
    by (rule buf_invE)
  let ?b = "b\<lparr>write_index := write_index b + len\<rparr>"
  have w: "unat (write_index b + len) = unat (write_index b) + unat len"
    using b assms(2) by (subst unat_add_lt) (simp_all add: word_le_nat_alt)
  have i: "buf_inv ?b"
    using b w assms(2) by (intro buf_inv_intro [of _ a]) (simp_all add: word_le_nat_alt)
  then have "unat (readable_size ?b) = unat (readable_size b) + unat len"
    using b w by (elim buf_invE) simp
  with i b assms(2) show ?thesis
    by (simp add: been_written_def contents_def)
qed

lemma copy_to_write_correct:
  assumes inv: "buf_inv b" and fits: "length xs \<le> unat (writable_size b)"
  shows "\<exists>b'. copy_to_write b xs = Inr b' \<and> buf_inv b' \<and> readable_size b' = readable_size b \<and>
           writable_size b' = writable_size b \<and>
           (\<exists>b''. been_written b' (of_nat (length xs)) = Inr b'' \<and> buf_inv b'' \<and>
              contents b'' = contents b @ map Some xs)"
proof -
  from inv obtain a where b: "data_ptr b = Some a" "length a = unat (capacity b)"
    "unat (read_index b) \<le> unat (write_index b)" "unat (write_index b) \<le> unat (capacity b)"
    "0 < unat (capacity b)" "unat (capacity b) \<le> 2 ^ 61"
    "unat (readable_size b) = unat (write_index b) - unat (read_index b)"
    "unat (writable_size b) = unat (capacity b) - unat (write_index b)"
    by (rule buf_invE)
  let ?w = "unat (write_index b)" and ?n = "length xs"
  let ?a = "take ?w a @ map Some xs @ drop (?w + ?n) a"
  let ?b = "b\<lparr>data_ptr := Some ?a\<rparr>"
  have cp: "copy_to_write b xs = Inr ?b"
    using b fits by (simp add: copy_to_write_def mem_write_def)
  have i: "buf_inv ?b" using b fits by (intro buf_inv_intro [of _ ?a]) simp_all
  have len: "unat (of_nat ?n :: size_t) = ?n" using b fits by (intro unat_of_nat_lt) simp
  have "(of_nat ?n :: size_t) \<le> writable_size ?b"
    using len fits by (simp add: word_le_nat_alt writable_size_def)
  from been_written_correct [OF i this] obtain b'' where
    b'': "been_written ?b (of_nat ?n) = Inr b''" "buf_inv b''" by blast
  have "b'' = ?b\<lparr>write_index := write_index b + of_nat ?n\<rparr>"
    using b''(1) by (simp add: been_written_def ensure_eq_Inr)
  moreover have "unat (readable_size b'') = ?w + ?n - unat (read_index b)"
    using been_written_correct [OF i \<open>of_nat ?n \<le> writable_size ?b\<close>] b''(1) b len
    by (simp add: readable_size_def)
  ultimately have "contents b'' = contents b @ map Some xs"
    using take_drop_append_tail [of "unat (read_index b)" ?w ?n a "map Some xs"] b fits
    by (simp add: contents_def)
  with cp i b'' show ?thesis by (auto simp: readable_size_def writable_size_def)
qed

lemma clear_correct:
  assumes "buf_inv b"
  shows "buf_inv (clear b)" and "contents (clear b) = []" and "readable_size (clear b) = 0"
proof -
  from assms obtain a where b: "data_ptr b = Some a" "length a = unat (capacity b)"
    "0 < unat (capacity b)" "unat (capacity b) \<le> 2 ^ 61" by (rule buf_invE)
  then show "buf_inv (clear b)" by (intro buf_inv_intro [of _ a]) (simp_all add: clear_def)
  show "readable_size (clear b) = 0" by (simp add: clear_def readable_size_def)
  then show "contents (clear b) = []" by (simp add: contents_def split: option.split)
qed

lemma shrink_target:
  fixes used cap :: size_t
  assumes "unat used \<le> unat cap" "unat cap \<le> 2 ^ 61"
    and "\<not> (cap - used) * 4 \<le> cap * 3" "\<not> cap - used < kShrinkThreshold"
  defines "t \<equiv> max used kInitialCapacity"
  shows "unat (t + t div 2) = unat t + unat t div 2"
    and "unat used \<le> unat (t + t div 2)" and "unat (t + t div 2) < unat cap"
    and "8192 \<le> unat (t + t div 2)"
proof -
  have idle: "unat (cap - used) = unat cap - unat used"
    using assms(1) by (simp add: unat_simps word_le_nat_alt)
  have four: "unat ((cap - used) * 4) = (unat cap - unat used) * 4"
    using assms(2) idle by (subst unat_mult_lt) simp_all
  have three: "unat (cap * 3) = unat cap * 3"
    using assms(2) by (subst unat_mult_lt) simp_all
  have q: "unat cap * 3 < (unat cap - unat used) * 4"
    using assms(3) four three by (simp add: word_le_nat_alt)
  have h: "16384 \<le> unat cap - unat used"
    using assms(4) idle by (simp add: word_less_nat_alt kShrinkThreshold_def)
  have t: "unat t = max (unat used) 8192"
    by (simp add: t_def unat_max kInitialCapacity_def)
  show s: "unat (t + t div 2) = unat t + unat t div 2"
    using t q assms(2) by (subst unat_add_lt) (auto simp: unat_div)
  show "unat used \<le> unat (t + t div 2)" "unat (t + t div 2) < unat cap" "8192 \<le> unat (t + t div 2)"
    using s t q h by auto
qed

lemma shrink_if_needed_correct:
  assumes inv: "buf_inv b"
  shows "\<exists>b'. shrink_if_needed b = Inr b' \<and> buf_inv b' \<and> contents b' = contents b \<and>
           readable_size b' = readable_size b \<and> capacity b' \<le> capacity b \<and>
           min (capacity b) kInitialCapacity \<le> capacity b' \<and>
           (readable_size b = 0 \<longrightarrow> capacity b' \<le> kInitialCapacity * 4)"
proof (cases "readable_size b = 0")
  case used: True
  then have none: "contents b = []" using length_contents [OF inv] by simp
  show ?thesis
  proof (cases "capacity b > kInitialCapacity * 4")
    case big: True
    let ?b = "b\<lparr>capacity := kInitialCapacity, data_ptr := Some (replicate 8192 None),
               read_index := 0, write_index := 0\<rparr>"
    have "buf_inv ?b"
      by (rule buf_inv_intro [of _ "replicate 8192 None"]) (simp_all add: kInitialCapacity_def)
    from clear_correct [OF this] used big none show ?thesis
      by (simp add: shrink_if_needed_def new_array_def kInitialCapacity_def clear_def
                    word_less_nat_alt word_le_nat_alt unat_min)
  next
    case False
    with clear_correct [OF inv] used none show ?thesis
      by (simp add: shrink_if_needed_def Let_def clear_def word_less_nat_alt word_le_nat_alt unat_min)
  qed
next
  case used: False
  let ?idle = "capacity b - readable_size b"
  show ?thesis
  proof (cases "?idle * 4 \<le> capacity b * 3 \<or> ?idle < kShrinkThreshold")
    case True
    with used inv show ?thesis by (simp add: shrink_if_needed_def Let_def)
  next
    case False
    define t where "t = max (readable_size b) kInitialCapacity"
    define target where "target = t + t div 2"
    have top: "unat (capacity b) \<le> 2 ^ 61" using inv by (elim buf_invE)
    have T: "unat (readable_size b) \<le> unat target" "unat target < unat (capacity b)" "8192 \<le> unat target"
      using shrink_target [OF readable_le_capacity [OF inv] top] False
      by (simp_all add: target_def t_def)
    then have pos: "0 < unat target" and tt: "unat target \<le> 2 ^ 61" using top by simp_all
    note R = relocate [OF inv length_replicate T(1) pos tt, of None]
    have "new_array target = Inr (replicate (unat target) None)"
      using tt by (intro new_array_ok) simp
    with R T used False show ?thesis
      by (simp add: shrink_if_needed_def Let_def mem_read_contents [OF inv] word_le_nat_alt unat_min
               kInitialCapacity_def flip: target_def t_def [unfolded kInitialCapacity_def])
  qed
qed

lemma advance_read:
  assumes inv: "buf_inv b" and len: "len \<le> readable_size b"
  defines "b' \<equiv> b\<lparr>read_index := read_index b + len\<rparr>"
  shows "buf_inv b'" and "contents b' = drop (unat len) (contents b)"
    and "readable_size b' = readable_size b - len"
proof -
  from inv obtain a where b: "data_ptr b = Some a" "length a = unat (capacity b)"
    "unat (read_index b) \<le> unat (write_index b)" "unat (write_index b) \<le> unat (capacity b)"
    "0 < unat (capacity b)" "unat (capacity b) \<le> 2 ^ 61"
    "unat (readable_size b) = unat (write_index b) - unat (read_index b)"
    by (rule buf_invE)
  have r: "unat (read_index b + len) = unat (read_index b) + unat len"
    using b len by (subst unat_add_lt) (simp_all add: word_le_nat_alt)
  show "buf_inv b'"
    using b len r by (intro buf_inv_intro [of _ a]) (simp_all add: b'_def word_le_nat_alt)
  show rd: "readable_size b' = readable_size b - len" by (simp add: b'_def readable_size_def)
  have "unat (readable_size b') = unat (readable_size b) - unat len"
    using rd len by (simp add: unat_simps)
  with b r show "contents b' = drop (unat len) (contents b)"
    by (simp add: contents_def drop_take b'_def add.commute)
qed

lemma been_read_correct:
  assumes inv: "buf_inv b" and len: "len \<le> readable_size b"
  shows "\<exists>b'. been_read b len = Inr b' \<and> buf_inv b' \<and> contents b' = drop (unat len) (contents b) \<and>
           unat (readable_size b') = unat (readable_size b) - unat len \<and>
           capacity b' \<le> capacity b \<and> min (capacity b) kInitialCapacity \<le> capacity b'"
proof -
  let ?b = "b\<lparr>read_index := read_index b + len\<rparr>"
  note A = advance_read [OF inv len]
  have rd: "unat (readable_size ?b) = unat (readable_size b) - unat len"
    using A(3) len by (simp add: unat_simps)
  have all: "len = readable_size b \<Longrightarrow> ?b = b\<lparr>read_index := write_index b\<rparr>"
    by (simp add: readable_size_def)
  from shrink_if_needed_correct [OF A(1)] obtain b' where
    b': "shrink_if_needed ?b = Inr b'" "buf_inv b'" "contents b' = contents ?b"
      "readable_size b' = readable_size ?b" "capacity b' \<le> capacity b"
      "min (capacity b) kInitialCapacity \<le> capacity b'" by auto
  have keep: "min (capacity b) kInitialCapacity \<le> capacity b" by simp
  consider "len = 0" | "len \<noteq> 0" "len = readable_size b"
    | "len \<noteq> 0" "len \<noteq> readable_size b" by blast
  then show ?thesis
  proof cases
    case 1 with inv keep show ?thesis by (simp add: been_read_def)
  next
    case 2 with b' A rd all show ?thesis by (simp add: been_read_def)
  next
    case 3
    with b' A rd len keep show ?thesis
      by (cases "read_index b + len \<ge> capacity b div 2") (simp_all add: been_read_def Let_def)
  qed
qed

lemma append_bytes_correct:
  assumes inv: "buf_inv b" and ne: "xs \<noteq> []"
    and room: "unat (readable_size b) + length xs \<le> 2 ^ 60"
  shows "\<exists>b'. append_bytes b xs = Inr b' \<and> buf_inv b' \<and> contents b' = contents b @ map Some xs \<and>
           capacity b \<le> capacity b'"
proof -
  let ?len = "of_nat (length xs) :: size_t"
  have len: "unat ?len = length xs" using room by (intro unat_of_nat_lt) simp
  then have pos: "0 < ?len" using ne by (simp add: word_less_nat_alt)
  have "unat (readable_size b) + unat ?len \<le> 2 ^ 60" using room len by simp
  from ensure_writable_size_correct [OF inv this] obtain b1 where
    b1: "ensure_writable_size b ?len = Inr b1" "buf_inv b1" "contents b1 = contents b"
        "?len \<le> writable_size b1" "capacity b \<le> capacity b1" by blast
  then have "length xs \<le> unat (writable_size b1)" using len by (simp add: word_le_nat_alt)
  from copy_to_write_correct [OF b1(2) this] obtain b2 b3 where
    b2: "copy_to_write b1 xs = Inr b2" "been_written b2 ?len = Inr b3" "buf_inv b3"
        "contents b3 = contents b1 @ map Some xs" by blast
  have "capacity b3 = capacity b1"
    using b2(1,2) by (auto simp: copy_to_write_def been_written_def result_simps)
  with b1 b2 pos show ?thesis by (simp add: append_bytes_def)
qed

section \<open>The buffer is a byte queue\<close>

definition buffer_get :: "buffer \<Rightarrow> nat \<Rightarrow> buffer result" where
  "buffer_get b n = been_read b (of_nat n)"

interpretation bq: byte_fifo contents buf_inv append_bytes peek buffer_get Some "2 ^ 60"
proof unfold_locales
  fix b and xs :: "byte list"
  assume "buf_inv b" "xs \<noteq> []" "length (contents b) + length xs \<le> 2 ^ 60"
  then show "\<exists>b'. append_bytes b xs = Inr b' \<and> buf_inv b' \<and> contents b' = contents b @ map Some xs"
    using append_bytes_correct [of b xs] by (auto simp: length_contents)
next
  fix b assume "buf_inv b"
  then show "peek b = Inr (contents b)" by (simp add: peek_def mem_read_contents)
next
  fix b n assume inv: "buf_inv b" and n: "n \<le> length (contents b)"
  have "unat (capacity b) \<le> 2 ^ 61" using inv by (elim buf_invE)
  then have "n < 2 ^ 64" using n readable_le_capacity [OF inv] length_contents [OF inv] by simp
  then have "unat (of_nat n :: size_t) = n" by (intro unat_of_nat_lt) simp
  with n inv show "\<exists>b'. buffer_get b n = Inr b' \<and> buf_inv b' \<and> contents b' = drop n (contents b)"
    using been_read_correct [OF inv, of "of_nat n"]
    by (auto simp: buffer_get_def word_le_nat_alt length_contents)
qed

lemma Buffer_new_correct:
  assumes "unat n \<le> 2 ^ 61"
  shows "\<exists>b. Buffer_new n = Inr b \<and> buf_inv b \<and> contents b = [] \<and> kInitialCapacity \<le> capacity b"
proof -
  let ?cap = "max n kInitialCapacity"
  let ?b = "\<lparr>data_ptr = Some (replicate (unat ?cap) None), write_index = 0, read_index = 0, capacity = ?cap\<rparr>"
  have cap: "0 < unat ?cap" "unat ?cap \<le> 2 ^ 61"
    using assms by (simp_all add: unat_max kInitialCapacity_def)
  then have "Buffer_new n = Inr ?b" by (simp add: Buffer_new_def new_array_def Let_def)
  moreover have "buf_inv ?b"
    using cap by (intro buf_inv_intro [of _ "replicate (unat ?cap) None"]) simp_all
  ultimately show ?thesis by (auto simp: contents_def readable_size_def)
qed

lemma Buffer_from_correct:
  assumes "xs \<noteq> []" and "length xs \<le> 2 ^ 61"
  shows "\<exists>b. Buffer_from xs = Inr b \<and> buf_inv b \<and> contents b = map Some xs"
proof -
  let ?n = "of_nat (length xs) :: size_t"
  let ?b = "\<lparr>data_ptr = Some (map Some xs), write_index = ?n, read_index = 0, capacity = ?n\<rparr>"
  have n: "unat ?n = length xs" using assms by (intro unat_of_nat_lt) simp
  then have "Buffer_from xs = Inr ?b"
    using assms by (simp add: Buffer_from_def new_array_def mem_write_def Let_def)
  moreover have "buf_inv ?b"
    using n assms by (intro buf_inv_intro [of _ "map Some xs"]) simp_all
  ultimately show ?thesis using n by (auto simp: contents_def readable_size_def)
qed

section \<open>Properties\<close>

text \<open>
  C9. The buffer refines an abstract byte queue: any program of appends and reads that is
  legal on a list (no empty append, no read beyond the end, at most \<open>2^60\<close> bytes held) runs
  on the buffer without failing, reads the same bytes in the same order and leaves the
  same bytes in the buffer, whatever compaction, growth and shrinking happen on the way.
\<close>

theorem buffer_refines_fifo:
  assumes "buf_inv b"
    and "fifo_spec (2 ^ 60) Some ops (contents b) = Some (out, q)"
  shows "\<exists>b'. fifo_run append_bytes peek buffer_get ops b = Inr (out, b') \<and> buf_inv b' \<and>
           contents b' = q \<and> out @ contents b' = contents b @ fifo_puts Some ops"
proof -
  from bq.run_refines [OF assms] obtain b' where
    "fifo_run append_bytes peek buffer_get ops b = Inr (out, b')" "buf_inv b'" "contents b' = q"
    by blast
  with fifo_spec_conserves [OF assms(2)] show ?thesis by simp
qed

definition sample_buffer :: buffer where
  "sample_buffer = \<lparr>data_ptr = Some (map Some [1, 2, 3]), write_index = 3, read_index = 0, capacity = 3\<rparr>"

theorem buffer_refines_fifo_witness:
  "\<exists>b'. fifo_run append_bytes peek buffer_get [Get 2, Put [4], Put [5, 6, 7], Get 1] sample_buffer
          = Inr ([Some 1, Some 2, Some 3], b') \<and>
        buf_inv b' \<and> contents b' = [Some 4, Some 5, Some 6, Some 7]"
proof -
  have inv: "buf_inv sample_buffer" by (simp add: buf_inv_def sample_buffer_def)
  have spec: "fifo_spec (2 ^ 60) Some [Get 2, Put [4], Put [5, 6, 7], Get 1] (contents sample_buffer)
      = Some ([Some 1, Some 2, Some 3], [Some 4, Some 5, Some 6, Some 7])"
    by (simp add: contents_def sample_buffer_def readable_size_def)
  show ?thesis using buffer_refines_fifo [OF inv spec] by blast
qed

text \<open>
  \<open>been_read\<close> on every branch: it fails, with its \<open>ENSURE\<close> message, exactly when more is
  consumed than is readable; otherwise it drops exactly \<open>len\<close> bytes from the front, keeps the
  invariant, never enlarges the array and never shrinks it below the initial capacity.
\<close>

lemma been_read_spec:
  assumes "buf_inv b"
  shows "case been_read b len of
      Inl e \<Rightarrow> length (contents b) < unat len \<and> e = Ensure_failed ''been_read: len exceeds readable size''
    | Inr b' \<Rightarrow> unat len \<le> length (contents b) \<and> buf_inv b' \<and> contents b' = drop (unat len) (contents b) \<and>
        capacity b' \<le> capacity b \<and> min (capacity b) kInitialCapacity \<le> capacity b'"
proof (cases "len \<le> readable_size b")
  case True
  from been_read_correct [OF assms True] True show ?thesis
    by (auto simp: length_contents [OF assms] word_le_nat_alt)
next
  case False
  then show ?thesis
    by (simp add: been_read_def ensure_def length_contents [OF assms] word_le_nat_alt)
qed

text \<open>
  \<open>append\<close> on every branch: an empty append fails its \<open>ENSURE\<close>; any other append of a
  buffer that will hold at most \<open>2^60\<close> bytes succeeds, makes exactly these bytes readable
  behind the old ones, keeps the invariant and never reduces the capacity. No access is
  out of bounds and the growth loop ends.
\<close>

lemma append_bytes_spec:
  assumes "buf_inv b" and "length (contents b) + length xs \<le> 2 ^ 60"
  shows "case append_bytes b xs of
      Inl e \<Rightarrow> xs = [] \<and> e = Ensure_failed ''append size must > 0''
    | Inr b' \<Rightarrow> xs \<noteq> [] \<and> buf_inv b' \<and> contents b' = contents b @ map Some xs \<and>
        capacity b \<le> capacity b'"
proof (cases "xs = []")
  case True
  then show ?thesis by (simp add: append_bytes_def ensure_def)
next
  case False
  with append_bytes_correct [OF assms(1) False] assms(2) show ?thesis
    by (auto simp: length_contents [OF assms(1)])
qed

text \<open>
  The growth loop, from any capacity but zero and for every request up to \<open>2^63\<close>, ends with
  the least doubling of the capacity that holds the request; from the default capacity it
  ends for these requests only.
\<close>

lemma grow_capacity_spec:
  assumes "0 < unat cap" and "unat req \<le> 2 ^ 63"
  shows "(\<exists>k r. grow_capacity cap req = Some r \<and> unat r = unat cap * 2 ^ k \<and> unat req \<le> unat r \<and>
           (\<forall>j<k. unat cap * 2 ^ j < unat req)) \<and>
         (\<forall>big. grow_capacity kInitialCapacity big = None \<longleftrightarrow> 2 ^ 63 < unat big)"
proof (intro conjI allI iffI)
  show "\<exists>k r. grow_capacity cap req = Some r \<and> unat r = unat cap * 2 ^ k \<and> unat req \<le> unat r \<and>
           (\<forall>j<k. unat cap * 2 ^ j < unat req)"
    by (rule grow_capacity_least [OF assms])
next
  fix big assume none: "grow_capacity kInitialCapacity big = None"
  show "2 ^ 63 < unat big"
  proof (rule ccontr)
    assume "\<not> 2 ^ 63 < unat big"
    with grow_capacity_least [of kInitialCapacity big] none show False
      by (auto simp: kInitialCapacity_def)
  qed
next
  fix big :: size_t assume "2 ^ 63 < unat big"
  from grow_capacity_power_wraps [OF this, of 50] show "grow_capacity kInitialCapacity big = None"
    by (simp add: kInitialCapacity_def)
qed

text \<open>
  Where the growth loop never ends. A buffer of capacity zero (a moved-from buffer, or
  one constructed from no bytes) cannot be appended to: \<open>0 * 2 = 0\<close>. And a buffer of the
  default capacity asked for more than \<open>2^63\<close> bytes doubles until the size wraps to zero,
  instead of failing with \<open>bad_alloc\<close>.
\<close>

lemma growth_never_returns:
  "(\<forall>x. append_bytes moved_from [x] = Inl Never_returns) \<and>
   (\<forall>x. andthen (Buffer_from []) (\<lambda>b. append_bytes b [x]) = Inl Never_returns) \<and>
   grow_capacity kInitialCapacity (2 ^ 63 + 1) = None"
proof (intro conjI allI)
  have g: "grow_capacity 0 1 = None" by (rule grow_capacity_zero) simp
  show "append_bytes moved_from [x] = Inl Never_returns" for x
    using g by (simp add: append_bytes_def moved_from_def ensure_writable_size_def writable_size_def
                          readable_size_def)
  show "andthen (Buffer_from []) (\<lambda>b. append_bytes b [x]) = Inl Never_returns" for x
    using g by (simp add: append_bytes_def Buffer_from_def new_array_def mem_write_def
                          ensure_writable_size_def writable_size_def readable_size_def)
  have "(2::nat) ^ 63 < unat (2 ^ 63 + 1 :: size_t)" by simp
  from grow_capacity_power_wraps [OF this, of 50]
  show "grow_capacity kInitialCapacity (2 ^ 63 + 1) = None"
    by (simp add: kInitialCapacity_def)
qed

text \<open>
  C34. Memory is given back: once a buffer is drained, its array has at most four times the
  initial capacity.
\<close>

theorem drained_buffer_is_small:
  assumes "buf_inv b" and "readable_size b \<noteq> 0"
  shows "\<exists>b'. been_read_all b = Inr b' \<and> buf_inv b' \<and> contents b' = [] \<and>
           capacity b' \<le> kInitialCapacity * 4 \<and> capacity b' \<le> capacity b"
proof -
  let ?b = "b\<lparr>read_index := write_index b\<rparr>"
  have "?b = b\<lparr>read_index := read_index b + readable_size b\<rparr>" by (simp add: readable_size_def)
  with advance_read [OF assms(1), of "readable_size b"]
  have A: "buf_inv ?b" "contents ?b = []" "readable_size ?b = 0"
    by (simp_all add: length_contents [OF assms(1)])
  from shrink_if_needed_correct [OF A(1)] A assms(2) show ?thesis
    by (auto simp: been_read_all_def been_read_def)
qed

theorem drained_buffer_is_small_witness:
  "\<exists>b'. been_read_all sample_buffer = Inr b' \<and> contents b' = [] \<and> capacity b' \<le> kInitialCapacity * 4"
proof -
  have "buf_inv sample_buffer" "readable_size sample_buffer \<noteq> 0"
    by (simp_all add: buf_inv_def sample_buffer_def readable_size_def)
  from drained_buffer_is_small [OF this] show ?thesis by blast
qed

text \<open>
  Moving a buffer transfers its contents and leaves the source empty and unowned; moving
  a buffer onto itself changes nothing.
\<close>

lemma move_transfers_contents:
  assumes "this \<noteq> other"
  shows "contents (move_assign st this other this) = contents (st other) \<and>
         contents (move_assign st this other other) = [] \<and>
         contents (move_construct st this other this) = contents (st other) \<and>
         move_construct st this other other = moved_from \<and>
         move_assign st this this = st"
proof -
  have "contents moved_from = []" by (simp add: contents_def moved_from_def)
  moreover have "data_ptr b = None \<Longrightarrow> contents b = []" for b by (simp add: contents_def)
  ultimately show ?thesis
    using assms by (simp add: move_assign_def move_construct_def same_data_def)
qed

end
