(* ===== verification/Timer_Spec.thy ===== *)
theory Timer_Spec
  imports Prelude "HOL-Library.Multiset"
begin

text \<open>
  The contract of a timer queue: a list of entries (deadline, id, callback) in the order of
  their deadlines, equal deadlines in the order of arrival. Adding inserts behind the
  entries that are not later, cancelling removes the entry of one id, expiring splits the
  list at the clock. The locale states that an implementation refines these list functions
  and proves what a client may conclude about whole runs.
\<close>

type_synonym time = int
type_synonym timer_id = uint64

section \<open>Deadline-ordered lists\<close>

text \<open>\<open>std::multimap::emplace\<close>: insertion at the upper bound of the key.\<close>

fun emplace :: "'t::linorder \<times> 'a \<Rightarrow> ('t \<times> 'a) list \<Rightarrow> ('t \<times> 'a) list" where
  "emplace x [] = [x]"
| "emplace x (y # ys) = (if fst x < fst y then x # y # ys else y # emplace x ys)"

lemma set_emplace [simp]: "set (emplace x ys) = insert x (set ys)"
  by (induction ys) auto

lemma mset_emplace [simp]: "mset (emplace x ys) = add_mset x (mset ys)"
  by (induction ys) auto

lemma emplace_not_Nil [simp]: "emplace x ys \<noteq> []"
  by (cases ys) auto

lemma sorted_emplace: "sorted (map fst ys) \<Longrightarrow> sorted (map fst (emplace x ys))"
  by (induction ys) auto

lemma hd_emplace: "ys \<noteq> [] \<Longrightarrow> fst (hd (emplace x ys)) = min (fst x) (fst (hd ys))"
  by (cases ys) auto

lemma distinct_emplace: "distinct (map g (emplace x ys)) \<longleftrightarrow> g x \<notin> g ` set ys \<and> distinct (map g ys)"
  by (induction ys) auto

lemma map_emplace: "(\<And>y. y \<in> insert x (set ys) \<Longrightarrow> fst (f y) = fst y) \<Longrightarrow>
    map f (emplace x ys) = emplace (f x) (map f ys)"
  by (induction ys) auto

lemma sorted_takeWhile_filter:
  "sorted (map fst xs) \<Longrightarrow> takeWhile (\<lambda>e. fst e \<le> now) xs = filter (\<lambda>e. fst e \<le> now) xs"
  for now :: "'t::linorder"
proof (induction xs)
  case (Cons x xs)
  show ?case
  proof (cases "fst x \<le> now")
    case False
    with Cons.prems have "\<forall>e\<in>set xs. \<not> fst e \<le> now" by auto
    with False show ?thesis by (auto simp: filter_empty_conv)
  qed (use Cons in auto)
qed simp

lemma sorted_dropWhile_filter:
  "sorted (map fst xs) \<Longrightarrow> dropWhile (\<lambda>e. fst e \<le> now) xs = filter (\<lambda>e. \<not> fst e \<le> now) xs"
  for now :: "'t::linorder"
proof (induction xs)
  case (Cons x xs)
  show ?case
  proof (cases "fst x \<le> now")
    case False
    with Cons.prems have "\<forall>e\<in>set xs. \<not> fst e \<le> now" by auto
    with False show ?thesis by (auto simp: filter_id_conv)
  qed (use Cons in auto)
qed simp

section \<open>Runs of a timer queue\<close>

datatype 'cb timer_op = Add time uint32 'cb | Cancel timer_id | Expire time

text \<open>
  A run over an implementation, collecting the callbacks handed in, those that became due
  and those that were removed by a cancellation.
\<close>

record 'cb timer_log =
  added :: "'cb list"
  fired :: "'cb list"
  dropped :: "'cb list"

definition entry_cb :: "time \<times> timer_id \<times> 'cb \<Rightarrow> 'cb" where
  "entry_cb e = snd (snd e)"

definition entry_id :: "time \<times> timer_id \<times> 'cb \<Rightarrow> timer_id" where
  "entry_id e = fst (snd e)"

fun timer_run :: "(time \<Rightarrow> uint32 \<Rightarrow> 'cb \<Rightarrow> 'm \<Rightarrow> timer_id \<times> 'm) \<Rightarrow> (timer_id \<Rightarrow> 'm \<Rightarrow> 'm) \<Rightarrow>
    (time \<Rightarrow> 'm \<Rightarrow> 'm \<times> 'cb list) \<Rightarrow> ('m \<Rightarrow> (time \<times> timer_id \<times> 'cb) list) \<Rightarrow>
    'cb timer_op list \<Rightarrow> 'm \<Rightarrow> 'cb timer_log \<Rightarrow> 'm \<times> 'cb timer_log" where
  "timer_run add cancel due es [] m l = (m, l)"
| "timer_run add cancel due es (Add now d cb # ops) m l =
     timer_run add cancel due es ops (snd (add now d cb m)) (l\<lparr>added := added l @ [cb]\<rparr>)"
| "timer_run add cancel due es (Cancel i # ops) m l =
     timer_run add cancel due es ops (cancel i m)
       (l\<lparr>dropped := dropped l @ map entry_cb (filter (\<lambda>e. entry_id e = i) (es m))\<rparr>)"
| "timer_run add cancel due es (Expire now # ops) m l =
     (case due now m of (m', cbs) \<Rightarrow>
        timer_run add cancel due es ops m' (l\<lparr>fired := fired l @ cbs\<rparr>))"

fun count_adds :: "'cb timer_op list \<Rightarrow> nat" where
  "count_adds [] = 0"
| "count_adds (Add now d cb # ops) = Suc (count_adds ops)"
| "count_adds (_ # ops) = count_adds ops"

section \<open>The contract\<close>

locale timer_queue =
  fixes entries :: "'m \<Rightarrow> (time \<times> timer_id \<times> 'cb) list"
    and inv :: "'m \<Rightarrow> bool"
    and fresh :: "'m \<Rightarrow> timer_id"
    and add :: "time \<Rightarrow> uint32 \<Rightarrow> 'cb \<Rightarrow> 'm \<Rightarrow> timer_id \<times> 'm"
    and cancel :: "timer_id \<Rightarrow> 'm \<Rightarrow> 'm"
    and due :: "time \<Rightarrow> 'm \<Rightarrow> 'm \<times> 'cb list"
  assumes entries_sorted: "inv m \<Longrightarrow> sorted (map fst (entries m))"
    and entries_below: "inv m \<Longrightarrow> e \<in> set (entries m) \<Longrightarrow> 0 < entry_id e \<and> entry_id e < fresh m"
    and add_id: "inv m \<Longrightarrow> fst (add now d cb m) = fresh m"
    and add_entries: "inv m \<Longrightarrow>
      entries (snd (add now d cb m)) = emplace (now + 1000000 * uint d, fresh m, cb) (entries m)"
    and add_inv: "inv m \<Longrightarrow> fresh m + 1 \<noteq> 0 \<Longrightarrow>
      inv (snd (add now d cb m)) \<and> fresh (snd (add now d cb m)) = fresh m + 1"
    and fresh_pos: "inv m \<Longrightarrow> 0 < fresh m"
    and cancel_entries: "inv m \<Longrightarrow> entries (cancel i m) = filter (\<lambda>e. entry_id e \<noteq> i) (entries m)"
    and cancel_inv: "inv m \<Longrightarrow> inv (cancel i m) \<and> fresh (cancel i m) = fresh m"
    and due_entries: "inv m \<Longrightarrow> entries (fst (due now m)) = dropWhile (\<lambda>e. fst e \<le> now) (entries m)"
    and due_result: "inv m \<Longrightarrow> snd (due now m) = map entry_cb (takeWhile (\<lambda>e. fst e \<le> now) (entries m))"
    and due_inv: "inv m \<Longrightarrow> inv (fst (due now m)) \<and> fresh (fst (due now m)) = fresh m"
begin

lemma cancel_undoes_add:
  assumes "inv m"
  shows "filter (\<lambda>e. entry_id e \<noteq> fst (add now d cb m)) (entries (snd (add now d cb m))) = entries m"
proof -
  let ?f = "filter (\<lambda>e. entry_id e \<noteq> fresh m)"
  have "\<forall>e\<in>set es. entry_id e \<noteq> fresh m \<Longrightarrow> ?f (emplace (t, fresh m, cb) es) = es" for t es
    by (induction es) (auto simp: entry_id_def)
  moreover have "\<forall>e\<in>set (entries m). entry_id e \<noteq> fresh m"
    using entries_below [OF assms] by fastforce
  ultimately show ?thesis using assms by (simp add: add_id add_entries)
qed

lemma due_partition:
  assumes "inv m"
  shows "mset (snd (due now m)) = image_mset entry_cb (filter_mset (\<lambda>e. fst e \<le> now) (mset (entries m)))"
    and "\<forall>e\<in>set (entries (fst (due now m))). now < fst e"
  using entries_sorted [OF assms]
  by (auto simp: due_result [OF assms] due_entries [OF assms] sorted_takeWhile_filter
                 sorted_dropWhile_filter mset_filter mset_map)

text \<open>Over any run, each callback is accounted for exactly once.\<close>

lemma run_conserves:
  assumes "inv m" and "unat (fresh m) + count_adds ops < 2 ^ 64"
    and "timer_run add cancel due entries ops m l = (m', l')"
  shows "inv m' \<and>
    mset (added l') + (mset (map entry_cb (entries m)) + mset (fired l) + mset (dropped l)) =
    mset (added l) + (mset (map entry_cb (entries m')) + mset (fired l') + mset (dropped l'))"
  using assms
proof (induction ops arbitrary: m l)
  case Nil
  then show ?case by simp
next
  case (Cons op ops)
  show ?case
  proof (cases op)
    case (Add now d cb)
    let ?m = "snd (add now d cb m)"
    have "unat (fresh m + 1) = unat (fresh m) + 1"
      using Cons.prems(2) Add by (subst unat_add_lt) simp_all
    then have "fresh m + 1 \<noteq> 0" and cnt: "unat (fresh m + 1) + count_adds ops < 2 ^ 64"
      using Cons.prems(2) Add by auto
    with add_inv [OF Cons.prems(1)] have "inv ?m" "fresh ?m = fresh m + 1" by auto
    with Cons.IH [of ?m "l\<lparr>added := added l @ [cb]\<rparr>"] cnt Cons.prems(3) Add
    show ?thesis by (simp add: add_entries [OF Cons.prems(1)] entry_cb_def)
  next
    case (Cancel i)
    have "mset (entries m) = mset (filter (\<lambda>e. entry_id e = i) (entries m)) +
        mset (filter (\<lambda>e. entry_id e \<noteq> i) (entries m))"
      by (simp add: mset_filter multiset_partition [symmetric])
    then have "mset (map entry_cb (entries m)) =
        mset (map entry_cb (filter (\<lambda>e. entry_id e = i) (entries m))) +
        mset (map entry_cb (entries (cancel i m)))"
      by (simp add: cancel_entries [OF Cons.prems(1)] mset_map flip: image_mset_union)
    with Cons.IH [of "cancel i m" "l\<lparr>dropped := dropped l @ map entry_cb (filter (\<lambda>e. entry_id e = i) (entries m))\<rparr>"]
      Cons.prems cancel_inv [OF Cons.prems(1), of i] Cancel
    show ?thesis by (simp add: ac_simps)
  next
    case (Expire now)
    obtain m1 cbs where due: "due now m = (m1, cbs)" by fastforce
    have "mset (entries m) = mset (takeWhile (\<lambda>e. fst e \<le> now) (entries m)) +
        mset (dropWhile (\<lambda>e. fst e \<le> now) (entries m))"
      by (simp flip: mset_append)
    then have "mset (map entry_cb (entries m)) = mset cbs + mset (map entry_cb (entries m1))"
      using due_result [OF Cons.prems(1), of now] due_entries [OF Cons.prems(1), of now] due
      by (simp add: mset_map flip: image_mset_union)
    with Cons.IH [of m1 "l\<lparr>fired := fired l @ cbs\<rparr>"] Cons.prems due_inv [OF Cons.prems(1), of now] due Expire
    show ?thesis by (simp add: ac_simps)
  qed
qed

end

end
