(* ===== verification/Timer.thy ===== *)
theory Timer
  imports Timer_Spec
begin

text \<open>
  The timer manager of cxpnet/timer.h and cxpnet/timer.cc.

  The three containers of \<open>TimerManager\<close> are kept as the code has them: \<open>timers\<close> maps ids to
  timers, \<open>schedule\<close> is the multimap from deadlines to ids (a list in key order, equal keys in
  insertion order) and \<open>scheduled_timers\<close> maps an id to the multimap node that holds it; a
  node is named by its (deadline, id) pair. The clock is an integer number of nanoseconds.
  A \<open>std::function\<close> that may be empty is an option.

  The first part holds the operations that run under \<open>mutex_\<close>; the second part the
  interleaving of the timer thread with its callers at the granularity of the mutex, the
  condition variable and the atomic flag.
\<close>

section \<open>State\<close>

record 'cb timer =
  tm_id :: timer_id
  tm_delay_ms :: uint32
  tm_callback :: "'cb option"
  tm_expire :: time
  tm_cancelled :: bool

record 'cb timer_manager =
  timers :: "timer_id \<rightharpoonup> 'cb timer"
  scheduled_timers :: "timer_id \<rightharpoonup> time \<times> timer_id"
  schedule :: "(time \<times> timer_id) list"
  running :: bool
  next_id :: timer_id

definition TimerManager_new :: "'cb timer_manager" where
  "TimerManager_new = \<lparr>timers = Map.empty, scheduled_timers = Map.empty, schedule = [],
     running = True, next_id = 1\<rparr>"

definition Timer_new :: "timer_id \<Rightarrow> uint32 \<Rightarrow> 'cb option \<Rightarrow> time \<Rightarrow> 'cb timer" where
  "Timer_new tid delay_ms cb now =
     \<lparr>tm_id = tid, tm_delay_ms = delay_ms, tm_callback = cb,
      tm_expire = now + 1000000 * uint delay_ms, tm_cancelled = False\<rparr>"

section \<open>Operations under the mutex\<close>

definition add_timer :: "time \<Rightarrow> uint32 \<Rightarrow> 'cb option \<Rightarrow> 'cb timer_manager \<Rightarrow>
    timer_id \<times> 'cb timer_manager" where
  "add_timer now delay_ms cb m =
     (if \<not> running m then (0, m)
      else let tid = next_id m;
               timer = Timer_new tid delay_ms cb now;
               when = tm_expire timer;
               it = (when, tid)
           in (tid, m\<lparr>next_id := next_id m + 1,
                    schedule := emplace it (schedule m),
                    scheduled_timers := (scheduled_timers m)(tid \<mapsto> it),
                    timers := (timers m)(tid \<mapsto> timer)\<rparr>))"

definition cancel_timer :: "timer_id \<Rightarrow> 'cb timer_manager \<Rightarrow> 'cb timer_manager" where
  "cancel_timer tid m =
     (if \<not> running m then m
      else case timers m tid of None \<Rightarrow> m
      | Some timer \<Rightarrow>
          let m1 = m\<lparr>timers := (timers m)(tid \<mapsto> timer\<lparr>tm_cancelled := True\<rparr>)\<rparr>;
              m2 = (case scheduled_timers m1 tid of None \<Rightarrow> m1
                    | Some it \<Rightarrow> m1\<lparr>schedule := remove1 it (schedule m1),
                                   scheduled_timers := (scheduled_timers m1)(tid := None)\<rparr>)
          in m2\<lparr>timers := (timers m2)(tid := None)\<rparr>)"

text \<open>The last section of \<open>shutdown\<close>: the containers are emptied under the mutex.\<close>

definition clear_timers :: "'cb timer_manager \<Rightarrow> 'cb timer_manager" where
  "clear_timers m = m\<lparr>timers := Map.empty, scheduled_timers := Map.empty, schedule := []\<rparr>"

text \<open>The inner loop of the timer thread: take every due node off the schedule.\<close>

function collect_expired :: "time \<Rightarrow> 'cb timer_manager \<Rightarrow> 'cb timer_manager \<times> 'cb option list" where
  "collect_expired now m =
     (case schedule m of [] \<Rightarrow> (m, [])
      | (when, tid) # rest \<Rightarrow>
          if when > now then (m, [])
          else let m1 = m\<lparr>schedule := rest, scheduled_timers := (scheduled_timers m)(tid := None)\<rparr>
               in (case timers m1 tid of None \<Rightarrow> collect_expired now m1
                   | Some timer \<Rightarrow>
                       let m2 = m1\<lparr>timers := (timers m1)(tid := None)\<rparr>
                       in if tm_cancelled timer then collect_expired now m2
                          else case collect_expired now m2 of
                                 (m3, cbs) \<Rightarrow> (m3, tm_callback timer # cbs)))"
  by pat_completeness auto
termination
  by (relation "measure (\<lambda>(now, m). length (schedule m))") (auto simp: Let_def)

declare collect_expired.simps [simp del]

text \<open>
  Running the collected callbacks: before each one the thread reads \<open>running_\<close> and stops once
  it is false; an empty function is skipped. The values the reads return are an argument.
\<close>

fun run_callbacks :: "bool list \<Rightarrow> 'cb option list \<Rightarrow> 'cb list" where
  "run_callbacks rs [] = []"
| "run_callbacks [] (cb # cbs) = []"
| "run_callbacks (r # rs) (cb # cbs) =
     (if \<not> r then [] else (case cb of None \<Rightarrow> [] | Some f \<Rightarrow> [f]) @ run_callbacks rs cbs)"

section \<open>Invariant\<close>

definition tm_inv :: "'cb timer_manager \<Rightarrow> bool" where
  "tm_inv m \<longleftrightarrow>
     sorted (map fst (schedule m)) \<and> distinct (map snd (schedule m)) \<and>
     dom (timers m) = snd ` set (schedule m) \<and>
     (\<forall>(when, tid) \<in> set (schedule m).
        scheduled_timers m tid = Some (when, tid) \<and> 0 < tid \<and> tid < next_id m \<and>
        (\<exists>timer. timers m tid = Some timer \<and> tm_id timer = tid \<and> tm_expire timer = when \<and>
                 \<not> tm_cancelled timer)) \<and>
     dom (scheduled_timers m) = snd ` set (schedule m) \<and> 0 < next_id m"

definition tm_entry :: "'cb timer_manager \<Rightarrow> time \<times> timer_id \<Rightarrow> time \<times> timer_id \<times> 'cb option" where
  "tm_entry m n = (fst n, snd n, (case timers m (snd n) of None \<Rightarrow> None | Some timer \<Rightarrow> tm_callback timer))"

definition tm_entries :: "'cb timer_manager \<Rightarrow> (time \<times> timer_id \<times> 'cb option) list" where
  "tm_entries m = map (tm_entry m) (schedule m)"

lemma tm_inv_new: "tm_inv TimerManager_new" and tm_entries_new: "tm_entries TimerManager_new = []"
  by (simp_all add: tm_inv_def tm_entries_def TimerManager_new_def)

lemma tm_entry_simps [simp]: "fst (tm_entry m n) = fst n" "entry_id (tm_entry m n) = snd n"
  by (simp_all add: tm_entry_def entry_id_def)

lemma tm_invD:
  assumes "tm_inv m" "(when, tid) \<in> set (schedule m)"
  obtains timer where "timers m tid = Some timer" "tm_id timer = tid" "tm_expire timer = when"
    "\<not> tm_cancelled timer" "scheduled_timers m tid = Some (when, tid)" "0 < tid" "tid < next_id m"
  using assms unfolding tm_inv_def by fastforce

lemma schedule_node_unique:
  assumes "tm_inv m" "(t, i) \<in> set (schedule m)" "(t', i) \<in> set (schedule m)"
  shows "t = t'"
  using assms by (metis Pair_inject option.inject tm_invD)

lemma tm_entries_sorted: "tm_inv m \<Longrightarrow> sorted (map fst (tm_entries m))"
  by (simp add: tm_entries_def tm_inv_def comp_def)

section \<open>Each operation refines its list function\<close>

lemma add_timer_refines:
  assumes inv: "tm_inv m" and run: "running m"
  shows "fst (add_timer now d cb m) = next_id m" (is ?tid)
    and "tm_entries (snd (add_timer now d cb m)) =
           emplace (now + 1000000 * uint d, next_id m, cb) (tm_entries m)" (is ?entries)
    and "next_id m + 1 \<noteq> 0 \<Longrightarrow> tm_inv (snd (add_timer now d cb m))" (is "_ \<Longrightarrow> ?inv")
    and "running (snd (add_timer now d cb m))" (is ?run)
    and "next_id (snd (add_timer now d cb m)) = next_id m + 1" (is ?next)
proof -
  let ?w = "now + 1000000 * uint d" and ?i = "next_id m"
  let ?m = "snd (add_timer now d cb m)"
  have new: "?i \<notin> snd ` set (schedule m)"
    using inv by (auto elim!: tm_invD [OF inv])
  have m: "schedule ?m = emplace (?w, ?i) (schedule m)" "next_id ?m = ?i + 1" "running ?m"
    "timers ?m = (timers m)(?i \<mapsto> Timer_new ?i d cb now)"
    "scheduled_timers ?m = (scheduled_timers m)(?i \<mapsto> (?w, ?i))"
    using run by (simp_all add: add_timer_def Let_def Timer_new_def)
  show ?tid using run by (simp add: add_timer_def Let_def)
  show ?run ?next using m by simp_all
  have old: "\<forall>(when, tid)\<in>set (schedule m). tid \<noteq> ?i" using new by force
  have same: "map (tm_entry ?m) (schedule m) = map (tm_entry m) (schedule m)"
    using old by (auto simp: tm_entry_def m)
  have "tm_entry ?m (?w, ?i) = (?w, ?i, cb)" by (simp add: tm_entry_def m Timer_new_def)
  moreover have "map (tm_entry ?m) (emplace (?w, ?i) (schedule m)) =
      emplace (tm_entry ?m (?w, ?i)) (map (tm_entry ?m) (schedule m))"
    by (rule map_emplace) simp
  ultimately show ?entries using same by (simp only: tm_entries_def m)
  assume wrap: "?i + 1 \<noteq> 0"
  then have less: "?i < ?i + 1" by (rule word_less_add_1)
  have pos: "0 < ?i" using inv by (simp add: tm_inv_def)
  show ?inv
    unfolding tm_inv_def m
  proof (intro conjI)
    show "sorted (map fst (emplace (?w, ?i) (schedule m)))"
      using inv by (intro sorted_emplace) (simp add: tm_inv_def)
    show "distinct (map snd (emplace (?w, ?i) (schedule m)))"
      using inv new by (simp add: distinct_emplace tm_inv_def)
    show "\<forall>(when, tid)\<in>set (emplace (?w, ?i) (schedule m)).
        ((scheduled_timers m)(?i \<mapsto> (?w, ?i))) tid = Some (when, tid) \<and> 0 < tid \<and> tid < ?i + 1 \<and>
        (\<exists>timer. ((timers m)(?i \<mapsto> Timer_new ?i d cb now)) tid = Some timer \<and> tm_id timer = tid \<and>
           tm_expire timer = when \<and> \<not> tm_cancelled timer)"
      using inv old less pos unfolding tm_inv_def by (fastforce simp: Timer_new_def)
  qed (use inv less pos in \<open>auto simp: tm_inv_def word_gt_0\<close>)
qed

text \<open>Keeping some of the nodes, and exactly their timers, keeps the invariant.\<close>

definition keeps_nodes :: "'cb timer_manager \<Rightarrow> 'cb timer_manager \<Rightarrow> (time \<times> timer_id) list \<Rightarrow> bool" where
  "keeps_nodes m m' ns \<longleftrightarrow> schedule m' = ns \<and> timers m' = timers m |` (snd ` set ns) \<and>
     scheduled_timers m' = scheduled_timers m |` (snd ` set ns) \<and>
     next_id m' = next_id m \<and> running m' = running m"

lemma keeps_nodes_inv:
  assumes inv: "tm_inv m" and keep: "keeps_nodes m m' ns" and sub: "set ns \<subseteq> set (schedule m)"
    and ord: "sorted (map fst ns)" and dist: "distinct (map snd ns)"
  shows "tm_inv m'" and "tm_entries m' = map (tm_entry m) ns"
proof -
  have m': "schedule m' = ns" "timers m' = timers m |` (snd ` set ns)" "next_id m' = next_id m"
    "scheduled_timers m' = scheduled_timers m |` (snd ` set ns)"
    using keep by (simp_all add: keeps_nodes_def)
  have "snd ` set ns \<subseteq> dom (timers m)" "snd ` set ns \<subseteq> dom (scheduled_timers m)"
    using inv sub by (auto simp: tm_inv_def)
  then have "dom (timers m') = snd ` set ns" "dom (scheduled_timers m') = snd ` set ns"
    unfolding m' by auto
  moreover have "\<forall>(when, tid)\<in>set ns. scheduled_timers m' tid = Some (when, tid) \<and> 0 < tid \<and>
      tid < next_id m \<and> (\<exists>timer. timers m' tid = Some timer \<and> tm_id timer = tid \<and>
        tm_expire timer = when \<and> \<not> tm_cancelled timer)"
  proof clarify
    fix t i assume n: "(t, i) \<in> set ns"
    then have "i \<in> snd ` set ns" by force
    moreover obtain timer where "timers m i = Some timer" "tm_id timer = i" "tm_expire timer = t"
      "\<not> tm_cancelled timer" "scheduled_timers m i = Some (t, i)" "0 < i" "i < next_id m"
      using n sub by (auto elim: tm_invD [OF inv])
    ultimately show "scheduled_timers m' i = Some (t, i) \<and> 0 < i \<and> i < next_id m \<and>
      (\<exists>timer. timers m' i = Some timer \<and> tm_id timer = i \<and> tm_expire timer = t \<and> \<not> tm_cancelled timer)"
      unfolding m' by simp
  qed
  ultimately show "tm_inv m'"
    using inv ord dist by (simp add: tm_inv_def m')
  show "tm_entries m' = map (tm_entry m) ns"
    by (auto simp: tm_entries_def tm_entry_def m')
qed

lemma remove1_node:
  "distinct (map snd ns) \<Longrightarrow> (t, i) \<in> set ns \<Longrightarrow> remove1 (t, i) ns = filter (\<lambda>n. snd n \<noteq> i) ns"
proof (induction ns)
  case (Cons n ns)
  show ?case
  proof (cases "n = (t, i)")
    case True
    with Cons.prems(1) have "\<forall>k\<in>set ns. snd k \<noteq> i" by force
    with True show ?thesis by (simp add: filter_id_conv)
  next
    case False
    with Cons.prems(2) have mem: "(t, i) \<in> set ns" by auto
    then have "i \<in> snd ` set ns" by force
    with Cons.prems(1) have "snd n \<noteq> i" by auto
    with Cons mem False show ?thesis by auto
  qed
qed simp

lemma restrict_dom: "f |` dom f = f"
  by (auto simp: restrict_map_def fun_eq_iff domIff)

lemma map_restrict_drop:
  assumes "dom f = A" and "B = A - {i}"
  shows "f(i := None) = f |` B"
  using assms by (auto simp: restrict_map_def fun_eq_iff domIff)

lemma cancel_timer_keeps:
  assumes inv: "tm_inv m" and run: "running m"
  shows "keeps_nodes m (cancel_timer i m) (filter (\<lambda>n. snd n \<noteq> i) (schedule m))"
proof -
  let ?ns = "filter (\<lambda>n. snd n \<noteq> i) (schedule m)"
  have dom: "dom (timers m) = snd ` set (schedule m)" "dom (scheduled_timers m) = snd ` set (schedule m)"
    using inv by (simp_all add: tm_inv_def)
  have ids: "snd ` set ?ns = snd ` set (schedule m) - {i}" by auto
  note drop = map_restrict_drop [OF dom(1) ids] map_restrict_drop [OF dom(2) ids]
  show ?thesis
  proof (cases "timers m i")
    case None
    then have out: "i \<notin> snd ` set (schedule m)" using dom(1) by auto
    then have "?ns = schedule m" by (force simp: filter_id_conv)
    moreover have "scheduled_timers m i = None" using out dom(2) by auto
    ultimately show ?thesis
      using None run drop by (simp add: keeps_nodes_def cancel_timer_def fun_upd_idem)
  next
    case (Some timer)
    then obtain t where n: "(t, i) \<in> set (schedule m)" using dom(1) by force
    then have "scheduled_timers m i = Some (t, i)" by (elim tm_invD [OF inv])
    moreover have "remove1 (t, i) (schedule m) = ?ns"
      using inv n by (intro remove1_node) (simp_all add: tm_inv_def)
    ultimately show ?thesis
      using Some run drop by (simp add: keeps_nodes_def cancel_timer_def Let_def)
  qed
qed

lemma cancel_timer_refines:
  assumes inv: "tm_inv m" and run: "running m"
  shows "tm_entries (cancel_timer i m) = filter (\<lambda>e. entry_id e \<noteq> i) (tm_entries m)"
    and "tm_inv (cancel_timer i m)" and "running (cancel_timer i m)"
    and "next_id (cancel_timer i m) = next_id m"
proof -
  let ?ns = "filter (\<lambda>n. snd n \<noteq> i) (schedule m)"
  note keep = cancel_timer_keeps [OF inv run, of i]
  have "sorted (map fst ?ns)" "distinct (map snd ?ns)"
    using inv by (simp_all add: tm_inv_def sorted_filter distinct_map_filter)
  note K = keeps_nodes_inv [OF inv keep _ this]
  show "tm_inv (cancel_timer i m)" by (rule K) auto
  have "tm_entries (cancel_timer i m) = map (tm_entry m) ?ns" by (rule K) auto
  then show "tm_entries (cancel_timer i m) = filter (\<lambda>e. entry_id e \<noteq> i) (tm_entries m)"
    by (simp add: tm_entries_def filter_map comp_def)
  show "running (cancel_timer i m)" "next_id (cancel_timer i m) = next_id m"
    using keep run by (simp_all add: keeps_nodes_def)
qed

lemma collect_expired_keeps:
  assumes "tm_inv m"
  shows "keeps_nodes m (fst (collect_expired now m)) (dropWhile (\<lambda>n. fst n \<le> now) (schedule m)) \<and>
    snd (collect_expired now m) = map (entry_cb \<circ> tm_entry m) (takeWhile (\<lambda>n. fst n \<le> now) (schedule m))"
  using assms
proof (induction now m rule: collect_expired.induct)
  case (1 now m)
  note inv = 1(4)
  have dom: "dom (timers m) = snd ` set (schedule m)" "dom (scheduled_timers m) = snd ` set (schedule m)"
    using inv by (simp_all add: tm_inv_def)
  have all: "timers m |` (snd ` set (schedule m)) = timers m"
    "scheduled_timers m |` (snd ` set (schedule m)) = scheduled_timers m"
    using restrict_dom [of "timers m"] restrict_dom [of "scheduled_timers m"] dom by simp_all
  show ?case
  proof (cases "schedule m")
    case Nil
    then show ?thesis using all
      by (simp add: collect_expired.simps [of now m] keeps_nodes_def)
  next
    case (Cons n rest)
    obtain t i where n: "n = (t, i)" by (cases n)
    show ?thesis
    proof (cases "now < t")
      case True
      with Cons n all show ?thesis
        by (simp add: collect_expired.simps [of now m] keeps_nodes_def)
    next
      case due: False
      let ?m = "m\<lparr>schedule := rest, scheduled_timers := (scheduled_timers m)(i := None),
                 timers := (timers m)(i := None)\<rparr>"
      obtain timer where tm: "timers m i = Some timer" "\<not> tm_cancelled timer"
        using tm_invD [OF inv, of t i] Cons n by auto
      have fresh: "i \<notin> snd ` set rest" using inv Cons n by (auto simp: tm_inv_def)
      have ids: "snd ` set rest = snd ` set (schedule m) - {i}" using Cons n fresh by auto
      have keep: "keeps_nodes m ?m rest"
        unfolding keeps_nodes_def
        using map_restrict_drop [OF dom(1) ids] map_restrict_drop [OF dom(2) ids] by simp
      have "set rest \<subseteq> set (schedule m)" "sorted (map fst rest)" "distinct (map snd rest)"
        using inv Cons n by (auto simp: tm_inv_def)
      note K = keeps_nodes_inv [OF inv keep this]
      have IH: "keeps_nodes ?m (fst (collect_expired now ?m)) (dropWhile (\<lambda>n. fst n \<le> now) rest) \<and>
          snd (collect_expired now ?m) = map (entry_cb \<circ> tm_entry ?m) (takeWhile (\<lambda>n. fst n \<le> now) rest)"
        using 1(3) [OF Cons n [symmetric] _ refl _ refl, of timer] due tm K(1) by simp
      have step: "collect_expired now m =
          (fst (collect_expired now ?m), tm_callback timer # snd (collect_expired now ?m))"
        using Cons n due tm by (subst collect_expired.simps) (simp add: Let_def split_beta)
      let ?r = "dropWhile (\<lambda>n. fst n \<le> now) rest"
      have sub: "snd ` set ?r \<subseteq> snd ` set rest" using set_dropWhileD by fastforce
      have "keeps_nodes m (fst (collect_expired now ?m)) ?r"
        using IH keep sub unfolding keeps_nodes_def by (auto simp: Int_absorb1)
      moreover have "map (entry_cb \<circ> tm_entry ?m) (takeWhile (\<lambda>n. fst n \<le> now) rest) =
          map (entry_cb \<circ> tm_entry m) (takeWhile (\<lambda>n. fst n \<le> now) rest)"
        using fresh by (force simp: entry_cb_def tm_entry_def dest: set_takeWhileD)
      ultimately show ?thesis
        using step IH Cons n due tm by (simp add: entry_cb_def tm_entry_def)
    qed
  qed
qed

lemma collect_expired_refines:
  assumes inv: "tm_inv m"
  shows "tm_entries (fst (collect_expired now m)) = dropWhile (\<lambda>e. fst e \<le> now) (tm_entries m)"
    and "snd (collect_expired now m) = map entry_cb (takeWhile (\<lambda>e. fst e \<le> now) (tm_entries m))"
    and "tm_inv (fst (collect_expired now m))"
    and "running (fst (collect_expired now m)) = running m"
    and "next_id (fst (collect_expired now m)) = next_id m"
proof -
  let ?ns = "dropWhile (\<lambda>n. fst n \<le> now) (schedule m)"
  note C = collect_expired_keeps [OF inv, of now]
  have "set ?ns \<subseteq> set (schedule m)" by (auto dest: set_dropWhileD)
  moreover have "sorted (map fst ?ns)" "distinct (map snd ?ns)"
  proof -
    let ?xs = "takeWhile (\<lambda>n. fst n \<le> now) (schedule m) @ ?ns"
    have "sorted (map fst ?xs)" "distinct (map snd ?xs)"
      using inv by (simp_all only: takeWhile_dropWhile_id) (simp_all add: tm_inv_def)
    then show "sorted (map fst ?ns)" "distinct (map snd ?ns)"
      by (simp_all only: map_append sorted_append distinct_append)
  qed
  ultimately have K: "tm_inv (fst (collect_expired now m))"
      "tm_entries (fst (collect_expired now m)) = map (tm_entry m) ?ns"
    using keeps_nodes_inv [OF inv] C by auto
  show "tm_inv (fst (collect_expired now m))" by (rule K)
  show "tm_entries (fst (collect_expired now m)) = dropWhile (\<lambda>e. fst e \<le> now) (tm_entries m)"
    using K(2) by (simp add: tm_entries_def dropWhile_map comp_def)
  show "snd (collect_expired now m) = map entry_cb (takeWhile (\<lambda>e. fst e \<le> now) (tm_entries m))"
    using C by (simp add: tm_entries_def takeWhile_map comp_def)
  show "running (fst (collect_expired now m)) = running m"
    "next_id (fst (collect_expired now m)) = next_id m"
    using C by (simp_all add: keeps_nodes_def)
qed

lemma tm_next_pos: "tm_inv m \<Longrightarrow> 0 < next_id m"
  by (simp add: tm_inv_def)

lemma tm_entries_below:
  "tm_inv m \<Longrightarrow> e \<in> set (tm_entries m) \<Longrightarrow> 0 < entry_id e \<and> entry_id e < next_id m"
  by (auto simp: tm_entries_def elim!: tm_invD)

lemma tm_entries_id_unique:
  assumes "tm_inv m" "e \<in> set (tm_entries m)" "e' \<in> set (tm_entries m)" "entry_id e = entry_id e'"
  shows "e = e'"
  using assms schedule_node_unique [OF assms(1)]
  by (auto simp: tm_entries_def tm_entry_def entry_id_def)

text \<open>The contract, for a manager that has not been shut down.\<close>

interpretation tq: timer_queue tm_entries "\<lambda>m. tm_inv m \<and> running m" next_id add_timer cancel_timer
    collect_expired
  by unfold_locales
     (auto simp: tm_entries_sorted tm_entries_below add_timer_refines cancel_timer_refines
                 collect_expired_refines tm_next_pos)

section \<open>The timer thread and its callers\<close>

text \<open>
  Where the timer thread stands in \<open>timer_thread_func_\<close>. In the states named \<open>_test\<close>, \<open>_block\<close>
  and \<open>After_\<close> it holds \<open>mutex_\<close>; blocking on the condition variable releases it. \<open>_block\<close> is
  the point between evaluating a wait predicate to false and being registered as a waiter.
\<close>

datatype 'cb thread_pc =
    At_loop
  | At_lock
  | Wait_test
  | Wait_block
  | Asleep
  | Woken
  | After_wait
  | Until_test time
  | Until_block time
  | Until_asleep time
  | Until_woken time
  | After_until
  | Firing "'cb option list"
  | Exited

text \<open>Where a caller stands in \<open>TimerManager::shutdown\<close>.\<close>

datatype shutdown_pc = Not_called | Flag_cleared | Notified | Joined | Shut_done

record 'cb timer_system =
  mgr :: "'cb timer_manager"
  tpc :: "'cb thread_pc"
  spc :: shutdown_pc
  clock :: time
  ran :: "'cb list"

fun holds_mutex :: "'cb thread_pc \<Rightarrow> bool" where
  "holds_mutex Wait_test = True"
| "holds_mutex Wait_block = True"
| "holds_mutex After_wait = True"
| "holds_mutex (Until_test t) = True"
| "holds_mutex (Until_block t) = True"
| "holds_mutex After_until = True"
| "holds_mutex _ = False"

text \<open>A notification moves the thread only when it is registered as a waiter.\<close>

fun notify :: "'cb thread_pc \<Rightarrow> 'cb thread_pc" where
  "notify Asleep = Woken"
| "notify (Until_asleep t) = Until_woken t"
| "notify pc = pc"

definition wait_pred :: "'cb timer_manager \<Rightarrow> bool" where
  "wait_pred m \<longleftrightarrow> \<not> running m \<or> schedule m \<noteq> []"

definition until_pred :: "time \<Rightarrow> 'cb timer_manager \<Rightarrow> bool" where
  "until_pred earliest m \<longleftrightarrow>
     \<not> running m \<or> schedule m = [] \<or> fst (hd (schedule m)) < earliest"

inductive timer_step :: "'cb timer_system \<Rightarrow> 'cb timer_system \<Rightarrow> bool" where
  loop_enter: "tpc s = At_loop \<Longrightarrow> running (mgr s) \<Longrightarrow> timer_step s (s\<lparr>tpc := At_lock\<rparr>)"
| loop_leave: "tpc s = At_loop \<Longrightarrow> \<not> running (mgr s) \<Longrightarrow> timer_step s (s\<lparr>tpc := Exited\<rparr>)"
| lock: "tpc s = At_lock \<Longrightarrow> timer_step s (s\<lparr>tpc := Wait_test\<rparr>)"
| wait_true: "tpc s = Wait_test \<Longrightarrow> wait_pred (mgr s) \<Longrightarrow> timer_step s (s\<lparr>tpc := After_wait\<rparr>)"
| wait_false: "tpc s = Wait_test \<Longrightarrow> \<not> wait_pred (mgr s) \<Longrightarrow> timer_step s (s\<lparr>tpc := Wait_block\<rparr>)"
| wait_sleep: "tpc s = Wait_block \<Longrightarrow> timer_step s (s\<lparr>tpc := Asleep\<rparr>)"
| wait_relock: "tpc s = Woken \<Longrightarrow> timer_step s (s\<lparr>tpc := Wait_test\<rparr>)"
| after_wait_break: "tpc s = After_wait \<Longrightarrow> \<not> running (mgr s) \<Longrightarrow> timer_step s (s\<lparr>tpc := Exited\<rparr>)"
| after_wait_go: "tpc s = After_wait \<Longrightarrow> running (mgr s) \<Longrightarrow> schedule (mgr s) = (t, i) # rest \<Longrightarrow>
    timer_step s (s\<lparr>tpc := Until_test t\<rparr>)"
| until_true: "tpc s = Until_test t \<Longrightarrow> until_pred t (mgr s) \<Longrightarrow> timer_step s (s\<lparr>tpc := After_until\<rparr>)"
| until_false: "tpc s = Until_test t \<Longrightarrow> \<not> until_pred t (mgr s) \<Longrightarrow>
    timer_step s (s\<lparr>tpc := Until_block t\<rparr>)"
| until_sleep: "tpc s = Until_block t \<Longrightarrow> timer_step s (s\<lparr>tpc := Until_asleep t\<rparr>)"
| until_timeout: "tpc s = Until_asleep t \<Longrightarrow> t \<le> clock s \<Longrightarrow> timer_step s (s\<lparr>tpc := After_until\<rparr>)"
| until_relock: "tpc s = Until_woken t \<Longrightarrow> timer_step s (s\<lparr>tpc := Until_test t\<rparr>)"
| after_until_break: "tpc s = After_until \<Longrightarrow> \<not> running (mgr s) \<Longrightarrow> timer_step s (s\<lparr>tpc := Exited\<rparr>)"
| collect: "tpc s = After_until \<Longrightarrow> running (mgr s) \<Longrightarrow>
    collect_expired (clock s) (mgr s) = (m', cbs) \<Longrightarrow>
    timer_step s (s\<lparr>mgr := m', tpc := Firing cbs\<rparr>)"
| fire_break: "tpc s = Firing (cb # cbs) \<Longrightarrow> \<not> running (mgr s) \<Longrightarrow> timer_step s (s\<lparr>tpc := At_loop\<rparr>)"
| fire: "tpc s = Firing (cb # cbs) \<Longrightarrow> running (mgr s) \<Longrightarrow>
    timer_step s (s\<lparr>tpc := Firing cbs,
      ran := ran s @ (case cb of None \<Rightarrow> [] | Some f \<Rightarrow> [f])\<rparr>)"
| fire_done: "tpc s = Firing [] \<Longrightarrow> timer_step s (s\<lparr>tpc := At_loop\<rparr>)"
| tick: "0 \<le> dt \<Longrightarrow> timer_step s (s\<lparr>clock := clock s + dt\<rparr>)"
| call_add: "\<not> holds_mutex (tpc s) \<Longrightarrow> next_id (mgr s) + 1 \<noteq> 0 \<Longrightarrow>
    timer_step s (s\<lparr>mgr := snd (add_timer (clock s) d cb (mgr s)),
      tpc := (if running (mgr s) then notify (tpc s) else tpc s)\<rparr>)"
| call_cancel: "\<not> holds_mutex (tpc s) \<Longrightarrow>
    timer_step s (s\<lparr>mgr := cancel_timer i (mgr s),
      tpc := (if running (mgr s) \<and> timers (mgr s) i \<noteq> None then notify (tpc s) else tpc s)\<rparr>)"
| shutdown_flag: "spc s = Not_called \<Longrightarrow> running (mgr s) \<Longrightarrow>
    timer_step s (s\<lparr>mgr := (mgr s)\<lparr>running := False\<rparr>, spc := Flag_cleared\<rparr>)"
| shutdown_notify: "spc s = Flag_cleared \<Longrightarrow>
    timer_step s (s\<lparr>tpc := notify (tpc s), spc := Notified\<rparr>)"
| shutdown_join: "spc s = Notified \<Longrightarrow> tpc s = Exited \<Longrightarrow> timer_step s (s\<lparr>spc := Joined\<rparr>)"
| shutdown_clear: "spc s = Joined \<Longrightarrow> \<not> holds_mutex (tpc s) \<Longrightarrow>
    timer_step s (s\<lparr>mgr := clear_timers (mgr s), spc := Shut_done\<rparr>)"

definition timer_init :: "'cb timer_system" where
  "timer_init = \<lparr>mgr = TimerManager_new, tpc = At_loop, spc = Not_called, clock = 0, ran = []\<rparr>"

inductive timer_reachable :: "'cb timer_system \<Rightarrow> bool" where
  init: "timer_reachable timer_init"
| step: "timer_reachable s \<Longrightarrow> timer_step s t \<Longrightarrow> timer_reachable t"

section \<open>Invariant of the thread\<close>

text \<open>What the thread may rely on at each point while the manager runs.\<close>

fun pc_ok :: "'cb timer_manager \<Rightarrow> 'cb thread_pc \<Rightarrow> bool" where
  "pc_ok m Wait_block = (running m \<longrightarrow> schedule m = [])"
| "pc_ok m Asleep = (running m \<longrightarrow> schedule m = [])"
| "pc_ok m After_wait = (running m \<longrightarrow> schedule m \<noteq> [])"
| "pc_ok m (Until_block t) = (running m \<longrightarrow> (\<forall>n\<in>set (schedule m). t \<le> fst n))"
| "pc_ok m (Until_asleep t) = (running m \<longrightarrow> (\<forall>n\<in>set (schedule m). t \<le> fst n))"
| "pc_ok m Exited = (\<not> running m)"
| "pc_ok m _ = True"

definition timer_sys_inv :: "'cb timer_system \<Rightarrow> bool" where
  "timer_sys_inv s \<longleftrightarrow> tm_inv (mgr s) \<and> pc_ok (mgr s) (tpc s) \<and>
     (spc s \<noteq> Not_called \<longrightarrow> \<not> running (mgr s)) \<and>
     (spc s \<in> {Joined, Shut_done} \<longrightarrow> tpc s = Exited) \<and>
     (spc s = Shut_done \<longrightarrow> schedule (mgr s) = [] \<and> timers (mgr s) = Map.empty)"

lemma add_timer_stopped: "\<not> running m \<Longrightarrow> snd (add_timer now d cb m) = m"
  by (simp add: add_timer_def)

lemma cancel_timer_stopped: "\<not> running m \<Longrightarrow> cancel_timer i m = m"
  by (simp add: cancel_timer_def)

lemma cancel_timer_unknown: "timers m i = None \<Longrightarrow> cancel_timer i m = m"
  by (simp add: cancel_timer_def)

lemma not_until_pred:
  assumes "tm_inv m" "\<not> until_pred t m"
  shows "\<forall>n\<in>set (schedule m). t \<le> fst n"
  using assms by (cases "schedule m") (fastforce simp: until_pred_def tm_inv_def)+

lemma tm_inv_running [simp]: "tm_inv (m\<lparr>running := r\<rparr>) = tm_inv m"
  by (simp add: tm_inv_def)

lemma tm_inv_clear: "tm_inv m \<Longrightarrow> tm_inv (clear_timers m)"
  by (simp add: tm_inv_def clear_timers_def)

lemma pc_ok_stopped: "\<not> running m \<Longrightarrow> pc_ok m pc"
  by (cases pc) auto

lemma timer_step_inv: "timer_step s t \<Longrightarrow> timer_sys_inv s \<Longrightarrow> timer_sys_inv t"
proof (induction rule: timer_step.induct)
  case (call_add s d cb)
  show ?case
  proof (cases "running (mgr s)")
    case True
    have "pc_ok m (notify (tpc s))" if "\<not> holds_mutex (tpc s)" "tpc s \<noteq> Exited" for m :: "'a timer_manager"
      using that by (cases "tpc s") auto
    then have "pc_ok (snd (add_timer (clock s) d cb (mgr s))) (notify (tpc s))"
      using call_add True by (cases "tpc s") (auto simp: timer_sys_inv_def)
    with call_add True show ?thesis
      by (auto simp: timer_sys_inv_def add_timer_refines)
  qed (use call_add in \<open>simp add: add_timer_stopped\<close>)
next
  case (call_cancel s i)
  show ?case
  proof (cases "running (mgr s) \<and> timers (mgr s) i \<noteq> None")
    case True
    then have "pc_ok (cancel_timer i (mgr s)) (notify (tpc s))"
      using call_cancel by (cases "tpc s") (auto simp: timer_sys_inv_def)
    with call_cancel True show ?thesis
      by (auto simp: timer_sys_inv_def cancel_timer_refines)
  next
    case False
    then show ?thesis
      using call_cancel by (auto simp: cancel_timer_stopped cancel_timer_unknown)
  qed
next
  case (collect s m' cbs)
  then show ?case
    using collect_expired_refines [of "mgr s" "clock s"] by (auto simp: timer_sys_inv_def)
next
  case (until_false s t)
  then show ?case using not_until_pred by (auto simp: timer_sys_inv_def)
next
  case (shutdown_notify s)
  then show ?case by (auto simp: timer_sys_inv_def pc_ok_stopped)
next
  case (shutdown_clear s)
  then show ?case
    using tm_inv_clear [of "mgr s"] by (auto simp: timer_sys_inv_def clear_timers_def)
qed (auto simp: timer_sys_inv_def wait_pred_def pc_ok_stopped)

lemma timer_reachable_inv: "timer_reachable s \<Longrightarrow> timer_sys_inv s"
proof (induction rule: timer_reachable.induct)
  case init
  show ?case by (simp add: timer_sys_inv_def timer_init_def tm_inv_new)
next
  case (step s t)
  then show ?case by (blast intro: timer_step_inv)
qed

section \<open>A shutdown that hangs\<close>

text \<open>
  The state in which the thread sleeps although the flag is cleared and the notification has
  already been sent, and that it is closed under every step of the system.
\<close>

definition lost_wakeup :: "'cb timer_system \<Rightarrow> bool" where
  "lost_wakeup s \<longleftrightarrow> tpc s = Asleep \<and> spc s = Notified \<and> \<not> running (mgr s)"

lemma lost_wakeup_step: "timer_step s t \<Longrightarrow> lost_wakeup s \<Longrightarrow> lost_wakeup t"
  by (induction rule: timer_step.induct)
     (auto simp: lost_wakeup_def add_timer_stopped cancel_timer_stopped)

lemma lost_wakeup_forever: "timer_step\<^sup>*\<^sup>* s t \<Longrightarrow> lost_wakeup s \<Longrightarrow> lost_wakeup t"
  by (induction rule: rtranclp_induct) (auto intro: lost_wakeup_step)

lemma reach_step: "timer_reachable s \<Longrightarrow> timer_step s t' \<Longrightarrow> t' = t \<Longrightarrow> timer_reachable t"
  by (auto intro: timer_reachable.step)

lemma lost_wakeup_reachable:
  "timer_reachable (timer_init\<lparr>mgr := TimerManager_new\<lparr>running := False\<rparr>, tpc := Asleep, spc := Notified\<rparr>)"
proof -
  let ?i = "timer_init :: 'a timer_system"
  let ?m = "TimerManager_new\<lparr>running := False\<rparr>"
  have 1: "timer_reachable (?i\<lparr>tpc := At_lock\<rparr>)"
    by (rule reach_step [OF timer_reachable.init loop_enter]) (simp_all add: timer_init_def TimerManager_new_def)
  have 2: "timer_reachable (?i\<lparr>tpc := Wait_test\<rparr>)"
    by (rule reach_step [OF 1 lock]) simp_all
  have 3: "timer_reachable (?i\<lparr>tpc := Wait_block\<rparr>)"
    by (rule reach_step [OF 2 wait_false])
       (simp_all add: wait_pred_def timer_init_def TimerManager_new_def)
  have 4: "timer_reachable (?i\<lparr>mgr := ?m, tpc := Wait_block, spc := Flag_cleared\<rparr>)"
    by (rule reach_step [OF 3 shutdown_flag]) (simp_all add: timer_init_def TimerManager_new_def)
  have 5: "timer_reachable (?i\<lparr>mgr := ?m, tpc := Wait_block, spc := Notified\<rparr>)"
    by (rule reach_step [OF 4 shutdown_notify]) simp_all
  show ?thesis
    by (rule reach_step [OF 5 wait_sleep]) simp_all
qed

section \<open>Properties\<close>

text \<open>
  C35. Every callback is accounted for exactly once. Over any run of additions, cancellations
  and expirations of a manager that is not shut down, and as long as fewer than \<open>2^64\<close> ids are
  handed out, the callbacks added are precisely those that fired, those whose timer was
  cancelled and those still scheduled: none fires twice, none is lost, and a cancelled one
  does not fire.
\<close>

theorem timer_callbacks_conserved:
  assumes "tm_inv m" and "running m" and "unat (next_id m) + count_adds ops < 2 ^ 64"
    and "timer_run add_timer cancel_timer collect_expired tm_entries ops m
           \<lparr>added = [], fired = [], dropped = []\<rparr> = (m', l')"
  shows "tm_inv m' \<and>
    mset (map entry_cb (tm_entries m)) + mset (added l') =
    mset (fired l') + mset (dropped l') + mset (map entry_cb (tm_entries m'))"
  using tq.run_conserves [OF conjI [OF assms(1,2)] assms(3,4)] by (simp add: ac_simps)

theorem timer_callbacks_conserved_witness:
  "\<exists>m' l'. timer_run add_timer cancel_timer collect_expired tm_entries
       [Add 0 5 (Some ''a''), Add 0 2 (Some ''b''), Add 0 9 (Some ''c''), Cancel 1, Expire 3000000]
       TimerManager_new \<lparr>added = [], fired = [], dropped = []\<rparr> = (m', l') \<and>
     mset (added l') = mset (fired l') + mset (dropped l') + mset (map entry_cb (tm_entries m'))"
proof -
  obtain m' l' where r: "timer_run add_timer cancel_timer collect_expired tm_entries
       [Add 0 5 (Some ''a''), Add 0 2 (Some ''b''), Add 0 9 (Some ''c''), Cancel 1, Expire 3000000]
       TimerManager_new \<lparr>added = [], fired = [], dropped = []\<rparr> = (m', l')"
    by fastforce
  have "running TimerManager_new" by (simp add: TimerManager_new_def)
  moreover have "unat (next_id TimerManager_new) + count_adds
      [Add 0 5 (Some ''a''), Add 0 2 (Some ''b''), Add 0 9 (Some ''c''), Cancel 1, Expire 3000000] < 2 ^ 64"
    by (simp add: TimerManager_new_def)
  ultimately show ?thesis
    using timer_callbacks_conserved [OF tm_inv_new _ _ r] r by (auto simp: tm_entries_new)
qed

text \<open>
  What an expiration pass does: it hands over the callbacks of exactly the timers whose
  deadline is not after the clock, in the order of their deadlines (equal deadlines in the
  order they were added); every timer that stays is later than the clock, and the three
  containers stay consistent.
\<close>

lemma collect_expired_exact:
  assumes "tm_inv m"
  shows "snd (collect_expired now m) = map entry_cb (filter (\<lambda>e. fst e \<le> now) (tm_entries m)) \<and>
    tm_entries (fst (collect_expired now m)) = filter (\<lambda>e. now < fst e) (tm_entries m) \<and>
    sorted (map fst (filter (\<lambda>e. fst e \<le> now) (tm_entries m))) \<and>
    tm_inv (fst (collect_expired now m))"
  using collect_expired_refines [OF assms, of now] tm_entries_sorted [OF assms]
  by (simp add: sorted_takeWhile_filter sorted_dropWhile_filter sorted_filter not_le)

definition sample_timers :: "string timer_manager" where
  "sample_timers = snd (add_timer 0 2 (Some ''b'') (snd (add_timer 0 5 (Some ''a'') TimerManager_new)))"

lemma sample_timers_inv: "tm_inv sample_timers" "running sample_timers"
    "tm_entries sample_timers = [(2000000, 2, Some ''b''), (5000000, 1, Some ''a'')]"
proof -
  have new: "tm_inv TimerManager_new" "running TimerManager_new" "next_id TimerManager_new = 1"
    by (simp_all add: tm_inv_new) (simp_all add: TimerManager_new_def)
  note A = add_timer_refines [OF new(1,2), of 0 5 "Some ''a''"]
  have "tm_inv (snd (add_timer 0 5 (Some ''a'') TimerManager_new))" by (rule A(3)) (simp add: new)
  note B = add_timer_refines [OF this A(4), of 0 2 "Some ''b''"]
  show "tm_inv sample_timers" unfolding sample_timers_def by (rule B(3)) (simp add: A(5) new)
  show "running sample_timers" unfolding sample_timers_def by (rule B(4))
  show "tm_entries sample_timers = [(2000000, 2, Some ''b''), (5000000, 1, Some ''a'')]"
    unfolding sample_timers_def by (simp add: B(2) A(2,5) tm_entries_new new)
qed

text \<open>
  Cancelling removes exactly the timer of the given id: whatever the clock says later, an
  expiration pass hands over the due callbacks of all the other timers and not that one's.
  Cancelling right after adding leaves the schedule as it was.
\<close>

lemma cancel_timer_exact:
  assumes "tm_inv m" and "running m"
  shows "snd (collect_expired now (cancel_timer i m)) =
      map entry_cb (filter (\<lambda>e. entry_id e \<noteq> i \<and> fst e \<le> now) (tm_entries m)) \<and>
    (next_id m + 1 \<noteq> 0 \<longrightarrow>
      tm_entries (cancel_timer (fst (add_timer t d cb m)) (snd (add_timer t d cb m))) = tm_entries m)"
proof (intro conjI impI)
  note C = cancel_timer_refines [OF assms, of i]
  have "snd (collect_expired now (cancel_timer i m)) =
      map entry_cb (filter (\<lambda>e. fst e \<le> now) (filter (\<lambda>e. entry_id e \<noteq> i) (tm_entries m)))"
    using collect_expired_refines(2) [OF C(2), of now] tm_entries_sorted [OF C(2)]
    by (simp add: sorted_takeWhile_filter C(1))
  then show "snd (collect_expired now (cancel_timer i m)) =
      map entry_cb (filter (\<lambda>e. entry_id e \<noteq> i \<and> fst e \<le> now) (tm_entries m))" by simp
next
  assume "next_id m + 1 \<noteq> 0"
  note A = add_timer_refines [OF assms, of t d cb]
  show "tm_entries (cancel_timer (fst (add_timer t d cb m)) (snd (add_timer t d cb m))) = tm_entries m"
    using cancel_timer_refines(1) [OF A(3) A(4)] tq.cancel_undoes_add [OF conjI [OF assms]]
      \<open>next_id m + 1 \<noteq> 0\<close> by simp
qed

text \<open>
  C36. The timer thread never oversleeps. In every reachable interleaving of the thread with
  callers of \<open>add_timer\<close>, \<open>cancel_timer\<close> and \<open>shutdown\<close>, while the manager runs: the thread sleeps
  without a timeout only when nothing is scheduled, and sleeps until some instant only when no
  scheduled timer is due earlier. So a timer added while it sleeps, however short its delay,
  wakes it.
\<close>

theorem timer_thread_never_oversleeps:
  assumes "timer_reachable s" and "running (mgr s)"
  shows "(tpc s = Asleep \<longrightarrow> schedule (mgr s) = []) \<and>
    (\<forall>t. tpc s = Until_asleep t \<longrightarrow> (\<forall>n\<in>set (schedule (mgr s)). t \<le> fst n)) \<and>
    tpc s \<noteq> Exited \<and> tm_inv (mgr s)"
  using timer_reachable_inv [OF assms(1)] assms(2) by (fastforce simp: timer_sys_inv_def)

theorem timer_thread_never_oversleeps_witness:
  "timer_reachable (timer_init :: nat timer_system) \<and> running (mgr (timer_init :: nat timer_system)) \<and>
   tpc (timer_init :: nat timer_system) \<noteq> Exited"
proof -
  have "running (mgr (timer_init :: nat timer_system))"
    by (simp add: timer_init_def TimerManager_new_def)
  with timer_thread_never_oversleeps [OF timer_reachable.init this] show ?thesis
    by (simp add: timer_reachable.init)
qed

text \<open>
  C37. \<open>TimerManager::shutdown\<close> can hang. It clears \<open>running_\<close> and notifies without holding the
  mutex, so both can fall between the thread's evaluation of its wait predicate and its
  blocking on the condition variable. The notification then reaches nobody: a state is
  reachable from which, in every continuation, the thread stays asleep and \<open>shutdown\<close> stays in
  its \<open>join\<close>.
\<close>

theorem timer_shutdown_can_hang:
  "\<exists>s :: 'cb timer_system. timer_reachable s \<and>
     (\<forall>t. timer_step\<^sup>*\<^sup>* s t \<longrightarrow> tpc t = Asleep \<and> spc t = Notified)"
proof -
  let ?s = "timer_init\<lparr>mgr := TimerManager_new\<lparr>running := False\<rparr>, tpc := Asleep, spc := Notified\<rparr>"
  have "lost_wakeup ?s" by (simp add: lost_wakeup_def)
  then have "timer_step\<^sup>*\<^sup>* ?s t \<Longrightarrow> tpc t = Asleep \<and> spc t = Notified" for t
    using lost_wakeup_forever [of ?s t] by (simp add: lost_wakeup_def)
  with lost_wakeup_reachable show ?thesis by blast
qed

theorem timer_shutdown_can_hang_witness:
  "\<exists>s :: nat timer_system. timer_reachable s \<and> tpc s = Asleep \<and> spc s = Notified"
proof -
  from timer_shutdown_can_hang obtain s :: "nat timer_system" where
    "timer_reachable s" "\<forall>t. timer_step\<^sup>*\<^sup>* s t \<longrightarrow> tpc t = Asleep \<and> spc t = Notified" by blast
  then show ?thesis by blast
qed

text \<open>
  When \<open>shutdown\<close> does return, the thread has ended, the manager is stopped and empty, and
  from then on \<open>add_timer\<close> schedules nothing and answers 0.
\<close>

lemma timer_shutdown_final:
  assumes "timer_reachable s" and "spc s = Shut_done"
  shows "tpc s = Exited \<and> \<not> running (mgr s) \<and> tm_entries (mgr s) = [] \<and>
         add_timer now d cb (mgr s) = (0, mgr s) \<and> cancel_timer i (mgr s) = mgr s"
  using timer_reachable_inv [OF assms(1)] assms(2)
  by (auto simp: timer_sys_inv_def tm_entries_def add_timer_def cancel_timer_def)

lemma shut_done_reachable:
  "timer_reachable (timer_init\<lparr>mgr := TimerManager_new\<lparr>running := False\<rparr>, tpc := Exited, spc := Shut_done\<rparr>)"
proof -
  let ?i = "timer_init :: 'a timer_system"
  let ?m = "TimerManager_new\<lparr>running := False\<rparr>"
  have 1: "timer_reachable (?i\<lparr>mgr := ?m, spc := Flag_cleared\<rparr>)"
    by (rule reach_step [OF timer_reachable.init shutdown_flag])
       (simp_all add: timer_init_def TimerManager_new_def)
  have 2: "timer_reachable (?i\<lparr>mgr := ?m, spc := Notified\<rparr>)"
    by (rule reach_step [OF 1 shutdown_notify]) (simp_all add: timer_init_def)
  have 3: "timer_reachable (?i\<lparr>mgr := ?m, tpc := Exited, spc := Notified\<rparr>)"
    by (rule reach_step [OF 2 loop_leave]) (simp_all add: timer_init_def)
  have 4: "timer_reachable (?i\<lparr>mgr := ?m, tpc := Exited, spc := Joined\<rparr>)"
    by (rule reach_step [OF 3 shutdown_join]) simp_all
  show ?thesis
    by (rule reach_step [OF 4 shutdown_clear]) (simp_all add: clear_timers_def TimerManager_new_def)
qed

end
