(* ===== verification/Conn.thy ===== *)
theory Conn
  imports Buffer Timer Epoll
begin

text \<open>
  A connection: cxpnet/conn.h and cxpnet/conn.cc.

  The record \<open>conn\<close> has the fields of the class; a \<open>std::function\<close> member is a flag that says
  whether it is set. The record \<open>cw\<close> extends it by what the methods act on: the poller and the
  timer manager of the event poll, its task queue, the thread the caller is on, the clock, the
  answers of the kernel to come, and a log of what the outside sees. The user's callbacks are
  not part of the sources: they are a parameter, functions on the same state that may call the
  connection again; the field \<open>app\<close> holds the state of the user's program, of any type.
\<close>

section \<open>State\<close>

text \<open>The functions a connection installs in its channel, and the closures it posts.\<close>

datatype conn_fn = Fn_connect_event | Fn_read_event | Fn_write_event | Fn_close_event

datatype conn_task =
    Task_start_connect string uint16
  | Task_shutdown
  | Task_cleanup int
  | Task_send "byte list"
  | Task_drop_channel nat
  | Task_close_timeout

record conn =
  c_handle :: fd
  c_channel :: "conn_fn channel option"
  has_message_func :: bool
  has_close_func :: bool
  has_internal_close :: bool
  has_watermark_func :: bool
  high_watermark :: uint32
  low_watermark :: uint32
  high_watermark_warning :: bool
  c_addr :: string
  c_port :: uint16
  c_state :: conn_state
  read_buffer :: "buffer option"
  write_buffer :: "buffer option"
  close_timeout_ms :: uint32
  close_timer_id :: timer_id
  cleanup_done :: bool
  has_connected_func :: bool
  has_connect_error :: bool

text \<open>
  Kernel answers. \<open>Recv_data xs\<close>: the bytes \<open>xs\<close> are there to be received; none means end of
  stream. \<open>Send_room k\<close>: the socket takes up to \<open>k\<close> bytes. A socket without further answers
  would block.
\<close>

datatype recv_answer = Recv_data "byte list" | Recv_error int
datatype send_answer = Send_room nat | Send_error int

datatype conn_event =
    Ev_sys syscall
  | Ev_started "cell list"
  | Ev_queued "byte list"
  | Ev_sent "cell list"
  | Ev_message "cell list"
  | Ev_watermark int
  | Ev_internal_close
  | Ev_close int
  | Ev_connected
  | Ev_connect_error int

record 'a cw = conn +
  poller :: epoll_poller
  tmgr :: "conn_task timer_manager"
  tasks :: "conn_task list"
  in_poll :: bool
  now :: time
  next_channel :: nat
  recvs :: "recv_answer list"
  sends :: "send_answer list"
  errno :: int
  so_answer :: "int \<times> int"
  conn_os :: connect_os
  pton :: inet_pton
  log :: "conn_event list"
  app :: 'a

record 'a user_cb =
  u_message :: "'a cw \<Rightarrow> 'a cw result"
  u_close :: "int \<Rightarrow> 'a cw \<Rightarrow> 'a cw result"
  u_internal_close :: "'a cw \<Rightarrow> 'a cw result"
  u_watermark :: "int \<Rightarrow> 'a cw \<Rightarrow> 'a cw result"
  u_connected :: "'a cw \<Rightarrow> 'a cw result"
  u_connect_error :: "int \<Rightarrow> 'a cw \<Rightarrow> 'a cw result"

definition Conn_new :: "fd \<Rightarrow> conn" where
  "Conn_new handle = \<lparr>c_handle = handle, c_channel = None, has_message_func = False,
     has_close_func = False, has_internal_close = False, has_watermark_func = False,
     high_watermark = 1024 * 1024, low_watermark = 256 * 1024, high_watermark_warning = False,
     c_addr = [], c_port = 0, c_state = kDisconnected, read_buffer = None, write_buffer = None,
     close_timeout_ms = 30000, close_timer_id = 0, cleanup_done = False,
     has_connected_func = False, has_connect_error = False\<rparr>"

section \<open>Primitive effects\<close>

definition emit :: "conn_event \<Rightarrow> 'a cw \<Rightarrow> 'a cw" where
  "emit e w = w\<lparr>log := log w @ [e]\<rparr>"

text \<open>\<open>run_in_poll\<close> from another thread, and \<open>run_later\<close>: the closure is queued.\<close>

definition post :: "conn_task \<Rightarrow> 'a cw \<Rightarrow> 'a cw" where
  "post t w = w\<lparr>tasks := tasks w @ [t]\<rparr>"

text \<open>A method of the channel; calling one through a null \<open>channel_\<close> is a null dereference.\<close>

definition on_channel :: "(epoll_poller, conn_fn) poller_call \<Rightarrow> 'a cw \<Rightarrow> 'a cw result" where
  "on_channel f w = (case c_channel w of None \<Rightarrow> Inl Null_deref
     | Some ch \<Rightarrow> andthen (f (poller w) ch) (\<lambda>(p, ch'). Inr (w\<lparr>poller := p, c_channel := Some ch'\<rparr>)))"

definition on_channel_if :: "(epoll_poller, conn_fn) poller_call \<Rightarrow> 'a cw \<Rightarrow> 'a cw result" where
  "on_channel_if f w = (if c_channel w = None then Inr w else on_channel f w)"

text \<open>Calling a user callback that may be unset: the call is logged, then the callback runs.\<close>

definition call_if :: "bool \<Rightarrow> conn_event \<Rightarrow> ('a cw \<Rightarrow> 'a cw result) \<Rightarrow> 'a cw \<Rightarrow> 'a cw result" where
  "call_if has e f w = (if has then f (emit e w) else Inr w)"

text \<open>
  \<open>::recv\<close> with room for \<open>n\<close> bytes: \<open>Some xs\<close> are the bytes returned (the empty list is a return
  value of 0), \<open>None\<close> is -1 with \<open>errno\<close> set. \<open>::send\<close> likewise answers the number of bytes taken.
  One call moves at most \<open>MAX_RW_COUNT\<close> bytes, so the result fits the \<open>int\<close> it is stored in.
\<close>

definition MAX_RW_COUNT :: nat where
  "MAX_RW_COUNT = 0x7ffff000"

definition sys_recv :: "nat \<Rightarrow> 'a cw \<Rightarrow> byte list option \<times> 'a cw" where
  "sys_recv room w =
     (let n = min room MAX_RW_COUNT in
      if c_handle w = invalid_socket then (None, w\<lparr>errno := EBADF\<rparr>)
      else case recvs w of
        [] \<Rightarrow> (None, w\<lparr>errno := EAGAIN\<rparr>)
      | Recv_error e # as \<Rightarrow> (None, w\<lparr>errno := e, recvs := as\<rparr>)
      | Recv_data xs # as \<Rightarrow>
          if length xs \<le> n then (Some xs, w\<lparr>recvs := as\<rparr>)
          else (Some (take n xs), w\<lparr>recvs := Recv_data (drop n xs) # as\<rparr>))"

definition sys_send :: "cell list \<Rightarrow> 'a cw \<Rightarrow> nat option \<times> 'a cw" where
  "sys_send xs w =
     (if c_handle w = invalid_socket then (None, w\<lparr>errno := EBADF\<rparr>)
      else case sends w of
        [] \<Rightarrow> (None, w\<lparr>errno := EAGAIN\<rparr>)
      | Send_error e # as \<Rightarrow> (None, w\<lparr>errno := e, sends := as\<rparr>)
      | Send_room room # as \<Rightarrow>
          let n = min (min room MAX_RW_COUNT) (length xs)
          in (Some n, emit (Ev_sent (take n xs)) (w\<lparr>sends := as\<rparr>)))"

section \<open>Closing\<close>

definition cancel_close_timeout :: "'a cw \<Rightarrow> 'a cw" where
  "cancel_close_timeout w =
     (if close_timer_id w \<noteq> 0
      then w\<lparr>tmgr := cancel_timer (close_timer_id w) (tmgr w), close_timer_id := 0\<rparr>
      else w)"

definition start_close_timeout :: "'a cw \<Rightarrow> 'a cw" where
  "start_close_timeout w =
     (if close_timer_id w \<noteq> 0 then w
      else (case add_timer (now w) (close_timeout_ms w) (Some Task_close_timeout) (tmgr w) of
              (i, m) \<Rightarrow> w\<lparr>tmgr := m, close_timer_id := i\<rparr>))"

definition clear_and_remove :: "'a cw \<Rightarrow> 'a cw result" where
  "clear_and_remove w =
     (if c_channel w = None then Inr w
      else andthen (on_channel (clear_event update_channel) w) (on_channel remove_channel))"

definition close_handle :: "'a cw \<Rightarrow> 'a cw" where
  "close_handle w =
     (if c_handle w \<noteq> invalid_socket
      then (emit (Ev_sys (Sys_close (c_handle w))) w)\<lparr>c_handle := invalid_socket\<rparr>
      else w)"

definition do_cleanup :: "'a user_cb \<Rightarrow> int \<Rightarrow> 'a cw \<Rightarrow> 'a cw result" where
  "do_cleanup u err w =
     andthen (clear_and_remove w) (\<lambda>w1.
       let w2 = (close_handle w1)\<lparr>c_state := kDisconnected\<rparr>;
           internal = has_internal_close w2; user_close = has_close_func w2;
           w3 = w2\<lparr>has_internal_close := False, has_close_func := False\<rparr>
       in andthen (call_if internal Ev_internal_close (u_internal_close u) w3) (\<lambda>w4.
          andthen (call_if user_close (Ev_close err) (u_close u err) w4) (\<lambda>w5.
            case c_channel w5 of None \<Rightarrow> Inr w5
            | Some ch \<Rightarrow> Inr (post (Task_drop_channel (ch_id ch)) (w5\<lparr>c_channel := None\<rparr>)))))"

definition cleanup :: "'a user_cb \<Rightarrow> int \<Rightarrow> 'a cw \<Rightarrow> 'a cw result" where
  "cleanup u err w =
     ensure (in_poll w) ''Must in IO thread''
     (if cleanup_done w then Inr w
      else
        let w1 = cancel_close_timeout (w\<lparr>cleanup_done := True\<rparr>);
            w2 = (if c_state w1 = kConnected \<and> c_handle w1 \<noteq> invalid_socket
                  then emit (Ev_sys (Sys_shut_wr (c_handle w1))) w1 else w1)
        in do_cleanup u err (w2\<lparr>c_state := kDisconnecting\<rparr>))"

definition handle_close_event :: "'a user_cb \<Rightarrow> int \<Rightarrow> 'a cw \<Rightarrow> 'a cw result" where
  "handle_close_event u err w = (if c_state w = kDisconnected then Inr w else cleanup u err w)"

definition close :: "'a user_cb \<Rightarrow> 'a cw \<Rightarrow> 'a cw result" where
  "close u w =
     (if c_state w = kDisconnected then Inr w
      else if in_poll w then cleanup u 0 w
      else Inr (post (Task_cleanup 0) w))"

definition pending_output :: "conn \<Rightarrow> bool" where
  "pending_output w = (case write_buffer w of None \<Rightarrow> False | Some b \<Rightarrow> readable_size b \<noteq> 0)"

definition shutdown_in_poll :: "'a cw \<Rightarrow> 'a cw result" where
  "shutdown_in_poll w =
     ensure (in_poll w) ''Must in IO thread''
     (if c_state w \<in> {kDisconnected, kDisconnecting} then Inr w
      else if c_handle w = invalid_socket then Inr w
      else
        let w1 = w\<lparr>c_state := kDisconnecting\<rparr> in
        andthen
          (if \<not> pending_output (conn.truncate w1)
           then andthen (on_channel_if (remove_write_event update_channel) w1) (\<lambda>w2.
                  Inr (emit (Ev_sys (Sys_shut_wr (c_handle w2))) w2))
           else Inr w1)
          (\<lambda>w3. if close_timeout_ms w3 > 0 then Inr (start_close_timeout w3) else Inr w3))"

definition shutdown :: "'a cw \<Rightarrow> 'a cw result" where
  "shutdown w =
     (if c_state w \<in> {kDisconnected, kDisconnecting} then Inr w
      else if c_handle w = invalid_socket then Inr w
      else if in_poll w then shutdown_in_poll w
      else Inr (post Task_shutdown w))"

text \<open>The destructor.\<close>

definition Conn_delete :: "'a cw \<Rightarrow> 'a cw" where
  "Conn_delete w =
     (let w1 = cancel_close_timeout w in
      if c_handle w1 \<noteq> invalid_socket then emit (Ev_sys (Sys_close (c_handle w1))) w1 else w1)"

section \<open>Opening\<close>

definition default_buffer :: "buffer option \<Rightarrow> buffer result" where
  "default_buffer b = (case b of None \<Rightarrow> Buffer_new kInitialCapacity | Some b' \<Rightarrow> Inr b')"

text \<open>
  \<open>start_\<close>. The event \<open>Ev_started\<close> records the output that is in the buffer when the connection
  starts; it has no counterpart in the code.
\<close>

definition start :: "'a cw \<Rightarrow> 'a cw result" where
  "start w =
     ensure (in_poll w) ''Must in IO thread''
     (if c_handle w = invalid_socket then Inr w
      else if c_channel w \<noteq> None \<and> read_buffer w \<noteq> None \<and> write_buffer w \<noteq> None \<and> c_state w = kConnected
      then Inr w
      else
        andthen (default_buffer (read_buffer w)) (\<lambda>rb.
        andthen (default_buffer (write_buffer w)) (\<lambda>wb.
          let ch = (Channel_new (next_channel w) (c_handle w))
                     \<lparr>ch_on_read := Some Fn_read_event, ch_on_write := Some Fn_write_event,
                      ch_on_close := Some Fn_close_event\<rparr>;
              w1 = w\<lparr>cleanup_done := False, read_buffer := Some rb, write_buffer := Some wb,
                     c_channel := Some ch, next_channel := next_channel w + 1\<rparr>
          in andthen (on_channel (add_read_event update_channel) w1) (\<lambda>w2.
             andthen (on_channel (\<lambda>p c. Inr (p, c\<lparr>ch_tied := True\<rparr>)) w2) (\<lambda>w3.
               Inr (emit (Ev_started (contents wb)) (w3\<lparr>c_state := kConnected\<rparr>)))))))"

definition connect_error :: "'a user_cb \<Rightarrow> int \<Rightarrow> 'a cw \<Rightarrow> 'a cw result" where
  "connect_error u err w = call_if (has_connect_error w) (Ev_connect_error err) (u_connect_error u err) w"

definition start_connect_in_poll :: "'a user_cb \<Rightarrow> string \<Rightarrow> uint16 \<Rightarrow> 'a cw \<Rightarrow> 'a cw result" where
  "start_connect_in_poll u addr port w =
     ensure (in_poll w) ''Must in IO thread''
     (let ip_type = ip_address_type (pton w) addr;
          proto_stack = (if ip_type = IP_v4 then kIPv4Only else kIPv6Only)
      in if ip_type = IP_Invalid then connect_error u EINVAL w
      else
        let addr_storage = get_sockaddr (pton w) addr port proto_stack in
        if ss_family addr_storage = 0 then connect_error u EINVAL w
        else andthen (connect (conn_os w) addr_storage True) (\<lambda>(handle, tr).
          let w1 = w\<lparr>log := log w @ map Ev_sys tr\<rparr> in
          if handle < 0 then connect_error u (co_last_error (conn_os w)) w1
          else
            let ch = (Channel_new (next_channel w) handle)
                       \<lparr>ch_on_write := Some Fn_connect_event, ch_tied := True\<rparr>;
                w2 = w1\<lparr>c_handle := handle, c_state := kConnecting, c_channel := Some ch,
                        next_channel := next_channel w + 1\<rparr>
            in on_channel (add_write_event update_channel) w2))"

text \<open>
  \<open>has_c\<close> and \<open>has_e\<close> tell whether the two callbacks given are set. \<open>INET6_ADDRSTRLEN\<close> is 46, so
  45 characters of the address are kept.
\<close>

definition Conn_connect :: "'a user_cb \<Rightarrow> string \<Rightarrow> uint16 \<Rightarrow> bool \<Rightarrow> bool \<Rightarrow> 'a cw \<Rightarrow> 'a cw result" where
  "Conn_connect u addr port has_c has_e w =
     (if c_state w \<noteq> kDisconnected
      then call_if has_e (Ev_connect_error EALREADY) (u_connect_error u EALREADY) w
      else
        let w1 = w\<lparr>cleanup_done := False, has_connected_func := has_c, has_connect_error := has_e,
                   c_addr := take 45 addr, c_port := port\<rparr>
        in if in_poll w1 then start_connect_in_poll u addr port w1
           else Inr (post (Task_start_connect addr port) w1))"

definition connect_sync :: "string \<Rightarrow> uint16 \<Rightarrow> 'a cw \<Rightarrow> (bool \<times> 'a cw) result" where
  "connect_sync addr port w =
     (if c_state w \<noteq> kDisconnected then Inr (False, w)
      else
        let w1 = w\<lparr>cleanup_done := False, c_addr := take 45 addr, c_port := port\<rparr>;
            ip_type = ip_address_type (pton w) addr;
            proto_stack = (if ip_type = IP_v4 then kIPv4Only else kIPv6Only)
        in if ip_type = IP_Invalid then Inr (False, w1)
        else
          let addr_storage = get_sockaddr (pton w) addr port proto_stack in
          if ss_family addr_storage = 0 then Inr (False, w1)
          else andthen (connect (conn_os w) addr_storage False) (\<lambda>(handle, tr).
            let w2 = w1\<lparr>log := log w @ map Ev_sys tr\<rparr> in
            if handle < 0 then Inr (False, w2)
            else andthen (start (w2\<lparr>c_handle := handle\<rparr>)) (\<lambda>w3.
              Inr (c_state w3 = kConnected, w3))))"

definition drop_channel :: "'a cw \<Rightarrow> 'a cw result" where
  "drop_channel w = andthen (clear_and_remove w) (\<lambda>w1. Inr (w1\<lparr>c_channel := None\<rparr>))"

text \<open>\<open>so_answer\<close> is what \<open>getsockopt(SO_ERROR)\<close> returns and the error it stores.\<close>

definition handle_connect_event :: "'a user_cb \<Rightarrow> 'a cw \<Rightarrow> 'a cw result" where
  "handle_connect_event u w =
     ensure (in_poll w) ''Must in IO thread''
     (if c_state w \<noteq> kConnecting then Inr w
      else
        let err = (if fst (so_answer w) < 0 then errno w else snd (so_answer w)) in
        if err \<noteq> 0 then
          andthen (drop_channel w) (\<lambda>w1. connect_error u err ((close_handle w1)\<lparr>c_state := kDisconnected\<rparr>))
        else
          andthen (drop_channel w) (\<lambda>w1.
          andthen (start w1) (\<lambda>w2.
            call_if (has_connected_func w2) Ev_connected (u_connected u) w2)))"

section \<open>Receiving\<close>

text \<open>What the read buffer holds; \<open>Ev_message\<close> records it when the message callback is called.\<close>

definition in_cells :: "'a cw \<Rightarrow> cell list" where
  "in_cells w = (case read_buffer w of None \<Rightarrow> [] | Some b \<Rightarrow> contents b)"

text \<open>How the loop of \<open>handle_read_event_\<close> ends: it returns, it is done, or the peer is to be closed.\<close>

datatype read_exit = Rd_return | Rd_idle | Rd_close int

function read_loop :: "bool \<Rightarrow> 'a cw \<Rightarrow> (read_exit \<times> bool \<times> 'a cw) result" where
  "read_loop has_new_data w =
     (if c_state w \<noteq> kConnected then Inr (Rd_return, has_new_data, w)
      else case read_buffer w of None \<Rightarrow> Inl Null_deref
      | Some b \<Rightarrow>
          andthen (if writable_size b = 0 then ensure_writable_size b (1024 * 2) else Inr b) (\<lambda>b1.
            case sys_recv (unat (writable_size b1)) (w\<lparr>read_buffer := Some b1\<rparr>) of
              (Some xs, w1) \<Rightarrow>
                if xs \<noteq> [] then
                  andthen (copy_to_write b1 xs) (\<lambda>b2.
                  andthen (been_written b2 (of_nat (length xs))) (\<lambda>b3.
                    read_loop True (w1\<lparr>read_buffer := Some b3\<rparr>)))
                else Inr (Rd_close 0, has_new_data, w1)
            | (None, w1) \<Rightarrow>
                (case handle_error_action (errno w1) of
                   kBreak \<Rightarrow> Inr (Rd_idle, has_new_data, w1)
                 | kContinue \<Rightarrow> read_loop has_new_data w1
                 | kClose \<Rightarrow> Inr (Rd_close (errno w1), has_new_data, w1))))"
  by pat_completeness auto

fun answer_size :: "recv_answer \<Rightarrow> nat" where
  "answer_size (Recv_data xs) = Suc (length xs)"
| "answer_size (Recv_error _) = 1"

definition recv_measure :: "'a cw \<Rightarrow> nat" where
  "recv_measure w = sum_list (map answer_size (recvs w))"

lemma sys_recv_data_less:
  "sys_recv n w = (Some xs, w1) \<Longrightarrow> xs \<noteq> [] \<Longrightarrow> recv_measure w1 < recv_measure w"
  by (auto simp: sys_recv_def recv_measure_def Let_def split: if_splits list.splits recv_answer.splits)

lemma sys_recv_retry_less:
  "sys_recv n w = (None, w1) \<Longrightarrow> handle_error_action (errno w1) = kContinue \<Longrightarrow> recv_measure w1 < recv_measure w"
  by (auto simp: sys_recv_def recv_measure_def handle_error_action_def Let_def
        split: if_splits list.splits recv_answer.splits)

lemma recv_measure_buffer [simp]: "recv_measure (w\<lparr>read_buffer := b\<rparr>) = recv_measure w"
  by (simp add: recv_measure_def)

termination read_loop
  by (relation "measure (\<lambda>(_, w). recv_measure w)")
     (auto dest: sys_recv_data_less [OF sym] sys_recv_retry_less [OF sym])

declare read_loop.simps [simp del]

definition handle_read_event :: "'a user_cb \<Rightarrow> 'a cw \<Rightarrow> 'a cw result" where
  "handle_read_event u w =
     andthen (read_loop False w) (\<lambda>(exit, has_new_data, w1).
       if exit = Rd_return then Inr w1
       else andthen (call_if (has_new_data \<and> has_message_func w1) (Ev_message (in_cells w1)) (u_message u) w1) (\<lambda>w2.
         case exit of Rd_close err \<Rightarrow> handle_close_event u err w2 | _ \<Rightarrow> Inr w2))"

section \<open>Sending\<close>

text \<open>
  The loop of \<open>handle_write_event_\<close>; the answer \<open>True\<close> means that the method returned from inside
  the loop. A watermark callback runs inside it, so the recursion is on fuel; every round uses up
  an answer of the kernel or ends the loop, so one more than the number of answers is enough.
\<close>

fun write_loop :: "nat \<Rightarrow> 'a user_cb \<Rightarrow> 'a cw \<Rightarrow> (bool \<times> 'a cw) result" where
  "write_loop 0 u w = Inl Never_returns"
| "write_loop (Suc fuel) u w =
     (case write_buffer w of None \<Rightarrow> Inl Null_deref
      | Some b \<Rightarrow>
          if readable_size b > 0 then
            andthen (peek b) (\<lambda>xs.
              let (send_n, w1) = sys_send xs w in
              if (case send_n of None \<Rightarrow> False | Some n \<Rightarrow> n > 0) then
                andthen (been_read b (of_nat (the send_n))) (\<lambda>b1.
                  let w2 = w1\<lparr>write_buffer := Some b1\<rparr> in
                  if high_watermark_warning w2 \<and> readable_size b1 \<le> ucast (low_watermark w2)
                  then andthen (call_if (has_watermark_func w2) (Ev_watermark (sint (low_watermark w2)))
                                  (u_watermark u (sint (low_watermark w2))) w2) (\<lambda>w3.
                         write_loop fuel u (w3\<lparr>high_watermark_warning := False\<rparr>))
                  else write_loop fuel u w2)
              else
                (case handle_error_action (errno w1) of
                   kBreak \<Rightarrow> Inr (False, w1)
                 | kContinue \<Rightarrow> write_loop fuel u w1
                 | kClose \<Rightarrow> andthen (handle_close_event u (errno w1) w1) (\<lambda>w2. Inr (True, w2))))
          else Inr (False, w))"

definition handle_write_event :: "'a user_cb \<Rightarrow> 'a cw \<Rightarrow> 'a cw result" where
  "handle_write_event u w =
     ensure (in_poll w) ''Must in IO thread''
     (andthen (write_loop (Suc (length (sends w))) u w) (\<lambda>(returned, w1).
        if returned then Inr w1
        else case write_buffer w1 of None \<Rightarrow> Inl Null_deref
        | Some b \<Rightarrow>
            if readable_size b = 0 then
              andthen (on_channel (remove_write_event update_channel) (w1\<lparr>write_buffer := Some (clear b)\<rparr>)) (\<lambda>w2.
                if c_state w2 = kDisconnecting
                then Inr (emit (Ev_sys (Sys_shut_wr (c_handle w2))) w2) else Inr w2)
            else Inr w1))"

definition kDirectWriteBudget :: nat where
  "kDirectWriteBudget = 64 * 1024"

text \<open>
  The direct write of \<open>send_in_poll_thread_\<close>: \<open>Inr n\<close> bytes were taken when the loop ended,
  \<open>Inl err\<close> is the error that closes the connection.
\<close>

function direct_write :: "byte list \<Rightarrow> nat \<Rightarrow> nat \<Rightarrow> 'a cw \<Rightarrow> (int + nat) \<times> 'a cw" where
  "direct_write data goal sent_bytes w =
     (if sent_bytes < goal then
        case sys_send (map Some (take (goal - sent_bytes) (drop sent_bytes data))) w of
          (Some send_n, w1) \<Rightarrow>
            if send_n > 0 then direct_write data goal (sent_bytes + send_n) w1 else (Inr sent_bytes, w1)
        | (None, w1) \<Rightarrow>
            (case handle_error_action (errno w1) of
               kBreak \<Rightarrow> (Inr sent_bytes, w1)
             | kContinue \<Rightarrow> direct_write data goal sent_bytes w1
             | kClose \<Rightarrow> (Inl (errno w1), w1))
      else (Inr sent_bytes, w))"
  by pat_completeness auto

lemma sys_send_some_less: "sys_send xs w = (Some n, w1) \<Longrightarrow> length (sends w1) < length (sends w)"
  by (auto simp: sys_send_def emit_def Let_def split: if_splits list.splits send_answer.splits)

lemma sys_send_retry_less:
  "sys_send xs w = (None, w1) \<Longrightarrow> handle_error_action (errno w1) = kContinue \<Longrightarrow>
   length (sends w1) < length (sends w)"
  by (auto simp: sys_send_def handle_error_action_def Let_def
        split: if_splits list.splits send_answer.splits)

termination direct_write
  by (relation "measure (\<lambda>(_, _, _, w). length (sends w))")
     (auto dest: sys_send_some_less [OF sym] sys_send_retry_less [OF sym])

declare direct_write.simps [simp del]

text \<open>Queueing what could not be written at once.\<close>

definition queue_output :: "byte list \<Rightarrow> 'a cw \<Rightarrow> 'a cw result" where
  "queue_output xs w = (case write_buffer w of None \<Rightarrow> Inl Null_deref
     | Some b \<Rightarrow> andthen (append_bytes b xs) (\<lambda>b'.
         on_channel (add_write_event update_channel) (w\<lparr>write_buffer := Some b'\<rparr>)))"

definition check_high_watermark :: "'a user_cb \<Rightarrow> 'a cw \<Rightarrow> 'a cw result" where
  "check_high_watermark u w = (case write_buffer w of None \<Rightarrow> Inl Null_deref
     | Some b \<Rightarrow>
         if \<not> high_watermark_warning w \<and> readable_size b > ucast (high_watermark w)
         then andthen (call_if (has_watermark_func w) (Ev_watermark (sint (high_watermark w)))
                         (u_watermark u (sint (high_watermark w))) w) (\<lambda>w1.
                Inr (w1\<lparr>high_watermark_warning := True\<rparr>))
         else Inr w)"

definition send_in_poll_thread :: "'a user_cb \<Rightarrow> byte list \<Rightarrow> 'a cw \<Rightarrow> 'a cw result" where
  "send_in_poll_thread u data w =
     ensure (in_poll w) ''Must in IO thread''
     (case write_buffer w of None \<Rightarrow> Inr w
      | Some b \<Rightarrow>
          if c_state w \<noteq> kConnected \<or> c_channel w = None then Inr w
          else
            let w0 = emit (Ev_queued data) w in
            if readable_size b > 0 then
              andthen (queue_output data w0) (check_high_watermark u)
            else
              (case direct_write data (min (length data) kDirectWriteBudget) 0 w0 of
                 (Inl err, w1) \<Rightarrow> handle_close_event u err w1
               | (Inr sent_bytes, w1) \<Rightarrow>
                   andthen (if sent_bytes < length data then queue_output (drop sent_bytes data) w1 else Inr w1)
                     (check_high_watermark u)))"

text \<open>\<open>msg\<close> is \<open>None\<close> for the null pointer.\<close>

definition send :: "'a user_cb \<Rightarrow> byte list option \<Rightarrow> 'a cw \<Rightarrow> 'a cw result" where
  "send u msg w = (case msg of None \<Rightarrow> Inr w
     | Some data \<Rightarrow>
         if c_state w \<noteq> kConnected \<or> data = [] then Inr w
         else if in_poll w then send_in_poll_thread u data w
         else Inr (post (Task_send data) w))"

section \<open>Settings, posted tasks and dispatch\<close>

definition set_conn_user_callbacks :: "bool \<Rightarrow> bool \<Rightarrow> conn \<Rightarrow> conn" where
  "set_conn_user_callbacks message close_func c = c\<lparr>has_message_func := message, has_close_func := close_func\<rparr>"

definition set_read_write_buffer_size :: "uint32 \<Rightarrow> uint32 \<Rightarrow> conn \<Rightarrow> conn result" where
  "set_read_write_buffer_size read_size write_size c =
     (if read_size \<noteq> 0 \<and> write_size \<noteq> 0
      then andthen (Buffer_new (ucast read_size)) (\<lambda>rb. andthen (Buffer_new (ucast write_size)) (\<lambda>wb.
             Inr (c\<lparr>read_buffer := Some rb, write_buffer := Some wb\<rparr>)))
      else Inr c)"

definition set_watermark :: "uint32 \<Rightarrow> uint32 \<Rightarrow> conn \<Rightarrow> conn" where
  "set_watermark high low c =
     (if high = low then c
      else if high = 0 \<or> low = 0 then c
      else c\<lparr>high_watermark := high, low_watermark := low\<rparr>)"

definition set_watermark_callback :: "bool \<Rightarrow> conn \<Rightarrow> conn" where
  "set_watermark_callback has c = (if has then c\<lparr>has_watermark_func := True\<rparr> else c)"

definition set_close_timeout :: "uint32 \<Rightarrow> conn \<Rightarrow> conn" where
  "set_close_timeout ms c = c\<lparr>close_timeout_ms := ms\<rparr>"

definition remote_addr_and_port :: "conn \<Rightarrow> string \<times> uint16" where
  "remote_addr_and_port c = (c_addr c, c_port c)"

definition state_string :: "conn \<Rightarrow> string" where
  "state_string c = (case c_state c of kDisconnected \<Rightarrow> ''Disconnected'' | kConnecting \<Rightarrow> ''Connecting''
     | kConnected \<Rightarrow> ''Connected'' | kDisconnecting \<Rightarrow> ''Disconnecting'')"

text \<open>
  The closures the connection posts, when the poll thread runs them; the close timer's callback
  itself runs on the timer thread and posts a cleanup. Dropping a channel has no further effect.
\<close>

fun run_conn_task :: "'a user_cb \<Rightarrow> conn_task \<Rightarrow> 'a cw \<Rightarrow> 'a cw result" where
  "run_conn_task u (Task_start_connect addr port) w = start_connect_in_poll u addr port w"
| "run_conn_task u Task_shutdown w = shutdown_in_poll w"
| "run_conn_task u (Task_cleanup err) w = cleanup u err w"
| "run_conn_task u (Task_send data) w = send_in_poll_thread u data w"
| "run_conn_task u (Task_drop_channel i) w = Inr w"
| "run_conn_task u Task_close_timeout w =
     (if in_poll w then cleanup u ETIMEDOUT w else Inr (post (Task_cleanup ETIMEDOUT) w))"

text \<open>The calls a channel's dispatch makes, carried out one after the other.\<close>

fun run_dispatch :: "'a user_cb \<Rightarrow> conn_fn dispatch \<Rightarrow> 'a cw \<Rightarrow> 'a cw result" where
  "run_dispatch u (Call Fn_connect_event) w = handle_connect_event u w"
| "run_dispatch u (Call Fn_read_event) w = handle_read_event u w"
| "run_dispatch u (Call Fn_write_event) w = handle_write_event u w"
| "run_dispatch u (Call Fn_close_event) w = handle_close_event u 0 w"
| "run_dispatch u (Call_err f err) w = handle_close_event u err w"

fun run_dispatches :: "'a user_cb \<Rightarrow> conn_fn dispatch list \<Rightarrow> 'a cw \<Rightarrow> 'a cw result" where
  "run_dispatches u [] w = Inr w"
| "run_dispatches u (d # ds) w = andthen (run_dispatch u d w) (run_dispatches u ds)"

definition on_event :: "'a user_cb \<Rightarrow> cflags \<Rightarrow> int \<Rightarrow> 'a cw \<Rightarrow> 'a cw result" where
  "on_event u result_events so_error w = (case c_channel w of None \<Rightarrow> Inr w
     | Some ch \<Rightarrow> run_dispatches u (handle_event (ch\<lparr>ch_result := result_events\<rparr>) True so_error) w)"

end
