(* ===== verification/Conn_Inv.thy ===== *)
theory Conn_Inv
  imports Conn "HOL-Library.Sublist"
begin

text \<open>
  The invariant of a connection and what its operations keep: no operation dereferences a null
  pointer, leaves the buffers, fails an \<open>ENSURE\<close> or loops for ever, and the bytes handed to the
  socket are the bytes accepted from the user, in order.

  The log yields two streams: what was handed to the socket since the connection started, and
  what has been accepted for output since then.
\<close>

section \<open>Streams\<close>

fun stream_step :: "cell list \<times> cell list \<Rightarrow> conn_event \<Rightarrow> cell list \<times> cell list" where
  "stream_step (s, q) (Ev_started xs) = ([], xs)"
| "stream_step (s, q) (Ev_queued ys) = (s, q @ map Some ys)"
| "stream_step (s, q) (Ev_sent zs) = (s @ zs, q)"
| "stream_step (s, q) e = (s, q)"

definition stream :: "conn_event list \<Rightarrow> cell list \<times> cell list" where
  "stream l = foldl stream_step ([], []) l"

definition sent_cells :: "'a cw \<Rightarrow> cell list" where
  "sent_cells w = fst (stream (log w))"

definition owed_cells :: "'a cw \<Rightarrow> cell list" where
  "owed_cells w = snd (stream (log w))"

definition out_cells :: "'a cw \<Rightarrow> cell list" where
  "out_cells w = (case write_buffer w of None \<Rightarrow> [] | Some b \<Rightarrow> contents b)"

fun incoming :: "recv_answer list \<Rightarrow> nat" where
  "incoming [] = 0"
| "incoming (Recv_data xs # as) = length xs + incoming as"
| "incoming (Recv_error e # as) = incoming as"

text \<open>The state of the connection without the log of effects that no stream depends on.\<close>

fun neutral :: "conn_event \<Rightarrow> bool" where
  "neutral (Ev_started _) = False"
| "neutral (Ev_queued _) = False"
| "neutral (Ev_sent _) = False"
| "neutral _ = True"

lemma stream_snoc [simp]: "stream (l @ [e]) = stream_step (stream l) e"
  by (simp add: stream_def)

lemma stream_neutral: "list_all neutral es \<Longrightarrow> stream (l @ es) = stream l"
proof (induction es rule: rev_induct)
  case (snoc e es)
  then have "stream (l @ es @ [e]) = stream_step (stream l) e" by (metis append.assoc list_all_append stream_snoc)
  with snoc.prems show ?case by (cases e; cases "stream l") simp_all
qed simp

lemma neutral_sys [simp]: "list_all neutral (map Ev_sys tr)"
  by (induction tr) simp_all

section \<open>Invariant\<close>

text \<open>
  The two kinds of channel a connection has: the one of an established connection, and the one
  that waits for a connection attempt.
\<close>

definition established :: "conn_fn channel \<Rightarrow> bool" where
  "established ch \<longleftrightarrow> ch_on_read ch = Some Fn_read_event \<and> ch_on_write ch = Some Fn_write_event \<and>
     ch_on_close ch = Some Fn_close_event \<and> ch_tied ch"

definition connecting_ch :: "conn_fn channel \<Rightarrow> bool" where
  "connecting_ch ch \<longleftrightarrow> ch_on_read ch = None \<and> ch_on_write ch = Some Fn_connect_event \<and>
     ch_on_close ch = None \<and> ch_tied ch"

definition bufs_ok :: "'a cw \<Rightarrow> bool" where
  "bufs_ok w \<longleftrightarrow> (\<forall>b. read_buffer w = Some b \<longrightarrow> buf_inv b) \<and> (\<forall>b. write_buffer w = Some b \<longrightarrow> buf_inv b) \<and>
     length (in_cells w) + incoming (recvs w) \<le> 2 ^ 59"

definition open_channel :: "'a cw \<Rightarrow> conn_fn channel \<Rightarrow> bool" where
  "open_channel w ch \<longleftrightarrow> ch_handle ch = c_handle w \<and> c_handle w \<noteq> invalid_socket \<and>
     epoll_chan_ok (poller w) ch \<and> \<not> cleanup_done w \<and>
     (c_state w = kConnecting \<longrightarrow> connecting_ch ch) \<and> (c_state w = kConnected \<longrightarrow> established ch) \<and>
     (established ch \<or> connecting_ch ch) \<and> (connecting_ch ch \<longrightarrow> out_cells w = []) \<and>
     (established ch \<longrightarrow> read_buffer w \<noteq> None \<and> write_buffer w \<noteq> None \<and> (out_cells w \<noteq> [] \<longrightarrow> writing ch))"

definition chan_inv :: "'a cw \<Rightarrow> bool" where
  "chan_inv w \<longleftrightarrow> (case c_channel w of
       None \<Rightarrow> c_state w = kDisconnected
     | Some ch \<Rightarrow>
         if c_state w = kDisconnected
         then \<not> ch_registered ch \<and> cleanup_done w \<and> c_handle w = invalid_socket
         else open_channel w ch)"

definition is_up :: "'a cw \<Rightarrow> bool" where
  "is_up w \<longleftrightarrow> c_state w \<noteq> kDisconnected \<and> (\<exists>ch. c_channel w = Some ch \<and> established ch)"

definition stream_inv :: "'a cw \<Rightarrow> bool" where
  "stream_inv w \<longleftrightarrow> prefix (sent_cells w) (owed_cells w) \<and>
     (is_up w \<longrightarrow> sent_cells w @ out_cells w = owed_cells w)"

definition conn_wf :: "'a cw \<Rightarrow> bool" where
  "conn_wf w \<longleftrightarrow> in_poll w \<and> epoll_ok (poller w) \<and> bufs_ok w \<and> chan_inv w"

definition conn_inv :: "'a cw \<Rightarrow> bool" where
  "conn_inv w \<longleftrightarrow> conn_wf w \<and> stream_inv w"

text \<open>Between events, write events are watched only while there is output to write.\<close>

definition settled :: "'a cw \<Rightarrow> bool" where
  "settled w \<longleftrightarrow> (is_up w \<longrightarrow> (\<exists>ch. c_channel w = Some ch \<and> writing ch) \<longrightarrow> out_cells w \<noteq> [])"

text \<open>
  What a user callback must respect: it keeps the invariant, takes nothing back of what happened,
  does not invent answers of the kernel, does not discard pending output, and does not reopen a
  closed connection (the README declares connections one-shot). A watermark callback, in addition,
  does not leave a closed connection with nothing to write.
\<close>

definition follows :: "'a cw \<Rightarrow> 'a cw \<Rightarrow> bool" where
  "follows w w' \<longleftrightarrow> prefix (log w) (log w') \<and> length (sends w') \<le> length (sends w) \<and>
     (c_state w = kDisconnected \<longrightarrow> c_state w' = kDisconnected) \<and>
     (c_state w' = kDisconnected \<longrightarrow> c_state w \<noteq> kDisconnected \<or> c_handle w = invalid_socket \<longrightarrow>
        c_handle w' = invalid_socket) \<and>
     (is_up w \<longrightarrow> is_up w' \<or> c_state w' = kDisconnected) \<and>
     (c_state w = kDisconnecting \<longrightarrow> c_state w' \<in> {kDisconnecting, kDisconnected}) \<and>
     (c_state w' \<noteq> kDisconnected \<longrightarrow> c_handle w' = c_handle w) \<and>
     (cleanup_done w \<longrightarrow> cleanup_done w') \<and>
     (out_cells w \<noteq> [] \<longrightarrow> out_cells w' \<noteq> []) \<and> (settled w \<longrightarrow> settled w')"

definition callback_ok :: "('a cw \<Rightarrow> 'a cw result) \<Rightarrow> bool" where
  "callback_ok f \<longleftrightarrow> (\<forall>w. conn_inv w \<longrightarrow> (\<exists>w'. f w = Inr w' \<and> conn_inv w' \<and> follows w w'))"

definition user_ok :: "'a user_cb \<Rightarrow> bool" where
  "user_ok u \<longleftrightarrow> callback_ok (u_message u) \<and> (\<forall>e. callback_ok (u_close u e)) \<and>
     callback_ok (u_internal_close u) \<and> (\<forall>l. callback_ok (u_watermark u l)) \<and>
     callback_ok (u_connected u) \<and> (\<forall>e. callback_ok (u_connect_error u e)) \<and>
     (\<forall>l w w'. conn_inv w \<longrightarrow> u_watermark u l w = Inr w' \<longrightarrow>
        c_state w' = kDisconnected \<longrightarrow> c_state w = kDisconnected \<or> out_cells w' \<noteq> [])"

lemma follows_refl [simp]: "follows w w"
  by (simp add: follows_def)

lemma followsD:
  assumes "follows w w'"
  shows "prefix (log w) (log w')" "length (sends w') \<le> length (sends w)"
    "c_state w = kDisconnected \<Longrightarrow> c_state w' = kDisconnected"
    "c_state w' = kDisconnected \<Longrightarrow> c_state w \<noteq> kDisconnected \<or> c_handle w = invalid_socket \<Longrightarrow>
       c_handle w' = invalid_socket"
    "is_up w \<Longrightarrow> is_up w' \<or> c_state w' = kDisconnected"
    "c_state w = kDisconnecting \<Longrightarrow> c_state w' = kDisconnecting \<or> c_state w' = kDisconnected"
    "cleanup_done w \<Longrightarrow> cleanup_done w'" "out_cells w \<noteq> [] \<Longrightarrow> out_cells w' \<noteq> []" "settled w \<Longrightarrow> settled w'"
    "c_state w' \<noteq> kDisconnected \<Longrightarrow> c_handle w' = c_handle w"
  using assms unfolding follows_def by simp_all

lemma follows_trans:
  assumes "follows w v" and "follows v x"
  shows "follows w x"
  unfolding follows_def
proof (intro conjI impI)
  note A = followsD [OF assms(1)] and B = followsD [OF assms(2)]
  show "prefix (log w) (log x)" using A(1) B(1) by (rule prefix_order.trans)
  show "length (sends x) \<le> length (sends w)" using A(2) B(2) by linarith
  show "c_state w = kDisconnected \<Longrightarrow> c_state x = kDisconnected" by (rule B(3) [OF A(3)])
  show "c_handle x = invalid_socket"
    if "c_state x = kDisconnected" "c_state w \<noteq> kDisconnected \<or> c_handle w = invalid_socket"
    using that A(4) B(4) by (cases "c_state v = kDisconnected") simp_all
  show "is_up x \<or> c_state x = kDisconnected" if "is_up w" using A(5) [OF that] B(3,5) by blast
  show "c_state x \<in> {kDisconnecting, kDisconnected}" if "c_state w = kDisconnecting"
    using A(6) [OF that] B(3,6) by blast
  show "c_handle x = c_handle w" if "c_state x \<noteq> kDisconnected" using that A(10) B(3,10) by metis
  show "cleanup_done w \<Longrightarrow> cleanup_done x" by (rule B(7) [OF A(7)])
  show "out_cells w \<noteq> [] \<Longrightarrow> out_cells x \<noteq> []" by (rule B(8) [OF A(8)])
  show "settled w \<Longrightarrow> settled x" by (rule B(9) [OF A(9)])
qed

lemma callback_okD: "callback_ok f \<Longrightarrow> conn_inv w \<Longrightarrow> \<exists>w'. f w = Inr w' \<and> conn_inv w' \<and> follows w w'"
  by (simp add: callback_ok_def)

lemma user_okD:
  assumes "user_ok u"
  shows "callback_ok (u_message u)" "callback_ok (u_close u e)" "callback_ok (u_internal_close u)"
    "callback_ok (u_watermark u l)" "callback_ok (u_connected u)" "callback_ok (u_connect_error u e)"
  using assms by (simp_all add: user_ok_def)

section \<open>What the invariant does not depend on\<close>

lemmas cw_defs = conn_inv_def conn_wf_def bufs_ok_def chan_inv_def open_channel_def stream_inv_def
  is_up_def out_cells_def in_cells_def sent_cells_def owed_cells_def

lemma cells_emit:
  assumes "neutral e"
  shows "sent_cells (emit e w) = sent_cells w" "owed_cells (emit e w) = owed_cells w"
  using stream_neutral [of "[e]" "log w"] assms
  by (simp_all add: sent_cells_def owed_cells_def emit_def)

lemma emit_simps [simp]:
  "c_handle (emit e w) = c_handle w" "c_channel (emit e w) = c_channel w" "c_state (emit e w) = c_state w"
  "poller (emit e w) = poller w" "read_buffer (emit e w) = read_buffer w" "write_buffer (emit e w) = write_buffer w"
  "cleanup_done (emit e w) = cleanup_done w" "in_poll (emit e w) = in_poll w" "recvs (emit e w) = recvs w"
  "sends (emit e w) = sends w" "log (emit e w) = log w @ [e]" "errno (emit e w) = errno w"
  "has_internal_close (emit e w) = has_internal_close w" "has_close_func (emit e w) = has_close_func w"
  "has_message_func (emit e w) = has_message_func w" "has_watermark_func (emit e w) = has_watermark_func w"
  "tmgr (emit e w) = tmgr w" "tasks (emit e w) = tasks w" "close_timer_id (emit e w) = close_timer_id w"
  "high_watermark_warning (emit e w) = high_watermark_warning w" "low_watermark (emit e w) = low_watermark w"
  "high_watermark (emit e w) = high_watermark w" "close_timeout_ms (emit e w) = close_timeout_ms w"
  "now (emit e w) = now w" "conn_os (emit e w) = conn_os w" "pton (emit e w) = pton w"
  "next_channel (emit e w) = next_channel w" "so_answer (emit e w) = so_answer w" "app (emit e w) = app w"
  "has_connected_func (emit e w) = has_connected_func w" "has_connect_error (emit e w) = has_connect_error w"
  by (simp_all add: emit_def)

text \<open>Two states that agree on the fields the invariant reads, up to neutral events.\<close>

definition alike :: "'a cw \<Rightarrow> 'a cw \<Rightarrow> bool" where
  "alike w v \<longleftrightarrow> c_handle v = c_handle w \<and> c_channel v = c_channel w \<and> c_state v = c_state w \<and>
     poller v = poller w \<and> read_buffer v = read_buffer w \<and> write_buffer v = write_buffer w \<and>
     cleanup_done v = cleanup_done w \<and> in_poll v = in_poll w \<and> recvs v = recvs w \<and>
     length (sends v) \<le> length (sends w) \<and> (\<exists>es. log v = log w @ es \<and> list_all neutral es)"

lemma alike_cells:
  assumes "alike w v"
  shows "sent_cells v = sent_cells w" "owed_cells v = owed_cells w" "out_cells v = out_cells w"
    "in_cells v = in_cells w" "is_up v = is_up w" "settled v = settled w"
  using assms by (auto simp: alike_def sent_cells_def owed_cells_def stream_neutral out_cells_def
        in_cells_def is_up_def settled_def)

lemma alike_inv:
  assumes "alike w v"
  shows "conn_wf v = conn_wf w" "conn_inv v = conn_inv w" "follows w v"
proof -
  note C = alike_cells [OF assms]
  show "conn_wf v = conn_wf w" using assms C
    by (simp add: conn_wf_def bufs_ok_def chan_inv_def open_channel_def alike_def split: option.split)
  then show "conn_inv v = conn_inv w" using C by (simp add: conn_inv_def stream_inv_def)
  show "follows w v" using assms C by (auto simp: follows_def alike_def)
qed

lemma alike_emit: "neutral e \<Longrightarrow> alike w (emit e w)"
  by (simp add: alike_def)

lemma alike_trans: "alike w v \<Longrightarrow> alike v x \<Longrightarrow> alike w x"
  by (auto simp: alike_def)

lemma alike_post: "alike w (post t w)" by (simp add: alike_def post_def)

lemma alike_cancel: "alike w (cancel_close_timeout w)"
  by (simp add: alike_def cancel_close_timeout_def)

lemma alike_start_timeout: "alike w (start_close_timeout w)"
  by (auto simp: alike_def start_close_timeout_def split: prod.split)

lemma alike_warning: "alike w (w\<lparr>high_watermark_warning := x\<rparr>)"
  by (simp add: alike_def)

lemma alike_errno: "alike w (w\<lparr>errno := x\<rparr>)"
  by (simp add: alike_def)

lemma call_if_ok:
  assumes "callback_ok f" and "conn_inv w" and "neutral e"
  shows "\<exists>w'. call_if has e f w = Inr w' \<and> conn_inv w' \<and> follows w w'"
proof (cases has)
  case True
  from alike_inv [OF alike_emit [OF assms(3), of w]] assms(2)
  have e: "conn_inv (emit e w)" "follows w (emit e w)" by simp_all
  from callback_okD [OF assms(1) e(1)] True e(2) show ?thesis
    by (auto simp: call_if_def intro: follows_trans)
qed (simp add: call_if_def assms)

section \<open>Closing\<close>

lemma clear_and_remove_ok:
  assumes "c_channel w = Some ch" and "epoll_chan_ok (poller w) ch"
  shows "\<exists>p'. clear_and_remove w = Inr (w\<lparr>poller := p',
             c_channel := Some (ch\<lparr>ch_events := 0, ch_registered := False\<rparr>)\<rparr>) \<and>
           epoll_ok p' \<and> epoll_watched p' (ch_handle ch) = 0 \<and> channels p' (ch_handle ch) = None \<and>
           interest p' (ch_handle ch) = None \<and> epoll_touches (ch_handle ch) (poller w) p'"
proof -
  from ep.clear_event_ok [OF assms(2)] obtain p' where
    p: "clear_event update_channel (poller w) ch = Inr (p', ch\<lparr>ch_events := 0, ch_registered := False\<rparr>)"
       "remove_channel p' (ch\<lparr>ch_events := 0, ch_registered := False\<rparr>) =
          Inr (p', ch\<lparr>ch_events := 0, ch_registered := False\<rparr>)"
       "epoll_chan_ok p' (ch\<lparr>ch_events := 0, ch_registered := False\<rparr>)"
       "epoll_watched p' (ch_handle ch) = 0" "epoll_touches (ch_handle ch) (poller w) p'" by auto
  from p(3) have "epoll_ok p'" "channels p' (ch_handle ch) = None" "interest p' (ch_handle ch) = None"
    by (simp_all add: chan_ok_def epoll_synced_def)
  with p(1,2,4,5) assms(1) show ?thesis by (auto simp: clear_and_remove_def on_channel_def)
qed

text \<open>
  What the callbacks of a cleanup find: \<open>released\<close> is the state in which they run, with the
  descriptor no longer watched and closed.
\<close>

definition released :: "'a cw \<Rightarrow> 'a cw \<Rightarrow> bool" where
  "released w w1 \<longleftrightarrow> c_state w1 = kDisconnected \<and> c_handle w1 = invalid_socket \<and> cleanup_done w1 \<and>
     in_poll w1 \<and> epoll_ok (poller w1) \<and> (\<forall>ch. c_channel w1 = Some ch \<longrightarrow> \<not> ch_registered ch) \<and>
     (c_channel w1 = None \<longleftrightarrow> c_channel w = None) \<and>
     (\<forall>ch. c_channel w = Some ch \<longrightarrow> epoll_watched (poller w1) (ch_handle ch) = 0 \<and>
        channels (poller w1) (ch_handle ch) = None \<and> interest (poller w1) (ch_handle ch) = None \<and>
        epoll_touches (ch_handle ch) (poller w) (poller w1)) \<and>
     pton w1 = pton w \<and> conn_os w1 = conn_os w \<and>
     read_buffer w1 = read_buffer w \<and> write_buffer w1 = write_buffer w \<and> recvs w1 = recvs w \<and>
     sends w1 = sends w \<and> app w1 = app w \<and> \<not> has_internal_close w1 \<and> \<not> has_close_func w1 \<and>
     tmgr w1 = tmgr (cancel_close_timeout w) \<and> close_timer_id w1 = 0 \<and>
     log w1 = log w @ (if c_state w = kConnected \<and> c_handle w \<noteq> invalid_socket
                       then [Ev_sys (Sys_shut_wr (c_handle w))] else []) @
              (if c_handle w \<noteq> invalid_socket then [Ev_sys (Sys_close (c_handle w))] else [])"

definition finish_cleanup :: "'a user_cb \<Rightarrow> int \<Rightarrow> bool \<Rightarrow> bool \<Rightarrow> 'a cw \<Rightarrow> 'a cw result" where
  "finish_cleanup u err internal user_close w1 =
     andthen (call_if internal Ev_internal_close (u_internal_close u) w1) (\<lambda>w2.
     andthen (call_if user_close (Ev_close err) (u_close u err) w2) (\<lambda>w3.
       case c_channel w3 of None \<Rightarrow> Inr w3
       | Some ch \<Rightarrow> Inr (post (Task_drop_channel (ch_id ch)) (w3\<lparr>c_channel := None\<rparr>))))"

lemma cancel_close_timeout_simps [simp]:
  "c_handle (cancel_close_timeout w) = c_handle w" "c_channel (cancel_close_timeout w) = c_channel w"
  "c_state (cancel_close_timeout w) = c_state w" "poller (cancel_close_timeout w) = poller w"
  "read_buffer (cancel_close_timeout w) = read_buffer w" "write_buffer (cancel_close_timeout w) = write_buffer w"
  "cleanup_done (cancel_close_timeout w) = cleanup_done w" "in_poll (cancel_close_timeout w) = in_poll w"
  "recvs (cancel_close_timeout w) = recvs w" "sends (cancel_close_timeout w) = sends w"
  "log (cancel_close_timeout w) = log w" "has_internal_close (cancel_close_timeout w) = has_internal_close w"
  "has_close_func (cancel_close_timeout w) = has_close_func w" "close_timer_id (cancel_close_timeout w) = 0"
  "app (cancel_close_timeout w) = app w" "pton (cancel_close_timeout w) = pton w"
  "conn_os (cancel_close_timeout w) = conn_os w"
  "cancel_close_timeout (w\<lparr>cleanup_done := x\<rparr>) = (cancel_close_timeout w)\<lparr>cleanup_done := x\<rparr>"
  by (simp_all add: cancel_close_timeout_def)

lemma cleanup_release:
  assumes wf: "conn_wf w" and "\<not> cleanup_done w"
  shows "\<exists>w1. cleanup u err w = finish_cleanup u err (has_internal_close w) (has_close_func w) w1 \<and> released w w1"
proof (cases "c_channel w")
  case None
  with wf assms(2) show ?thesis
    by (auto simp: cleanup_def do_cleanup_def finish_cleanup_def released_def clear_and_remove_def
          close_handle_def conn_wf_def chan_inv_def Let_def intro!: exI)
next
  case (Some ch)
  with wf assms(2) have ok: "open_channel w ch" "c_state w \<noteq> kDisconnected"
    by (auto simp: conn_wf_def chan_inv_def split: if_splits)
  define v where "v = (if c_state w = kConnected \<and> c_handle w \<noteq> invalid_socket
             then emit (Ev_sys (Sys_shut_wr (c_handle w))) (cancel_close_timeout w\<lparr>cleanup_done := True\<rparr>)
             else cancel_close_timeout w\<lparr>cleanup_done := True\<rparr>)\<lparr>c_state := kDisconnecting\<rparr>"
  have io: "in_poll w" "c_handle w \<noteq> invalid_socket" using wf ok by (simp_all add: conn_wf_def open_channel_def)
  then have cl: "cleanup u err w = do_cleanup u err v"
    using assms(2) by (simp add: cleanup_def v_def Let_def)
  have v: "c_channel v = Some ch" "poller v = poller w" "c_handle v = c_handle w"
    "has_internal_close v = has_internal_close w" "has_close_func v = has_close_func w"
    using Some by (simp_all add: v_def)
  moreover have "epoll_chan_ok (poller v) ch" using ok v by (simp add: open_channel_def)
  ultimately obtain p' where
    p: "clear_and_remove v = Inr (v\<lparr>poller := p', c_channel := Some (ch\<lparr>ch_events := 0, ch_registered := False\<rparr>)\<rparr>)"
       "epoll_ok p'" "epoll_watched p' (ch_handle ch) = 0" "channels p' (ch_handle ch) = None"
       "interest p' (ch_handle ch) = None" "epoll_touches (ch_handle ch) (poller w) p'"
    using clear_and_remove_ok [of v ch] by metis
  let ?w1 = "(emit (Ev_sys (Sys_close (c_handle w))) (v\<lparr>poller := p',
      c_channel := Some (ch\<lparr>ch_events := 0, ch_registered := False\<rparr>)\<rparr>))
      \<lparr>c_handle := invalid_socket, c_state := kDisconnected, has_internal_close := False, has_close_func := False\<rparr>"
  have "cleanup u err w = finish_cleanup u err (has_internal_close w) (has_close_func w) ?w1"
    using io p(1) v by (simp add: cl do_cleanup_def finish_cleanup_def Let_def close_handle_def)
  moreover have "released w ?w1"
    using io p(2-6) Some by (simp add: released_def v_def)
  ultimately show ?thesis by blast
qed

text \<open>The callbacks of a cleanup run under the invariant, and it is kept to the end.\<close>

lemma released_inv:
  assumes wf: "conn_wf w" and pre: "prefix (sent_cells w) (owed_cells w)" and rel: "released w w1"
  shows "conn_inv w1" and "follows w w1"
proof -
  have "\<exists>es. log w1 = log w @ es \<and> list_all neutral es" using rel by (simp add: released_def)
  then have st: "sent_cells w1 = sent_cells w" "owed_cells w1 = owed_cells w" "prefix (log w) (log w1)"
    by (auto simp: sent_cells_def owed_cells_def stream_neutral)
  have cells: "out_cells w1 = out_cells w" "in_cells w1 = in_cells w"
    using rel by (simp_all add: released_def out_cells_def in_cells_def)
  have down: "c_state w1 = kDisconnected" "\<not> is_up w1" using rel by (simp_all add: released_def is_up_def)
  have "conn_wf w1"
    using wf rel cells by (simp add: released_def conn_wf_def bufs_ok_def chan_inv_def split: option.split)
  then show "conn_inv w1" using st pre down by (simp add: conn_inv_def stream_inv_def)
  show "follows w w1" using st cells down rel by (simp add: follows_def settled_def released_def)
qed

lemma drop_keeps:
  assumes "conn_inv w" and "c_state w = kDisconnected"
  shows "conn_inv (post t (w\<lparr>c_channel := None\<rparr>))" and "follows w (post t (w\<lparr>c_channel := None\<rparr>))"
  using assms by (auto simp: cw_defs post_def follows_def settled_def split: option.split)

lemma finish_cleanup_ok:
  assumes u: "user_ok u" and inv: "conn_inv w1" and down: "c_state w1 = kDisconnected"
  shows "\<exists>w'. finish_cleanup u err i c w1 = Inr w' \<and> conn_inv w' \<and> follows w1 w' \<and>
           c_state w' = kDisconnected \<and> c_channel w' = None"
proof -
  from call_if_ok [OF user_okD(3) [OF u] inv, of Ev_internal_close i] obtain w2 where
    2: "call_if i Ev_internal_close (u_internal_close u) w1 = Inr w2" "conn_inv w2" "follows w1 w2" by auto
  from call_if_ok [OF user_okD(2) [OF u, of err] 2(2), of "Ev_close err" c] obtain w3 where
    3: "call_if c (Ev_close err) (u_close u err) w2 = Inr w3" "conn_inv w3" "follows w2 w3" by auto
  have s3: "c_state w3 = kDisconnected" using 2(3) 3(3) down by (simp add: follows_def)
  show ?thesis
  proof (cases "c_channel w3")
    case None
    then show ?thesis using 2 3 s3 by (auto simp: finish_cleanup_def intro: follows_trans)
  next
    case (Some ch)
    let ?w = "post (Task_drop_channel (ch_id ch)) (w3\<lparr>c_channel := None\<rparr>)"
    have "finish_cleanup u err i c w1 = Inr ?w" using Some 2(1) 3(1) by (simp add: finish_cleanup_def)
    moreover have "c_state ?w = kDisconnected" "c_channel ?w = None" using s3 by (simp_all add: post_def)
    ultimately show ?thesis
      using drop_keeps [OF 3(2) s3] follows_trans [OF 2(3) follows_trans [OF 3(3)]] by blast
  qed
qed

lemma cleanup_ok:
  assumes u: "user_ok u" and wf: "conn_wf w" and pre: "prefix (sent_cells w) (owed_cells w)"
  shows "\<exists>w'. cleanup u err w = Inr w' \<and> conn_inv w' \<and> follows w w' \<and> c_state w' = kDisconnected"
proof (cases "cleanup_done w")
  case True
  with wf have "c_state w = kDisconnected"
    by (auto simp: conn_wf_def chan_inv_def open_channel_def split: option.splits if_splits)
  with True wf pre show ?thesis
    by (auto simp: cleanup_def conn_wf_def conn_inv_def stream_inv_def is_up_def)
next
  case False
  from cleanup_release [OF wf False, of u err] obtain w1 where
    1: "cleanup u err w = finish_cleanup u err (has_internal_close w) (has_close_func w) w1" "released w w1" by blast
  note R = released_inv [OF wf pre 1(2)]
  have "c_state w1 = kDisconnected" using 1(2) by (simp add: released_def)
  from finish_cleanup_ok [OF u R(1) this, of err "has_internal_close w" "has_close_func w"] 1(1) R(2) show ?thesis by (auto intro: follows_trans)
qed

lemma handle_close_event_ok:
  assumes "user_ok u" and "conn_wf w" and "prefix (sent_cells w) (owed_cells w)"
  shows "\<exists>w'. handle_close_event u err w = Inr w' \<and> conn_inv w' \<and> follows w w' \<and> c_state w' = kDisconnected"
  using cleanup_ok [OF assms, of err] assms(2,3)
  by (auto simp: handle_close_event_def conn_inv_def stream_inv_def is_up_def)

lemma conn_invD: "conn_inv w \<Longrightarrow> conn_wf w" "conn_inv w \<Longrightarrow> prefix (sent_cells w) (owed_cells w)"
  by (simp_all add: conn_inv_def stream_inv_def)

lemma close_ok:
  assumes "user_ok u" and "conn_inv w"
  shows "\<exists>w'. close u w = Inr w' \<and> conn_inv w' \<and> follows w w' \<and> c_state w' = kDisconnected"
  using cleanup_ok [OF assms(1) conn_invD [OF assms(2)], of 0] assms(2)
  by (auto simp: close_def conn_inv_def conn_wf_def)

section \<open>Changing the interest\<close>

definition same_roles :: "conn_fn channel \<Rightarrow> conn_fn channel \<Rightarrow> bool" where
  "same_roles ch ch' \<longleftrightarrow> ch_handle ch' = ch_handle ch \<and> ch_on_read ch' = ch_on_read ch \<and>
     ch_on_write ch' = ch_on_write ch \<and> ch_on_close ch' = ch_on_close ch \<and> ch_tied ch' = ch_tied ch"

lemma same_rolesD: "same_roles ch ch' \<Longrightarrow> established ch' = established ch \<and> connecting_ch ch' = connecting_ch ch"
  by (simp add: same_roles_def established_def connecting_ch_def)

lemma open_channelI:
  "conn_wf w \<Longrightarrow> c_state w \<noteq> kDisconnected \<Longrightarrow> \<exists>ch. c_channel w = Some ch \<and> open_channel w ch"
  by (auto simp: conn_wf_def chan_inv_def split: option.splits)

lemma channel_update_wf:
  assumes wf: "conn_wf w" and up: "c_state w \<noteq> kDisconnected" and ch: "c_channel w = Some ch"
    and ok: "epoll_chan_ok p' ch'" and roles: "same_roles ch ch'"
    and wb: "\<forall>b. wb = Some b \<longrightarrow> buf_inv b"
    and idle: "connecting_ch ch \<Longrightarrow> \<forall>b. wb = Some b \<longrightarrow> contents b = []"
    and out: "established ch \<Longrightarrow> wb \<noteq> None \<and> (\<forall>b. wb = Some b \<and> contents b \<noteq> [] \<longrightarrow> writing ch')"
  shows "conn_wf (w\<lparr>write_buffer := wb, poller := p', c_channel := Some ch'\<rparr>)"
proof -
  have o: "open_channel w ch" using wf up ch by (simp add: conn_wf_def chan_inv_def)
  have "epoll_ok p'" using ok by (simp add: chan_ok_def)
  with o wf up ok roles wb idle out same_rolesD [OF roles] show ?thesis
    by (auto simp: conn_wf_def chan_inv_def open_channel_def bufs_ok_def same_roles_def in_cells_def out_cells_def
          split: option.split)
qed

lemma readable_0_iff: "buf_inv b \<Longrightarrow> readable_size b = 0 \<longleftrightarrow> contents b = []"
  using length_contents [of b] by (metis length_0_conv unat_eq_zero)

lemma pending_output_iff: "bufs_ok w \<Longrightarrow> pending_output (conn.truncate w) \<longleftrightarrow> out_cells w \<noteq> []"
  by (auto simp: pending_output_def conn.defs out_cells_def bufs_ok_def readable_0_iff split: option.split)

text \<open>Write events are no longer watched once nothing is to be written.\<close>

lemma remove_write_ok:
  assumes inv: "conn_inv w" and up: "c_state w \<noteq> kDisconnected" and none: "out_cells w = []"
  shows "\<exists>w'. on_channel (remove_write_event update_channel) w = Inr w' \<and> conn_inv w' \<and> follows w w' \<and>
           settled w' \<and> (\<exists>p ch. w' = w\<lparr>poller := p, c_channel := Some ch\<rparr>)"
proof -
  note wf = conn_invD(1) [OF inv]
  from open_channelI [OF wf up] obtain ch where ch: "c_channel w = Some ch" "open_channel w ch" by blast
  then have "epoll_chan_ok (poller w) ch" by (simp add: open_channel_def)
  from ep.remove_write_event_ok [OF this] obtain p' ch' where
    p: "remove_write_event update_channel (poller w) ch = Inr (p', ch')" "epoll_chan_ok p' ch'"
       "ch' = ch\<lparr>ch_events := ch_events ch AND NOT kWrite, ch_registered := (ch_events ch AND NOT kWrite \<noteq> 0)\<rparr>" by blast
  have v: "valid_events (ch_events ch)" using ch(2) by (simp add: open_channel_def chan_ok_def)
  have roles: "same_roles ch ch'" "\<not> writing ch'"
    using p(3) valid_events_ops(6) [OF v] by (simp_all add: same_roles_def writing_def)
  let ?w = "w\<lparr>poller := p', c_channel := Some ch'\<rparr>"
  have "w\<lparr>write_buffer := write_buffer w, poller := p', c_channel := Some ch'\<rparr> = ?w" by simp
  moreover have "conn_wf (w\<lparr>write_buffer := write_buffer w, poller := p', c_channel := Some ch'\<rparr>)"
    by (rule channel_update_wf [OF wf up ch(1) p(2) roles(1)])
       (use wf ch none in \<open>auto simp: conn_wf_def bufs_ok_def open_channel_def out_cells_def\<close>)
  ultimately have wf': "conn_wf ?w" by metis
  moreover have "is_up ?w = is_up w" using ch(1) same_rolesD [OF roles(1)] by (simp add: is_up_def)
  moreover have "settled ?w" using roles(2) by (simp add: settled_def)
  ultimately have "conn_inv ?w \<and> follows w ?w \<and> settled ?w"
    using inv up by (simp add: conn_inv_def stream_inv_def follows_def sent_cells_def owed_cells_def out_cells_def)
  moreover have "on_channel (remove_write_event update_channel) w = Inr ?w"
    using p(1) ch(1) by (simp add: on_channel_def)
  ultimately show ?thesis by blast
qed

lemma to_disconnecting:
  assumes "conn_inv w" and "c_state w \<noteq> kDisconnected"
  shows "conn_inv (w\<lparr>c_state := kDisconnecting\<rparr>)" and "follows w (w\<lparr>c_state := kDisconnecting\<rparr>)"
proof -
  have [simp]: "is_up (w\<lparr>c_state := kDisconnecting\<rparr>) = is_up w" "out_cells (w\<lparr>c_state := kDisconnecting\<rparr>) = out_cells w"
    "in_cells (w\<lparr>c_state := kDisconnecting\<rparr>) = in_cells w" "sent_cells (w\<lparr>c_state := kDisconnecting\<rparr>) = sent_cells w"
    "owed_cells (w\<lparr>c_state := kDisconnecting\<rparr>) = owed_cells w"
    using assms(2) by (simp_all add: is_up_def out_cells_def in_cells_def sent_cells_def owed_cells_def)
  show "conn_inv (w\<lparr>c_state := kDisconnecting\<rparr>)" using assms
    by (auto simp: conn_inv_def conn_wf_def chan_inv_def open_channel_def bufs_ok_def stream_inv_def split: option.splits)
  show "follows w (w\<lparr>c_state := kDisconnecting\<rparr>)" using assms(2) by (simp add: follows_def settled_def)
qed

text \<open>
  Starting a graceful shutdown: write events go, and the sending side is shut, exactly when
  nothing is waiting to be written.
\<close>

lemma shut_if_drained_ok:
  assumes inv: "conn_inv v" and st: "c_state v = kDisconnecting"
  shows "\<exists>x. (if \<not> pending_output (conn.truncate v)
        then andthen (on_channel_if (remove_write_event update_channel) v)
               (\<lambda>w2. Inr (emit (Ev_sys (Sys_shut_wr (c_handle w2))) w2))
        else Inr v) = Inr x \<and> conn_inv x \<and> follows v x \<and> c_state x = kDisconnecting \<and> write_buffer x = write_buffer v \<and>
       log x = log v @ (if out_cells v = [] then [Ev_sys (Sys_shut_wr (c_handle v))] else []) \<and>
       tmgr x = tmgr v \<and> close_timer_id x = close_timer_id v \<and> close_timeout_ms x = close_timeout_ms v \<and> now x = now v"
proof (cases "out_cells v = []")
  case True
  have c: "c_channel v \<noteq> None" using inv st by (auto simp: conn_inv_def conn_wf_def chan_inv_def split: option.splits)
  from remove_write_ok [OF inv _ True] st obtain x where
    x: "on_channel (remove_write_event update_channel) v = Inr x" "conn_inv x" "follows v x"
       "\<exists>p ch. x = v\<lparr>poller := p, c_channel := Some ch\<rparr>" by auto
  have n: "neutral (Ev_sys (Sys_shut_wr (c_handle x)))" by simp
  note A = alike_inv [OF alike_emit [OF n, of x]]
  have "\<not> pending_output (conn.truncate v)" using pending_output_iff [of v] inv True
    by (simp add: conn_inv_def conn_wf_def)
  with x A c st True follows_trans [OF x(3) A(3)] show ?thesis
    by (auto simp: on_channel_if_def)
next
  case False
  then have "pending_output (conn.truncate v)" using pending_output_iff [of v] inv
    by (simp add: conn_inv_def conn_wf_def)
  with False st inv show ?thesis by auto
qed

lemma start_close_timeout_simps [simp]:
  "c_state (start_close_timeout w) = c_state w" "write_buffer (start_close_timeout w) = write_buffer w"
  "log (start_close_timeout w) = log w"
  by (simp_all add: start_close_timeout_def split: prod.split)

lemma start_close_timeout_tmgr:
  "tmgr v = tmgr w \<Longrightarrow> close_timer_id v = close_timer_id w \<Longrightarrow> close_timeout_ms v = close_timeout_ms w \<Longrightarrow>
   now v = now w \<Longrightarrow> tmgr (start_close_timeout v) = tmgr (start_close_timeout w) \<and>
     close_timer_id (start_close_timeout v) = close_timer_id (start_close_timeout w)"
  by (simp add: start_close_timeout_def split: prod.splits)

lemma shutdown_in_poll_ok:
  assumes inv: "conn_inv w"
  shows "\<exists>w'. shutdown_in_poll w = Inr w' \<and> conn_inv w' \<and> follows w w' \<and>
     (c_state w \<in> {kConnecting, kConnected} \<longrightarrow> c_state w' = kDisconnecting \<and> write_buffer w' = write_buffer w \<and>
        log w' = log w @ (if out_cells w = [] then [Ev_sys (Sys_shut_wr (c_handle w))] else []) \<and>
        tmgr w' = (if close_timeout_ms w > 0 then tmgr (start_close_timeout w) else tmgr w) \<and>
        close_timer_id w' = (if close_timeout_ms w > 0 then close_timer_id (start_close_timeout w) else close_timer_id w))"
proof (cases "c_state w \<in> {kDisconnected, kDisconnecting}")
  case True
  then show ?thesis using inv by (auto simp: shutdown_in_poll_def conn_inv_def conn_wf_def)
next
  case False
  then have up: "c_state w \<noteq> kDisconnected" by simp
  from open_channelI [OF conn_invD(1) [OF inv] up] have h: "c_handle w \<noteq> invalid_socket"
    by (auto simp: open_channel_def)
  have io: "in_poll w" using inv by (simp add: conn_inv_def conn_wf_def)
  define v where "v = w\<lparr>c_state := kDisconnecting\<rparr>"
  note V = to_disconnecting [OF inv up, folded v_def]
  have v: "c_state v = kDisconnecting" "out_cells v = out_cells w" "log v = log w" "tmgr v = tmgr w"
    "close_timer_id v = close_timer_id w" "close_timeout_ms v = close_timeout_ms w" "now v = now w"
    "c_handle v = c_handle w" "write_buffer v = write_buffer w"
    by (simp_all add: v_def out_cells_def)
  from shut_if_drained_ok [OF V(1) v(1)] obtain x where
    x: "(if \<not> pending_output (conn.truncate v)
        then andthen (on_channel_if (remove_write_event update_channel) v)
               (\<lambda>w2. Inr (emit (Ev_sys (Sys_shut_wr (c_handle w2))) w2))
        else Inr v) = Inr x" "conn_inv x" "follows v x" "c_state x = kDisconnecting" "write_buffer x = write_buffer v"
       "log x = log v @ (if out_cells v = [] then [Ev_sys (Sys_shut_wr (c_handle v))] else [])"
       "tmgr x = tmgr v" "close_timer_id x = close_timer_id v" "close_timeout_ms x = close_timeout_ms v" "now x = now v"
    by blast
  define y where "y = (if close_timeout_ms x > 0 then start_close_timeout x else x)"
  have y: "shutdown_in_poll w = Inr y"
    using False h io x(1) by (simp add: shutdown_in_poll_def v_def [symmetric] y_def Let_def)
  have "alike x y" using alike_start_timeout [of x] by (auto simp: y_def alike_def)
  from alike_inv [OF this] x(2,3) V(2) have "conn_inv y \<and> follows w y" by (auto intro: follows_trans)
  moreover have "c_state y = kDisconnecting" "write_buffer y = write_buffer w" "log y = log x"
    using x(4,5) v by (simp_all add: y_def)
  moreover have "tmgr y = (if close_timeout_ms w > 0 then tmgr (start_close_timeout w) else tmgr w)"
      "close_timer_id y = (if close_timeout_ms w > 0 then close_timer_id (start_close_timeout w) else close_timer_id w)"
    using start_close_timeout_tmgr [of x w] x(7-10) v by (simp_all add: y_def)
  ultimately show ?thesis using y x(6) v by auto
qed

section \<open>Sending\<close>

text \<open>States that differ in the answers used up, the error number and the log only.\<close>

definition io_only :: "'a cw \<Rightarrow> 'a cw \<Rightarrow> bool" where
  "io_only w v \<longleftrightarrow> (\<exists>s e l. v = w\<lparr>sends := s, errno := e, log := l\<rparr> \<and>
     length s \<le> length (sends w) \<and> prefix (log w) l)"

lemma io_onlyI:
  "v = w\<lparr>sends := s, errno := e, log := l\<rparr> \<Longrightarrow> length s \<le> length (sends w) \<Longrightarrow> prefix (log w) l \<Longrightarrow> io_only w v"
  by (auto simp: io_only_def)

lemma io_onlyE:
  assumes "io_only w v"
  obtains s e l where "v = w\<lparr>sends := s, errno := e, log := l\<rparr>" "length s \<le> length (sends w)" "prefix (log w) l"
  using assms by (auto simp: io_only_def)

lemma io_only_trans: "io_only w v \<Longrightarrow> io_only v x \<Longrightarrow> io_only w x"
  unfolding io_only_def
proof (elim exE conjE)
  fix s e l sa ea la
  assume "v = w\<lparr>sends := s, errno := e, log := l\<rparr>" "x = v\<lparr>sends := sa, errno := ea, log := la\<rparr>"
    and le: "length s \<le> length (sends w)" "length sa \<le> length (sends v)" "prefix (log w) l" "prefix (log v) la"
  then have "x = w\<lparr>sends := sa, errno := ea, log := la\<rparr>" "length sa \<le> length (sends w)" "prefix (log w) la"
    by (auto intro: prefix_order.trans)
  then show "\<exists>s e l. x = w\<lparr>sends := s, errno := e, log := l\<rparr> \<and> length s \<le> length (sends w) \<and> prefix (log w) l"
    by blast
qed

lemma io_only_refl [simp]: "io_only w w"
  by (rule io_onlyI [where s = "sends w" and e = "errno w" and l = "log w"]) simp_all

lemma io_onlyD:
  assumes "io_only w v"
  shows "conn_wf v = conn_wf w" "out_cells v = out_cells w" "is_up v = is_up w" "follows w v"
    "c_state v = c_state w" "c_channel v = c_channel w" "c_handle v = c_handle w" "write_buffer v = write_buffer w"
    "read_buffer v = read_buffer w" "in_poll v = in_poll w" "length (sends v) \<le> length (sends w)"
    "high_watermark_warning v = high_watermark_warning w"
proof -
  from assms obtain s e l where v: "v = w\<lparr>sends := s, errno := e, log := l\<rparr>" "length s \<le> length (sends w)"
    "prefix (log w) l" by (rule io_onlyE)
  show "conn_wf v = conn_wf w"
    by (simp add: v conn_wf_def bufs_ok_def chan_inv_def open_channel_def in_cells_def out_cells_def
          split: option.split)
  show c: "out_cells v = out_cells w" "is_up v = is_up w" by (simp_all add: v out_cells_def is_up_def)
  moreover have "settled v = settled w" using c by (simp add: settled_def v)
  ultimately show "follows w v" using v(2,3) by (simp add: follows_def v(1))
qed (use assms in \<open>auto elim: io_onlyE\<close>)

lemma sys_send_cases:
  assumes "sys_send xs w = (r, w1)" and "c_handle w \<noteq> invalid_socket"
  shows "io_only w w1" and "r = None \<Longrightarrow> alike w w1"
    and "r = Some n \<Longrightarrow> n \<le> length xs \<and> n \<le> MAX_RW_COUNT \<and> length (sends w1) < length (sends w) \<and>
           sent_cells w1 = sent_cells w @ take n xs \<and> owed_cells w1 = owed_cells w"
proof -
  have "w1 = w\<lparr>sends := sends w1, errno := errno w1, log := log w1\<rparr> \<and> length (sends w1) \<le> length (sends w) \<and>
      prefix (log w) (log w1)"
    using assms by (auto simp: sys_send_def Let_def emit_def split: list.splits send_answer.splits)
  then show "io_only w w1" by (blast intro: io_onlyI)
  show "r = None \<Longrightarrow> alike w w1" using assms
    by (auto simp: sys_send_def alike_def Let_def split: list.splits send_answer.splits)
  show "r = Some n \<Longrightarrow> n \<le> length xs \<and> n \<le> MAX_RW_COUNT \<and> length (sends w1) < length (sends w) \<and>
           sent_cells w1 = sent_cells w @ take n xs \<and> owed_cells w1 = owed_cells w"
    using assms by (auto simp: sys_send_def Let_def sent_cells_def owed_cells_def emit_def
          split: list.splits send_answer.splits prod.split)
       (cases "stream (log w)"; simp)+
qed

lemma map_drop_split: "map f (drop n xs) = map f (take k (drop n xs)) @ map f (drop (n + k) xs)"
proof -
  have "drop n xs = take k (drop n xs) @ drop (n + k) xs" by (metis add.commute append_take_drop_id drop_drop)
  then show ?thesis by (metis map_append)
qed

lemma direct_write_ok:
  assumes "direct_write data goal n w = (r, w1)" and "c_handle w \<noteq> invalid_socket"
    and "n \<le> goal" and "goal \<le> length data"
    and "sent_cells w @ map Some (drop n data) = owed_cells w"
  shows "io_only w w1 \<and> prefix (sent_cells w1) (owed_cells w1) \<and>
     (\<forall>m. r = Inr m \<longrightarrow> n \<le> m \<and> m \<le> goal \<and> sent_cells w1 @ map Some (drop m data) = owed_cells w1)"
  using assms
proof (induction data goal n w rule: direct_write.induct)
  case (1 data goal n w)
  let ?xs = "map Some (take (goal - n) (drop n data)) :: cell list"
  obtain r1 v where v: "sys_send ?xs w = (r1, v)" by (cases "sys_send ?xs w") auto
  note S = sys_send_cases [OF v "1.prems"(2)]
  note D = io_onlyD [OF S(1)]
  have pre: "prefix (sent_cells w) (owed_cells w)" using "1.prems"(5) by (metis prefixI)
  show ?case
  proof (cases "n < goal")
    case False
    with "1.prems" pre show ?thesis by (auto simp: direct_write.simps [of data goal n w])
  next
    case lt: True
    show ?thesis
    proof (cases r1)
      case None
      note A = alike_cells [OF S(2) [OF None]]
      show ?thesis
      proof (cases "handle_error_action (errno v)")
        case kContinue
        then have "direct_write data goal n v = (r, w1)" using "1.prems"(1) lt v None by (simp add: direct_write.simps [of data goal n w])
        moreover have "c_handle v \<noteq> invalid_socket" "sent_cells v @ map Some (drop n data) = owed_cells v"
          using D(7) A "1.prems"(2,5) by simp_all
        ultimately have "io_only v w1 \<and> prefix (sent_cells w1) (owed_cells w1) \<and>
            (\<forall>m. r = Inr m \<longrightarrow> n \<le> m \<and> m \<le> goal \<and> sent_cells w1 @ map Some (drop m data) = owed_cells w1)"
          using "1.IH"(1) [OF lt v [symmetric] None kContinue _ _ "1.prems"(3,4)] by blast
        then show ?thesis using io_only_trans [OF S(1)] by auto
      qed (use "1.prems" lt v None A pre S(1) in \<open>auto simp: direct_write.simps [of data goal n w]\<close>)
    next
      case (Some k)
      note K = S(3) [OF Some]
      have k: "k \<le> goal - n" using K lt "1.prems"(4) by simp
      have cells: "sent_cells v @ map Some (drop (n + k) data) = owed_cells v"
      proof -
        have "take k ?xs = map Some (take k (drop n data))" using k by (simp add: take_map min_absorb1)
        moreover have "map Some (drop n data) = map Some (take k (drop n data)) @ map Some (drop (n + k) data)"
          by (rule map_drop_split)
        ultimately show ?thesis using "1.prems"(5) K by simp
      qed
      have prev: "prefix (sent_cells v) (owed_cells v)" using cells by (metis prefixI)
      show ?thesis
      proof (cases "k > 0")
        case True
        then have "direct_write data goal (n + k) v = (r, w1)"
          using "1.prems"(1) lt v Some by (simp add: direct_write.simps [of data goal n w])
        moreover have "c_handle v \<noteq> invalid_socket" "n + k \<le> goal" using D(7) "1.prems"(2) k lt by simp_all
        ultimately have "io_only v w1 \<and> prefix (sent_cells w1) (owed_cells w1) \<and>
            (\<forall>m. r = Inr m \<longrightarrow> n + k \<le> m \<and> m \<le> goal \<and> sent_cells w1 @ map Some (drop m data) = owed_cells w1)"
          using "1.IH"(2) [OF lt v [symmetric] Some True _ _ _ "1.prems"(4) cells] by blast
        then show ?thesis using io_only_trans [OF S(1)] by auto
      next
        case False
        with "1.prems" lt v Some cells prev S(1) show ?thesis by (auto simp: direct_write.simps [of data goal n w])
      qed
    qed
  qed
qed

text \<open>Queueing and the high watermark.\<close>

lemma queue_output_ok:
  assumes wf: "conn_wf w" and up: "is_up w" and ne: "xs \<noteq> []"
    and room: "length (out_cells w) + length xs \<le> 2 ^ 60"
    and cells: "sent_cells w @ out_cells w @ map Some xs = owed_cells w"
  shows "\<exists>w'. queue_output xs w = Inr w' \<and> conn_inv w' \<and> follows w w' \<and> is_up w' \<and>
           out_cells w' = out_cells w @ map Some xs \<and>
           (\<exists>b p ch. w' = w\<lparr>write_buffer := Some b, poller := p, c_channel := Some ch\<rparr>)"
proof -
  from up obtain ch where ch: "c_channel w = Some ch" "established ch" "c_state w \<noteq> kDisconnected"
    by (auto simp: is_up_def)
  with wf have oc: "open_channel w ch" by (simp add: conn_wf_def chan_inv_def)
  with ch(2) obtain b where b: "write_buffer w = Some b" by (auto simp: open_channel_def)
  with wf have bi: "buf_inv b" by (simp add: conn_wf_def bufs_ok_def)
  have "unat (readable_size b) + length xs \<le> 2 ^ 60"
    using room length_contents [OF bi] b by (simp add: out_cells_def)
  from append_bytes_correct [OF bi ne this] obtain b' where
    b': "append_bytes b xs = Inr b'" "buf_inv b'" "contents b' = contents b @ map Some xs" by blast
  have "epoll_chan_ok (poller w) ch" using oc by (simp add: open_channel_def)
  from ep.add_write_event_ok [OF this] obtain p' ch' where
    p: "add_write_event update_channel (poller w) ch = Inr (p', ch')" "epoll_chan_ok p' ch'"
       "ch' = ch\<lparr>ch_events := ch_events ch OR kWrite, ch_registered := True\<rparr>" by blast
  have v: "valid_events (ch_events ch)" using oc by (simp add: open_channel_def chan_ok_def)
  have roles: "same_roles ch ch'" "writing ch'"
    using p(3) valid_events_ops(5) [OF v] by (simp_all add: same_roles_def writing_def)
  let ?w = "w\<lparr>write_buffer := Some b', poller := p', c_channel := Some ch'\<rparr>"
  have "conn_wf ?w"
    by (rule channel_update_wf [OF wf ch(3,1) p(2) roles(1)])
       (use b'(2) roles(2) ch(2) in \<open>auto simp: established_def connecting_ch_def\<close>)
  moreover have o: "out_cells ?w = out_cells w @ map Some xs" "sent_cells ?w = sent_cells w" "owed_cells ?w = owed_cells w"
    using b b'(3) by (simp_all add: out_cells_def sent_cells_def owed_cells_def)
  moreover have u': "is_up ?w" using ch same_rolesD [OF roles(1)] by (simp add: is_up_def)
  moreover have "prefix (sent_cells w) (owed_cells w)" using cells by (metis prefixI)
  ultimately have "conn_inv ?w"
    using cells by (simp add: conn_inv_def stream_inv_def)
  moreover have "follows w ?w" using o(1) u' ch(3) ne by (simp add: follows_def settled_def)
  moreover have "queue_output xs w = Inr ?w" using b b'(1) p(1) ch(1) by (simp add: queue_output_def on_channel_def)
  ultimately show ?thesis using o(1) u' by blast
qed

lemma up_has_buffers:
  assumes "conn_wf w" and "is_up w"
  shows "\<exists>b. write_buffer w = Some b \<and> buf_inv b" "\<exists>b. read_buffer w = Some b \<and> buf_inv b"
    "c_handle w \<noteq> invalid_socket"
  using assms by (auto simp: is_up_def conn_wf_def chan_inv_def open_channel_def bufs_ok_def)

lemma check_high_watermark_ok:
  assumes u: "user_ok u" and inv: "conn_inv w" and b: "write_buffer w \<noteq> None"
  shows "\<exists>w'. check_high_watermark u w = Inr w' \<and> conn_inv w' \<and> follows w w'"
proof -
  let ?l = "sint (high_watermark w)"
  from call_if_ok [OF user_okD(4) [OF u, of ?l] inv, of "Ev_watermark ?l" "has_watermark_func w"] obtain v where
    v: "call_if (has_watermark_func w) (Ev_watermark ?l) (u_watermark u ?l) w = Inr v" "conn_inv v" "follows w v" by auto
  note A = alike_inv [OF alike_warning [of v True]]
  from v A inv b follows_trans [OF v(3) A(3)] show ?thesis by (auto simp: check_high_watermark_def)
qed

lemma emit_queued_cells:
  "sent_cells (emit (Ev_queued data) w) = sent_cells w"
  "owed_cells (emit (Ev_queued data) w) = owed_cells w @ map Some data"
  by (cases "stream (log w)"; simp add: sent_cells_def owed_cells_def emit_def)+

lemma io_only_emit: "io_only w (emit e w)"
  by (rule io_onlyI [where s = "sends w" and e = "errno w" and l = "log w @ [e]"]) (simp_all add: emit_def)

lemma send_in_poll_thread_ok:
  assumes u: "user_ok u" and inv: "conn_inv w" and ne: "data \<noteq> []"
    and room: "length (out_cells w) + length data \<le> 2 ^ 60"
  shows "\<exists>w'. send_in_poll_thread u data w = Inr w' \<and> conn_inv w' \<and> follows w w'"
proof (cases "c_state w = kConnected")
  case False
  with inv show ?thesis
    by (auto simp: send_in_poll_thread_def conn_inv_def conn_wf_def split: option.split)
next
  case conn: True
  note wf = conn_invD(1) [OF inv]
  from open_channelI [OF wf] conn obtain ch where ch: "c_channel w = Some ch" "open_channel w ch" by auto
  then have up: "is_up w" using conn by (auto simp: is_up_def open_channel_def)
  from up_has_buffers [OF wf up] obtain b where b: "write_buffer w = Some b" "buf_inv b" and h: "c_handle w \<noteq> invalid_socket" by blast
  have out: "out_cells w = contents b" using b by (simp add: out_cells_def)
  have io: "in_poll w" using wf by (simp add: conn_wf_def)
  define w0 where "w0 = emit (Ev_queued data) w"
  note D0 = io_onlyD [OF io_only_emit [of w "Ev_queued data", folded w0_def]]
  have c0: "sent_cells w0 @ out_cells w0 @ map Some data = owed_cells w0"
    using inv up D0(2) by (simp add: w0_def emit_queued_cells conn_inv_def stream_inv_def)
  show ?thesis
  proof (cases "contents b = []")
    case False
    from queue_output_ok [OF _ _ ne _ c0] wf up room D0 obtain v where
      v: "queue_output data w0 = Inr v" "conn_inv v" "follows w0 v" "is_up v" by auto
    from up_has_buffers(1) [OF conn_invD(1) [OF v(2)] v(4)] have "write_buffer v \<noteq> None" by auto
    from check_high_watermark_ok [OF u v(2) this] obtain w' where
      w': "check_high_watermark u v = Inr w'" "conn_inv w'" "follows v w'" by blast
    have "readable_size b > 0" using False readable_0_iff [OF b(2)] by (simp add: word_neq_0_conv)
    then have "send_in_poll_thread u data w = Inr w'"
      using io conn ch b v(1) w'(1) by (simp add: send_in_poll_thread_def w0_def [symmetric] Let_def)
    then show ?thesis using w' follows_trans [OF D0(4) follows_trans [OF v(3)]] by blast
  next
    case empty: True
    let ?goal = "min (length data) kDirectWriteBudget"
    obtain r v where dw: "direct_write data ?goal 0 w0 = (r, v)" by fastforce
    have "sent_cells w0 @ map Some (drop 0 data) = owed_cells w0" using c0 out empty D0(2) by simp
    from direct_write_ok [OF dw _ _ _ this] D0(7) h have
      V: "io_only w0 v" "prefix (sent_cells v) (owed_cells v)"
         "\<And>m. r = Inr m \<Longrightarrow> m \<le> length data \<and> sent_cells v @ map Some (drop m data) = owed_cells v" by auto
    note D = io_onlyD [OF V(1)]
    have wfv: "conn_wf v" and upv: "is_up v" and ov: "out_cells v = []"
      using wf up D D0 out empty by simp_all
    have fv: "follows w v" using follows_trans [OF D0(4) D(4)] .
    have "readable_size b = 0" using empty readable_0_iff [OF b(2)] by simp
    then have eq: "send_in_poll_thread u data w = (case r of Inl err \<Rightarrow> handle_close_event u err v
        | Inr n \<Rightarrow> andthen (if n < length data then queue_output (drop n data) v else Inr v) (check_high_watermark u))"
      using io conn ch b dw by (simp add: send_in_poll_thread_def w0_def [symmetric] Let_def split: sum.split)
    show ?thesis
    proof (cases r)
      case (Inl err)
      from handle_close_event_ok [OF u wfv V(2), of err] fv eq Inl show ?thesis by (auto intro: follows_trans)
    next
      case (Inr n)
      have "\<exists>x. (if n < length data then queue_output (drop n data) v else Inr v) = Inr x \<and> conn_inv x \<and>
          follows v x \<and> is_up x"
      proof (cases "n < length data")
        case True
        have "length (out_cells v) + length (drop n data) \<le> 2 ^ 60" using ov room by simp
        from queue_output_ok [OF wfv upv _ this] True V(3) [OF Inr] ov show ?thesis by auto
      next
        case False
        with V(2) V(3) [OF Inr] wfv upv ov show ?thesis by (simp add: conn_inv_def stream_inv_def)
      qed
      then obtain x where x: "(if n < length data then queue_output (drop n data) v else Inr v) = Inr x"
        "conn_inv x" "follows v x" "is_up x" by blast
      from up_has_buffers(1) [OF conn_invD(1) [OF x(2)] x(4)] have "write_buffer x \<noteq> None" by auto
      from check_high_watermark_ok [OF u x(2) this] x(1) eq Inr follows_trans [OF fv follows_trans [OF x(3)]]
      show ?thesis by auto
    qed
  qed
qed

section \<open>The write handler\<close>

lemma peek_ok: "buf_inv b \<Longrightarrow> peek b = Inr (contents b)"
  by (simp add: peek_def mem_read_contents)

lemma been_read_nat:
  assumes inv: "buf_inv b" and n: "n \<le> length (contents b)"
  shows "\<exists>b'. been_read b (of_nat n) = Inr b' \<and> buf_inv b' \<and> contents b' = drop n (contents b)"
proof -
  have le: "n \<le> unat (readable_size b)" using n length_contents [OF inv] by simp
  also have "\<dots> \<le> 2 ^ 61" using readable_le_capacity [OF inv] inv by (simp add: buf_inv_def)
  finally have "n < 2 ^ 64" by simp
  then have un: "unat (of_nat n :: size_t) = n" by (simp add: unat_of_nat_lt)
  from le this have "of_nat n \<le> readable_size b" by (simp add: word_le_nat_alt)
  from been_read_correct [OF inv this] un show ?thesis by auto
qed

text \<open>One successful \<open>send\<close> of the write handler.\<close>

lemma drain_step:
  assumes inv: "conn_inv w" and up: "is_up w" and b: "write_buffer w = Some b"
    and s: "sys_send (contents b) w = (Some n, w1)"
  shows "\<exists>b1. been_read b (of_nat n) = Inr b1 \<and> buf_inv b1 \<and> contents b1 = drop n (contents b) \<and>
           conn_inv (w1\<lparr>write_buffer := Some b1\<rparr>) \<and> is_up (w1\<lparr>write_buffer := Some b1\<rparr>) \<and>
           length (sends w1) < length (sends w) \<and> prefix (log w) (log w1) \<and> c_state w1 = c_state w"
proof -
  note wf = conn_invD(1) [OF inv]
  note h = up_has_buffers [OF wf up]
  note S = sys_send_cases [OF s h(3)] and D = io_onlyD [OF sys_send_cases(1) [OF s h(3)]]
  have bi: "buf_inv b" using h(1) b by simp
  note K = S(3) [OF refl]
  from K been_read_nat [OF bi] obtain b1 where
    b1: "been_read b (of_nat n) = Inr b1" "buf_inv b1" "contents b1 = drop n (contents b)" by blast
  from up obtain ch where ch: "c_channel w = Some ch" "established ch" "c_state w \<noteq> kDisconnected"
    by (auto simp: is_up_def)
  with wf have oc: "open_channel w ch" by (simp add: conn_wf_def chan_inv_def)
  let ?w = "w1\<lparr>write_buffer := Some b1\<rparr>"
  have c1: "c_channel w1 = Some ch" "c_state w1 \<noteq> kDisconnected" "conn_wf w1" using ch D wf by simp_all
  then have "open_channel w1 ch" by (simp add: conn_wf_def chan_inv_def)
  then have "epoll_chan_ok (poller w1) ch" by (simp add: open_channel_def)
  then have "conn_wf (w1\<lparr>write_buffer := Some b1, poller := poller w1, c_channel := Some ch\<rparr>)"
    by (rule channel_update_wf [OF c1(3,2,1)])
       (use b1 oc ch b in \<open>auto simp: same_roles_def open_channel_def out_cells_def established_def connecting_ch_def\<close>)
  moreover have "w1\<lparr>write_buffer := Some b1, poller := poller w1, c_channel := Some ch\<rparr> = ?w"
    using c1(1) by simp
  ultimately have wf': "conn_wf ?w" by simp
  have cells: "sent_cells ?w = sent_cells w @ take n (contents b)" "owed_cells ?w = owed_cells w"
    "out_cells ?w = drop n (contents b)"
    using K b1(3) by (simp_all add: sent_cells_def owed_cells_def out_cells_def)
  have "sent_cells w @ contents b = owed_cells w" using inv up b by (simp add: conn_inv_def stream_inv_def out_cells_def)
  then have e: "sent_cells ?w @ out_cells ?w = owed_cells ?w" using cells by simp
  have "is_up ?w" using ch c1 by (simp add: is_up_def)
  moreover have "conn_inv ?w" using wf' e by (auto simp: conn_inv_def stream_inv_def intro: prefixI [OF e [symmetric]])
  moreover have "prefix (log w) (log w1)" using D(4) by (simp add: follows_def)
  ultimately show ?thesis using b1 K D(5) by blast
qed

text \<open>A connection whose write handler may run: up, or closed with output left over.\<close>

definition writable :: "'a cw \<Rightarrow> bool" where
  "writable w \<longleftrightarrow> is_up w \<or> c_state w = kDisconnected \<and> c_handle w = invalid_socket \<and> out_cells w \<noteq> []"

lemma writable_buffer: "conn_inv w \<Longrightarrow> writable w \<Longrightarrow> \<exists>b. write_buffer w = Some b \<and> buf_inv b"
  using up_has_buffers(1) [of w]
  by (auto simp: writable_def conn_inv_def conn_wf_def bufs_ok_def out_cells_def split: option.splits)

lemma low_watermark_call:
  assumes u: "user_ok u" and inv: "conn_inv w" and up: "is_up w"
  shows "\<exists>w3. call_if (has_watermark_func w) (Ev_watermark l) (u_watermark u l) w = Inr w3 \<and> conn_inv w3 \<and>
           follows w w3 \<and> writable w3"
proof (cases "has_watermark_func w")
  case True
  let ?v = "emit (Ev_watermark l) w"
  have n: "neutral (Ev_watermark l)" by simp
  note A = alike_inv [OF alike_emit [OF n, of w]] and C = alike_cells [OF alike_emit [OF n, of w]]
  have iv: "conn_inv ?v" "is_up ?v" using A C inv up by simp_all
  from callback_okD [OF user_okD(4) [OF u] iv(1)] obtain w3 where
    3: "u_watermark u l ?v = Inr w3" "conn_inv w3" "follows ?v w3" by blast
  have "c_state w3 = kDisconnected \<Longrightarrow> out_cells w3 \<noteq> []"
    using u 3(1) iv unfolding user_ok_def is_up_def by blast
  then have "writable w3" using 3(3) iv(2) by (auto simp: writable_def follows_def is_up_def)
  with True 3 follows_trans [OF A(3) 3(3)] show ?thesis by (simp add: call_if_def)
qed (use inv up in \<open>simp add: call_if_def writable_def\<close>)

definition loop_end :: "'a cw \<Rightarrow> bool \<Rightarrow> 'a cw \<Rightarrow> bool" where
  "loop_end w r w' \<longleftrightarrow> conn_inv w' \<and> prefix (log w) (log w') \<and> length (sends w') \<le> length (sends w) \<and>
     (if r then c_state w' = kDisconnected else is_up w') \<and> (c_state w = kDisconnected \<longrightarrow> r) \<and>
     (c_state w = kDisconnecting \<longrightarrow> c_state w' \<in> {kDisconnecting, kDisconnected})"

lemma loop_end_step:
  "loop_end v r w' \<Longrightarrow> prefix (log w) (log v) \<Longrightarrow> length (sends v) \<le> length (sends w) \<Longrightarrow>
   c_state w \<noteq> kDisconnected \<or> c_state v = kDisconnected \<Longrightarrow>
   c_state w = kDisconnecting \<longrightarrow> c_state v \<in> {kDisconnecting, kDisconnected} \<Longrightarrow> loop_end w r w'"
  by (auto simp: loop_end_def intro: prefix_order.trans)

definition loop_ok :: "nat \<Rightarrow> 'a user_cb \<Rightarrow> bool" where
  "loop_ok fuel u \<longleftrightarrow> (\<forall>w. conn_inv w \<longrightarrow> writable w \<longrightarrow> length (sends w) < fuel \<longrightarrow>
     (\<exists>r w'. write_loop fuel u w = Inr (r, w') \<and> loop_end w r w'))"

lemma write_loop_closed:
  assumes b: "write_buffer w = Some b" "buf_inv b" "readable_size b > 0" and inv: "conn_inv w"
    and d: "c_handle w = invalid_socket" "c_state w = kDisconnected"
  shows "\<exists>r w'. write_loop (Suc fuel) u w = Inr (r, w') \<and> loop_end w r w'"
proof -
  have s: "sys_send (contents b) w = (None, w\<lparr>errno := EBADF\<rparr>)" using d by (simp add: sys_send_def)
  have "conn_inv (w\<lparr>errno := EBADF\<rparr>)" using inv by (simp add: alike_inv(2) [OF alike_errno])
  with b d s show ?thesis
    by (auto simp: peek_ok handle_error_action_def handle_close_event_def loop_end_def)
qed

lemma write_loop_sent:
  assumes u: "user_ok u" and IH: "loop_ok fuel u" and inv: "conn_inv w" and up: "is_up w"
    and fuel: "length (sends w) < Suc fuel"
    and b: "write_buffer w = Some b" "buf_inv b" "readable_size b > 0"
    and s: "sys_send (contents b) w = (Some n, v)" "n > 0"
  shows "\<exists>r w'. write_loop (Suc fuel) u w = Inr (r, w') \<and> loop_end w r w'"
proof -
  from drain_step [OF inv up b(1) s(1)] obtain b1 where
    1: "been_read b (of_nat n) = Inr b1" "conn_inv (v\<lparr>write_buffer := Some b1\<rparr>)"
       "is_up (v\<lparr>write_buffer := Some b1\<rparr>)" "length (sends v) < length (sends w)" "prefix (log w) (log v)"
       "c_state v = c_state w" by blast
  have st: "c_state w \<noteq> kDisconnected" using up by (simp add: is_up_def)
  let ?w2 = "v\<lparr>write_buffer := Some b1\<rparr>" and ?l = "sint (low_watermark v)"
  from low_watermark_call [OF u 1(2,3), of ?l] obtain w3 where
    3: "call_if (has_watermark_func ?w2) (Ev_watermark ?l) (u_watermark u ?l) ?w2 = Inr w3" "conn_inv w3"
       "follows ?w2 w3" "writable w3" by blast
  let ?w3 = "w3\<lparr>high_watermark_warning := False\<rparr>"
  note A = alike_inv [OF alike_warning [of w3 False]] and C = alike_cells [OF alike_warning [of w3 False]]
  have f: "prefix (log v) (log w3)" "length (sends w3) \<le> length (sends v)"
      "c_state w = kDisconnecting \<longrightarrow> c_state w3 \<in> {kDisconnecting, kDisconnected}"
    using 3(3) 1(6) by (simp_all add: follows_def)
  have w3: "conn_inv ?w3" "writable ?w3" "length (sends ?w3) < fuel"
    using A C 3(2,4) 1(4) fuel f(2) by (simp_all add: writable_def)
  have "writable ?w2" "length (sends ?w2) < fuel" using 1(3,4) fuel by (simp_all add: writable_def)
  with IH 1(2) obtain r2 x2 where
    i2: "write_loop fuel u ?w2 = Inr (r2, x2)" "loop_end ?w2 r2 x2" unfolding loop_ok_def by blast
  from IH w3 obtain r3 x3 where
    i3: "write_loop fuel u ?w3 = Inr (r3, x3)" "loop_end ?w3 r3 x3" unfolding loop_ok_def by blast
  have "loop_end w r2 x2" using loop_end_step [OF i2(2)] 1(4-6) st by simp
  moreover have "loop_end w r3 x3"
    using loop_end_step [OF i3(2)] prefix_order.trans [OF 1(5) f(1)] f(2,3) 1(4) st by simp
  ultimately show ?thesis using b s peek_ok [OF b(2)] 1(1) i2(1) i3(1) 3(1) by (auto simp: Let_def)
qed

lemma write_loop_not_sent:
  assumes u: "user_ok u" and IH: "loop_ok fuel u" and inv: "conn_inv w" and up: "is_up w"
    and fuel: "length (sends w) < Suc fuel"
    and b: "write_buffer w = Some b" "buf_inv b" "readable_size b > 0"
    and s: "sys_send (contents b) w = (r, v)" "r = None \<or> r = Some 0"
  shows "\<exists>r w'. write_loop (Suc fuel) u w = Inr (r, w') \<and> loop_end w r w'"
proof -
  have st: "c_state w \<noteq> kDisconnected" using up by (simp add: is_up_def)
  have h: "c_handle w \<noteq> invalid_socket" using up_has_buffers(3) [OF conn_invD(1) [OF inv] up] .
  note S = sys_send_cases [OF s(1) h] and D = io_onlyD [OF sys_send_cases(1) [OF s(1) h]]
  have pl: "prefix (log w) (log v)" using D(4) by (simp add: follows_def)
  have iv: "conn_inv v" "is_up v"
    using s(2) alike_inv(2) [OF S(2)] alike_cells(5) [OF S(2)] S(3) [of 0] D inv up
    by (auto simp: conn_inv_def stream_inv_def)
  have ns: "\<not> (case r of None \<Rightarrow> False | Some n \<Rightarrow> n > 0)" using s(2) by auto
  note eq = b peek_ok [OF b(2)] s(1) ns
  show ?thesis
  proof (cases "handle_error_action (errno v)")
    case kBreak
    with eq iv pl D(5,11) st show ?thesis by (auto simp: loop_end_def)
  next
    case kContinue
    have "length (sends v) < length (sends w)"
      using kContinue s S(3) sys_send_retry_less by auto
    with IH iv fuel obtain r2 x2 where
      i2: "write_loop fuel u v = Inr (r2, x2)" "loop_end v r2 x2" by (auto simp: writable_def loop_ok_def)
    from loop_end_step [OF i2(2) pl D(11)] st D(5) i2(1) eq kContinue show ?thesis by auto
  next
    case kClose
    from handle_close_event_ok [OF u conn_invD [of v], of "errno v"] iv obtain x where
      x: "handle_close_event u (errno v) v = Inr x" "conn_inv x" "follows v x" "c_state x = kDisconnected" by blast
    with eq kClose pl D(11) st show ?thesis
      by (auto simp: loop_end_def follows_def intro: prefix_order.trans)
  qed
qed

lemma write_loop_ok:
  fixes u :: "'a user_cb"
  assumes u: "user_ok u"
  shows "loop_ok fuel u"
proof (induction fuel)
  case (Suc fuel)
  show ?case unfolding loop_ok_def
  proof (intro allI impI)
    fix w :: "'a cw" assume inv: "conn_inv w" and wr: "writable w" and fuel: "length (sends w) < Suc fuel"
    from writable_buffer [OF inv wr] obtain b where b: "write_buffer w = Some b" "buf_inv b" by blast
    show "\<exists>r w'. write_loop (Suc fuel) u w = Inr (r, w') \<and> loop_end w r w'"
    proof (cases "contents b = []")
      case True
      with readable_0_iff [OF b(2)] have "readable_size b = 0" by simp
      with b inv wr True show ?thesis by (auto simp: loop_end_def writable_def out_cells_def is_up_def)
    next
      case False
      then have rd: "readable_size b > 0" using readable_0_iff [OF b(2)] by (simp add: word_neq_0_conv)
      obtain r v where s: "sys_send (contents b) w = (r, v)" by fastforce
      consider (closed) "\<not> is_up w" | (sent) n where "is_up w" "r = Some n" "n > 0"
        | (not_sent) "is_up w" "r = None \<or> r = Some 0" by (cases r) auto
      then show ?thesis
      proof cases
        case closed
        with wr write_loop_closed [OF b rd inv] show ?thesis by (auto simp: writable_def)
      next
        case sent
        with write_loop_sent [OF u Suc.IH inv _ fuel b rd] s show ?thesis by blast
      next
        case not_sent
        with write_loop_not_sent [OF u Suc.IH inv _ fuel b rd s] show ?thesis by blast
      qed
    qed
  qed
qed (simp add: loop_ok_def)

text \<open>The whole handler.\<close>

lemma clear_keeps:
  assumes inv: "conn_inv w" and b: "write_buffer w = Some b" "contents b = []"
  shows "conn_inv (w\<lparr>write_buffer := Some (clear b)\<rparr>)" "out_cells (w\<lparr>write_buffer := Some (clear b)\<rparr>) = []"
proof -
  have bi: "buf_inv b" using inv b by (simp add: conn_inv_def conn_wf_def bufs_ok_def)
  note C = clear_correct [OF bi]
  then show o: "out_cells (w\<lparr>write_buffer := Some (clear b)\<rparr>) = []" by (simp add: out_cells_def)
  show "conn_inv (w\<lparr>write_buffer := Some (clear b)\<rparr>)" using inv b C o
    by (auto simp: cw_defs split: option.splits)
qed

lemma handle_write_event_ok:
  assumes u: "user_ok u" and inv: "conn_inv w" and wr: "writable w"
  shows "\<exists>w'. handle_write_event u w = Inr w' \<and> conn_inv w' \<and> settled w' \<and> prefix (log w) (log w') \<and>
           length (sends w') \<le> length (sends w) \<and> (is_up w' \<or> c_state w' = kDisconnected) \<and>
           (c_state w = kDisconnecting \<and> c_state w' \<noteq> kDisconnected \<and> out_cells w' = [] \<longrightarrow>
              is_up w' \<and> last (log w') = Ev_sys (Sys_shut_wr (c_handle w')))"
proof -
  from write_loop_ok [OF u, of "Suc (length (sends w))"] inv wr obtain r v where
    v: "write_loop (Suc (length (sends w))) u w = Inr (r, v)" "loop_end w r v" by (auto simp: loop_ok_def)
  have io: "in_poll w" using inv by (simp add: conn_inv_def conn_wf_def)
  have iv: "conn_inv v" "prefix (log w) (log v)" "length (sends v) \<le> length (sends w)"
    using v(2) by (simp_all add: loop_end_def)
  show ?thesis
  proof (cases r)
    case True
    with v io show ?thesis by (auto simp: handle_write_event_def loop_end_def settled_def is_up_def)
  next
    case False
    with v(2) have up: "is_up v" by (simp add: loop_end_def)
    from up_has_buffers(1) [OF conn_invD(1) [OF iv(1)] up] obtain b where b: "write_buffer v = Some b" "buf_inv b" by blast
    show ?thesis
    proof (cases "contents b = []")
      case ne: False
      with v(1) False io b iv up readable_0_iff [OF b(2)] show ?thesis
        by (auto simp: handle_write_event_def settled_def out_cells_def)
    next
      case empty: True
      let ?v = "v\<lparr>write_buffer := Some (clear b)\<rparr>"
      note C = clear_keeps [OF iv(1) b(1) empty]
      have "c_state ?v \<noteq> kDisconnected" using up by (simp add: is_up_def)
      from remove_write_ok [OF C(1) this C(2)] obtain x where
        x: "on_channel (remove_write_event update_channel) ?v = Inr x" "conn_inv x" "follows ?v x" "settled x"
           "\<exists>p ch. x = ?v\<lparr>poller := p, c_channel := Some ch\<rparr>" by blast
      let ?e = "Ev_sys (Sys_shut_wr (c_handle x))"
      have n: "neutral ?e" by simp
      note A = alike_inv [OF alike_emit [OF n, of x]] and S = alike_cells(6) [OF alike_emit [OF n, of x]]
      have "handle_write_event u w = Inr (if c_state x = kDisconnecting then emit ?e x else x)"
        using v False io b x(1) empty readable_0_iff [OF b(2)] by (simp add: handle_write_event_def)
      moreover have "prefix (log w) (log x)" "length (sends x) \<le> length (sends w)"
        using x(3) iv by (auto simp: follows_def intro: prefix_order.trans)
      moreover have "c_state w = kDisconnecting \<Longrightarrow> c_state x = kDisconnecting"
        using v(2) up x(5) by (auto simp: loop_end_def is_up_def)
      moreover have "is_up x" using x(3,5) up by (auto simp: follows_def is_up_def)
      ultimately show ?thesis using x A S alike_cells(5) [OF alike_emit [OF n, of x]] by auto
    qed
  qed
qed

end
