(* ===== verification/Conn_Run.thy ===== *)
theory Conn_Run
  imports Conn_Inv
begin

text \<open>
  Receiving, opening and event dispatch keep the invariant of a connection, and so does every
  sequence of things that can happen to it.
\<close>

section \<open>Receiving\<close>

text \<open>
  What a readable socket with the answers \<open>as\<close> delivers: the bytes up to the end of the stream,
  the first fatal error or the point where the call would block, and how it ends.
\<close>

fun arriving :: "recv_answer list \<Rightarrow> byte list \<times> read_exit" where
  "arriving [] = ([], Rd_idle)"
| "arriving (Recv_data xs # as) =
     (if xs = [] then ([], Rd_close 0) else (xs @ fst (arriving as), snd (arriving as)))"
| "arriving (Recv_error e # as) = (case handle_error_action e of
       kBreak \<Rightarrow> ([], Rd_idle) | kContinue \<Rightarrow> arriving as | kClose \<Rightarrow> ([], Rd_close e))"

text \<open>All the bytes the socket has been given, whatever errors are reported between them.\<close>

fun recv_bytes :: "recv_answer list \<Rightarrow> byte list" where
  "recv_bytes [] = []"
| "recv_bytes (Recv_data xs # as) = xs @ recv_bytes as"
| "recv_bytes (Recv_error e # as) = recv_bytes as"

lemma arriving_not_return [simp]: "snd (arriving as) \<noteq> Rd_return"
  by (induction as rule: arriving.induct) (auto split: error_action.split)

lemma recv_update:
  assumes inv: "conn_inv w" and up: "is_up w" and b: "buf_inv b" "length (contents b) + incoming as \<le> 2 ^ 59"
  shows "conn_inv (w\<lparr>read_buffer := Some b, recvs := as, errno := e\<rparr>)"
    and "follows w (w\<lparr>read_buffer := Some b, recvs := as, errno := e\<rparr>)"
    and "is_up (w\<lparr>read_buffer := Some b, recvs := as, errno := e\<rparr>)"
proof -
  show "is_up (w\<lparr>read_buffer := Some b, recvs := as, errno := e\<rparr>)" using up by (simp add: is_up_def)
  show "follows w (w\<lparr>read_buffer := Some b, recvs := as, errno := e\<rparr>)"
    by (simp add: follows_def settled_def is_up_def out_cells_def)
  show "conn_inv (w\<lparr>read_buffer := Some b, recvs := as, errno := e\<rparr>)"
    using inv up b by (auto simp: cw_defs)
qed

lemma make_room:
  assumes "buf_inv b" and "length (contents b) \<le> 2 ^ 59"
  shows "\<exists>b1. (if writable_size b = 0 then ensure_writable_size b (1024 * 2) else Inr b) = Inr b1 \<and>
           buf_inv b1 \<and> contents b1 = contents b \<and> 0 < unat (writable_size b1)"
proof (cases "writable_size b = 0")
  case True
  have "unat (readable_size b) + unat (1024 * 2 :: size_t) \<le> 2 ^ 60"
    using assms length_contents [OF assms(1)] by simp
  from ensure_writable_size_correct [OF assms(1) this] obtain b' where
    b': "ensure_writable_size b (1024 * 2) = Inr b'" "buf_inv b'" "contents b' = contents b"
        "(1024 * 2 :: size_t) \<le> writable_size b'" by blast
  from b'(4) have "0 < unat (writable_size b')" by (simp add: word_le_nat_alt)
  with b' True show ?thesis by auto
next
  case False
  then show ?thesis using assms by (simp add: unat_gt_0)
qed

text \<open>Receiving into the room of the buffer.\<close>

lemma recv_into:
  assumes "buf_inv b" and "xs \<noteq> []" and "length xs \<le> unat (writable_size b)"
  shows "\<exists>b2 b3. copy_to_write b xs = Inr b2 \<and> been_written b2 (of_nat (length xs)) = Inr b3 \<and> buf_inv b3 \<and>
           contents b3 = contents b @ map Some xs"
  using copy_to_write_correct [OF assms(1,3)] by blast

definition recv_case :: "nat \<Rightarrow> recv_answer list \<Rightarrow> byte list option \<Rightarrow> recv_answer list \<Rightarrow> int \<Rightarrow> bool" where
  "recv_case n rs r as e \<longleftrightarrow> (case r of
       Some xs \<Rightarrow> length xs \<le> n \<and> recv_bytes rs = xs @ recv_bytes as \<and>
         (if xs = [] then arriving rs = ([], Rd_close 0) \<and> incoming as \<le> incoming rs
          else fst (arriving rs) = xs @ fst (arriving as) \<and> snd (arriving rs) = snd (arriving as) \<and>
               incoming rs = length xs + incoming as)
     | None \<Rightarrow> incoming as = incoming rs \<and> recv_bytes as = recv_bytes rs \<and> arriving rs = (case handle_error_action e of
         kBreak \<Rightarrow> ([], Rd_idle) | kContinue \<Rightarrow> arriving as | kClose \<Rightarrow> ([], Rd_close e)))"

lemma sys_recv_split:
  assumes "c_handle w \<noteq> invalid_socket" and "0 < n" and "sys_recv n w = (r, v)"
  shows "\<exists>as e. v = w\<lparr>recvs := as, errno := e\<rparr> \<and> recv_case n (recvs w) r as e"
proof (cases "recvs w")
  case Nil
  then show ?thesis using assms
    by (auto simp: sys_recv_def recv_case_def handle_error_action_def intro!: exI [of _ "recvs w"] exI [of _ EAGAIN])
next
  case (Cons a as)
  show ?thesis
  proof (cases a)
    case (Recv_error e)
    then show ?thesis using assms Cons by (auto simp: sys_recv_def recv_case_def intro!: exI [of _ as] exI [of _ e])
  next
    case (Recv_data xs)
    let ?n = "min n MAX_RW_COUNT"
    have n: "0 < ?n" using assms(2) by (simp add: MAX_RW_COUNT_def)
    show ?thesis
    proof (cases "length xs \<le> ?n")
      case True
      then show ?thesis using assms Cons Recv_data
        by (auto simp: sys_recv_def recv_case_def intro!: exI [of _ as] exI [of _ "errno w"])
    next
      case False
      then have "xs \<noteq> []" "drop ?n xs \<noteq> []" "take ?n xs \<noteq> []" using n by auto
      with False show ?thesis using assms Cons Recv_data
        by (auto simp: sys_recv_def recv_case_def Let_def intro!: exI [of _ "Recv_data (drop ?n xs) # as"] exI [of _ "errno w"])
    qed
  qed
qed

text \<open>The loop receives exactly what arrives, whatever the sizes in which it comes.\<close>

definition received :: "'a cw \<Rightarrow> recv_answer list \<Rightarrow> 'a cw \<Rightarrow> bool" where
  "received w as w' \<longleftrightarrow> conn_inv w' \<and> is_up w' \<and> in_cells w' = in_cells w @ map Some (fst (arriving as)) \<and>
     recv_bytes as = fst (arriving as) @ recv_bytes (recvs w') \<and>
     (\<exists>b rs e. w' = w\<lparr>read_buffer := Some b, recvs := rs, errno := e\<rparr>)"

lemma received_follows: "received w as w' \<Longrightarrow> follows w w'"
  by (auto simp: received_def follows_def settled_def is_up_def out_cells_def)

lemma read_loop_ok:
  assumes "conn_inv w" and "c_state w = kConnected"
  shows "\<exists>w'. read_loop hn w = Inr (snd (arriving (recvs w)), hn \<or> fst (arriving (recvs w)) \<noteq> [], w') \<and>
           received w (recvs w) w'"
  using assms
proof (induction "recv_measure w" arbitrary: w hn rule: less_induct)
  case less
  note inv = less.prems(1) and st = less.prems(2)
  note wf = conn_invD(1) [OF inv]
  from open_channelI [OF wf] st have up: "is_up w" by (auto simp: is_up_def open_channel_def)
  from up_has_buffers [OF wf up] obtain b where b: "read_buffer w = Some b" "buf_inv b" and h: "c_handle w \<noteq> invalid_socket" by blast
  have bound: "length (contents b) + incoming (recvs w) \<le> 2 ^ 59"
    using wf b by (simp add: conn_wf_def bufs_ok_def in_cells_def)
  from make_room [OF b(2)] bound obtain b1 where
    b1: "(if writable_size b = 0 then ensure_writable_size b (1024 * 2) else Inr b) = Inr b1"
        "buf_inv b1" "contents b1 = contents b" "0 < unat (writable_size b1)" by auto
  let ?w1 = "w\<lparr>read_buffer := Some b1\<rparr>"
  obtain r v where rv: "sys_recv (unat (writable_size b1)) ?w1 = (r, v)" by fastforce
  have "c_handle ?w1 \<noteq> invalid_socket" using h by simp
  from sys_recv_split [OF this b1(4) rv] obtain as e where v: "v = w\<lparr>read_buffer := Some b1, recvs := as, errno := e\<rparr>"
    and R: "recv_case (unat (writable_size b1)) (recvs w) r as e" by auto
  note eq = read_loop.simps [of hn w] st b b1(1) rv
  have stop: "received w (recvs w) v"
    if "fst (arriving (recvs w)) = []" "incoming as \<le> incoming (recvs w)" "recv_bytes (recvs w) = recv_bytes as"
    using recv_update [OF inv up b1(2), of as e] that bound b1(3) b v by (auto simp: received_def in_cells_def)
  show ?case
  proof (cases r)
    case None
    note R' = R [unfolded None recv_case_def, simplified]
    show ?thesis
    proof (cases "handle_error_action e")
      case kContinue
      have "recv_measure v < recv_measure w" using sys_recv_retry_less [OF rv [unfolded None]] kContinue v by simp
      moreover have "conn_inv v" "c_state v = kConnected"
        using recv_update(1) [OF inv up b1(2), of as e] R' bound b1(3) v st by simp_all
      ultimately obtain w' where w': "read_loop hn v = Inr (snd (arriving (recvs v)), hn \<or> fst (arriving (recvs v)) \<noteq> [], w')"
        "received v (recvs v) w'" using less.hyps [of v hn] by blast
      moreover have "received w (recvs w) w'"
        using w'(2) R' kContinue v b b1(3) by (auto simp: received_def in_cells_def)
      ultimately show ?thesis using eq None v R' kContinue by simp
    qed (use eq None v R' stop in auto)
  next
    case (Some xs)
    note R' = R [unfolded Some recv_case_def, simplified]
    show ?thesis
    proof (cases "xs = []")
      case True
      with eq Some R' stop v show ?thesis by simp
    next
      case ne: False
      from recv_into [OF b1(2) ne] R' obtain b2 b3 where
        b3: "copy_to_write b1 xs = Inr b2" "been_written b2 (of_nat (length xs)) = Inr b3" "buf_inv b3"
            "contents b3 = contents b @ map Some xs" using b1(3) by metis
      let ?v = "v\<lparr>read_buffer := Some b3\<rparr>"
      have "recv_measure ?v < recv_measure w" using sys_recv_data_less [OF rv [unfolded Some] ne] by simp
      moreover have "?v = w\<lparr>read_buffer := Some b3, recvs := as, errno := e\<rparr>"
        by (rule cw.equality) (simp_all add: v)
      then have "conn_inv ?v" "c_state ?v = kConnected"
        using recv_update(1) [OF inv up b3(3), of as e] R' ne bound b3(4) st by simp_all
      ultimately obtain w' where w': "read_loop True ?v = Inr (snd (arriving (recvs ?v)), True, w')"
        "received ?v (recvs ?v) w'" using less.hyps [of ?v True] by auto
      moreover have "received w (recvs w) w'"
        using w'(2) R' ne v b b3(4) by (auto simp: received_def in_cells_def)
      ultimately show ?thesis using eq Some v R' ne b3(1,2) by simp
    qed
  qed
qed

lemma handle_read_event_ok:
  assumes u: "user_ok u" and inv: "conn_inv w"
  shows "\<exists>w'. handle_read_event u w = Inr w' \<and> conn_inv w' \<and> follows w w'"
proof (cases "c_state w = kConnected")
  case False
  then have "read_loop False w = Inr (Rd_return, False, w)" by (simp add: read_loop.simps)
  then show ?thesis using inv by (auto simp: handle_read_event_def)
next
  case True
  from read_loop_ok [OF inv True, of False] obtain w1 where
    1: "read_loop False w = Inr (snd (arriving (recvs w)), fst (arriving (recvs w)) \<noteq> [], w1)"
       "received w (recvs w) w1" by auto
  note F = received_follows [OF 1(2)]
  have "conn_inv w1" using 1(2) by (simp add: received_def)
  from call_if_ok [OF user_okD(1) [OF u] this, of "Ev_message (in_cells w1)" "fst (arriving (recvs w)) \<noteq> [] \<and> has_message_func w1"]
  obtain w2 where 2: "call_if (fst (arriving (recvs w)) \<noteq> [] \<and> has_message_func w1) (Ev_message (in_cells w1)) (u_message u) w1 = Inr w2"
    "conn_inv w2" "follows w1 w2" by auto
  have "handle_read_event u w = (case snd (arriving (recvs w)) of Rd_close err \<Rightarrow> handle_close_event u err w2 | _ \<Rightarrow> Inr w2)"
    using 1(1) 2(1) by (simp add: handle_read_event_def)
  moreover note follows_trans [OF F 2(3)]
  ultimately show ?thesis
    using 2(2) handle_close_event_ok [OF u conn_invD [OF 2(2)]]
    by (cases "snd (arriving (recvs w))") (auto, metis follows_trans)
qed

section \<open>Opening\<close>

text \<open>A descriptor the poller knows nothing of.\<close>

definition fresh_handle :: "epoll_poller \<Rightarrow> fd \<Rightarrow> bool" where
  "fresh_handle p h \<longleftrightarrow> h \<noteq> invalid_socket \<and> channels p h = None \<and> interest p h = None"

lemma default_buffer_ok:
  assumes "\<And>b'. b = Some b' \<Longrightarrow> buf_inv b'"
  shows "\<exists>b1. default_buffer b = Inr b1 \<and> buf_inv b1 \<and> contents b1 = (case b of None \<Rightarrow> [] | Some b' \<Rightarrow> contents b')"
proof (cases b)
  case None
  have "unat kInitialCapacity \<le> 2 ^ 61" by (simp add: kInitialCapacity_def)
  from Buffer_new_correct [OF this] None show ?thesis by (auto simp: default_buffer_def)
qed (use assms in \<open>simp add: default_buffer_def\<close>)

lemma started_inv:
  fixes n :: nat
  assumes "in_poll w" and bufs: "buf_inv rb" "buf_inv wb" "length (contents rb) + incoming (recvs w) \<le> 2 ^ 59"
    and out: "contents wb = []" and ok: "epoll_chan_ok p ch" and role: "established ch" and h: "ch_handle ch = c_handle w"
    and "c_handle w \<noteq> invalid_socket" and "\<not> writing ch"
  defines "w' \<equiv> emit (Ev_started (contents wb)) (w\<lparr>cleanup_done := False, read_buffer := Some rb, write_buffer := Some wb,
             next_channel := n, poller := p, c_channel := Some ch, c_state := kConnected\<rparr>)"
  shows "conn_inv w' \<and> is_up w' \<and> settled w' \<and> c_state w' = kConnected \<and> out_cells w' = []"
proof -
  have "sent_cells w' = []" "owed_cells w' = []"
    using out by (cases "stream (log w)"; simp add: w'_def sent_cells_def owed_cells_def emit_def)+
  moreover have "out_cells w' = []" "in_cells w' = contents rb" using out by (simp_all add: w'_def out_cells_def in_cells_def)
  moreover have "is_up w'" "settled w'" using role assms(10) by (simp_all add: w'_def is_up_def settled_def)
  moreover have "epoll_ok p" using ok by (simp add: chan_ok_def)
  moreover have "\<not> connecting_ch ch" using role by (simp add: established_def connecting_ch_def)
  ultimately show ?thesis
    using assms by (simp add: conn_inv_def conn_wf_def bufs_ok_def chan_inv_def open_channel_def stream_inv_def)
qed

lemma start_ok:
  assumes io: "in_poll w" "epoll_ok (poller w)" and bufs: "bufs_ok w" and h: "fresh_handle (poller w) (c_handle w)"
    and out: "out_cells w = []" and closed: "c_state w \<noteq> kConnected \<or> c_channel w = None"
  shows "\<exists>w'. start w = Inr w' \<and> conn_inv w' \<and> is_up w' \<and> settled w' \<and> c_state w' = kConnected \<and>
           log w' = log w @ [Ev_started []] \<and> sends w' = sends w \<and> has_connected_func w' = has_connected_func w \<and>
           in_cells w' = in_cells w \<and> c_handle w' = c_handle w \<and> epoll_watched (poller w') (c_handle w) = kRead \<and>
           out_cells w' = [] \<and> app w' = app w \<and> tasks w' = tasks w \<and> has_message_func w' = has_message_func w \<and> recvs w' = recvs w"
proof -
  from default_buffer_ok [of "read_buffer w"] bufs obtain rb where
    rb: "default_buffer (read_buffer w) = Inr rb" "buf_inv rb" "contents rb = in_cells w"
    by (auto simp: bufs_ok_def in_cells_def)
  from default_buffer_ok [of "write_buffer w"] bufs out obtain wb where
    wb: "default_buffer (write_buffer w) = Inr wb" "buf_inv wb" "contents wb = []"
    by (auto simp: bufs_ok_def out_cells_def)
  let ?new = "Channel_new (next_channel w) (c_handle w) :: conn_fn channel"
  let ?ch = "?new\<lparr>ch_on_read := Some Fn_read_event, ch_on_write := Some Fn_write_event, ch_on_close := Some Fn_close_event\<rparr>"
  have "epoll_chan_ok (poller w) ?new" by (rule new_channel_ok) (use io(2) h in \<open>simp_all add: fresh_handle_def\<close>)
  then have "epoll_chan_ok (poller w) ?ch" by (simp add: chan_ok_def epoll_synced_def)
  from ep.add_read_event_ok [OF this] obtain p ch where
    p: "add_read_event update_channel (poller w) ?ch = Inr (p, ch)" "epoll_chan_ok p ch"
       "ch = ?ch\<lparr>ch_events := ch_events ?ch OR kRead, ch_registered := True\<rparr>" by blast
  let ?t = "ch\<lparr>ch_tied := True\<rparr>"
  have t: "epoll_chan_ok p ?t" "established ?t" "ch_handle ?t = c_handle w" "\<not> writing ?t"
    using p(2) by (simp_all add: chan_ok_def epoll_synced_def p(3) established_def Channel_new_def writing_def event_flags)
  have in_b: "length (contents rb) + incoming (recvs w) \<le> 2 ^ 59" using bufs rb by (simp add: bufs_ok_def)
  let ?w = "emit (Ev_started (contents wb)) (w\<lparr>cleanup_done := False, read_buffer := Some rb, write_buffer := Some wb,
             next_channel := next_channel w + 1, poller := p, c_channel := Some ?t, c_state := kConnected\<rparr>)"
  have "conn_inv ?w \<and> is_up ?w \<and> settled ?w \<and> c_state ?w = kConnected \<and> out_cells ?w = []"
    by (rule started_inv) (use io rb wb in_b t h in \<open>simp_all add: fresh_handle_def\<close>)
  moreover have "start w = Inr ?w"
  proof -
    have g: "\<not> (c_channel w \<noteq> None \<and> read_buffer w \<noteq> None \<and> write_buffer w \<noteq> None \<and> c_state w = kConnected)"
      using closed by auto
    have "emit (Ev_started (contents wb)) (w\<lparr>cleanup_done := False, read_buffer := Some rb, write_buffer := Some wb,
             c_channel := Some ?t, next_channel := next_channel w + 1, poller := p, c_state := kConnected\<rparr>) = ?w"
      by (rule cw.equality) (simp_all add: emit_def)
    then show ?thesis using io h rb(1) wb(1) p(1) g by (auto simp: start_def on_channel_def Let_def fresh_handle_def emit_def)
  qed
  moreover have "epoll_watched p (c_handle w) = kRead"
    using p(2) by (simp add: chan_ok_def p(3) Channel_new_def)
  moreover have "app ?w = app w" by (simp add: emit_def)
  ultimately show ?thesis using wb(3) rb(3) by (auto simp: in_cells_def)
qed

text \<open>What a step may do to the rest of the state: history only grows, answers are only used up.\<close>

definition after :: "'a cw \<Rightarrow> 'a cw \<Rightarrow> bool" where
  "after w w' \<longleftrightarrow> conn_inv w' \<and> settled w' \<and> prefix (log w) (log w')"

lemma afterI: "conn_inv w' \<Longrightarrow> follows w w' \<Longrightarrow> settled w \<Longrightarrow> after w w'"
  by (simp add: after_def follows_def)

lemma after_follows: "after w v \<Longrightarrow> conn_inv w' \<Longrightarrow> follows v w' \<Longrightarrow> after w w'"
  by (auto simp: after_def follows_def intro: prefix_order.trans)

lemma after_trans: "after w v \<Longrightarrow> after v x \<Longrightarrow> after w x"
  by (auto simp: after_def intro: prefix_order.trans)

lemma drop_channel_ok:
  assumes inv: "conn_inv w" and up: "c_state w \<noteq> kDisconnected"
  shows "\<exists>p'. drop_channel w = Inr (w\<lparr>poller := p', c_channel := None\<rparr>) \<and> epoll_ok p' \<and> fresh_handle p' (c_handle w)"
proof -
  from open_channelI [OF conn_invD(1) [OF inv] up] obtain ch where
    ch: "c_channel w = Some ch" "open_channel w ch" by blast
  then have "epoll_chan_ok (poller w) ch" by (simp add: open_channel_def)
  from clear_and_remove_ok [OF ch(1) this] obtain p' where
    p: "clear_and_remove w = Inr (w\<lparr>poller := p', c_channel := Some (ch\<lparr>ch_events := 0, ch_registered := False\<rparr>)\<rparr>)"
       "epoll_ok p'" "channels p' (ch_handle ch) = None" "interest p' (ch_handle ch) = None" by blast
  from p(1) have "drop_channel w = Inr (w\<lparr>poller := p', c_channel := None\<rparr>)" by (simp add: drop_channel_def)
  moreover have "fresh_handle p' (c_handle w)" using p(3,4) ch(2) by (simp add: fresh_handle_def open_channel_def)
  ultimately show ?thesis using p(2) by blast
qed

lemma connect_error_ok:
  assumes "user_ok u" and "after w v"
  shows "\<exists>w'. connect_error u err v = Inr w' \<and> after w w'"
proof -
  have "conn_inv v" using assms(2) by (simp add: after_def)
  from call_if_ok [OF user_okD(6) [OF assms(1), of err] this, of "Ev_connect_error err" "has_connect_error v"]
    after_follows [OF assms(2)] show ?thesis by (auto simp: connect_error_def)
qed

lemma connecting_dropped:
  assumes inv: "conn_inv w" and st: "c_state w = kConnecting"
  shows "\<exists>p'. drop_channel w = Inr (w\<lparr>poller := p', c_channel := None\<rparr>) \<and> epoll_ok p' \<and>
     fresh_handle p' (c_handle w) \<and> in_poll w \<and> bufs_ok w \<and> out_cells w = [] \<and> c_handle w \<noteq> invalid_socket"
proof -
  from open_channelI [OF conn_invD(1) [OF inv]] st obtain ch where
    "c_channel w = Some ch" "open_channel w ch" by auto
  with st have "out_cells w = []" "c_handle w \<noteq> invalid_socket" by (auto simp: open_channel_def)
  with drop_channel_ok [OF inv] st inv show ?thesis by (auto simp: conn_inv_def conn_wf_def)
qed

lemma handle_connect_event_ok:
  assumes u: "user_ok u" and inv: "conn_inv w" and set: "settled w"
  shows "\<exists>w'. handle_connect_event u w = Inr w' \<and> after w w'"
proof (cases "c_state w = kConnecting")
  case False
  with inv set show ?thesis by (auto simp: handle_connect_event_def after_def conn_inv_def conn_wf_def)
next
  case st: True
  from connecting_dropped [OF inv st] obtain p' where
    p: "drop_channel w = Inr (w\<lparr>poller := p', c_channel := None\<rparr>)" "epoll_ok p'" "fresh_handle p' (c_handle w)"
       "in_poll w" "bufs_ok w" "out_cells w = []" "c_handle w \<noteq> invalid_socket" by blast
  let ?v = "w\<lparr>poller := p', c_channel := None\<rparr>"
  define err where "err = (if fst (so_answer w) < 0 then errno w else snd (so_answer w))"
  have bufs: "bufs_ok ?v" "out_cells ?v = []" using p(5,6) by (simp_all add: bufs_ok_def in_cells_def out_cells_def)
  show ?thesis
  proof (cases "err = 0")
    case True
    have "fresh_handle (poller ?v) (c_handle ?v)" using p(3) by simp
    from start_ok [OF _ _ bufs(1) this bufs(2)] p(2,4) obtain x where
      x: "start ?v = Inr x" "conn_inv x" "settled x" "log x = log w @ [Ev_started []]" by auto
    then have "after w x" by (simp add: after_def)
    from call_if_ok [OF user_okD(5) [OF u] x(2), of Ev_connected "has_connected_func x"] after_follows [OF this]
      x(1) p st True show ?thesis by (auto simp: handle_connect_event_def err_def [symmetric])
  next
    case False
    let ?x = "(close_handle ?v)\<lparr>c_state := kDisconnected\<rparr>"
    have n: "neutral (Ev_sys (Sys_close (c_handle w)))" by simp
    have "alike (w\<lparr>poller := p', c_channel := None, c_handle := invalid_socket, c_state := kDisconnected\<rparr>) ?x"
      using p(7) by (simp add: alike_def close_handle_def emit_def)
    moreover have "conn_inv (w\<lparr>poller := p', c_channel := None, c_handle := invalid_socket, c_state := kDisconnected\<rparr>)"
      using inv p by (simp add: cw_defs)
    ultimately have "conn_inv ?x" using alike_inv(2) by blast
    moreover have "settled ?x" "prefix (log w) (log ?x)" by (simp_all add: settled_def is_up_def close_handle_def emit_def)
    ultimately have "after w ?x" by (simp add: after_def)
    from connect_error_ok [OF u this, of err] p st False show ?thesis
      by (simp add: handle_connect_event_def err_def [symmetric])
  qed
qed

lemma connect_async:
  assumes "connect os ss True = r"
  shows "\<exists>h tr. r = Inr (h, tr) \<and> (h < 0 \<or> h = co_socket os)"
  using assms by (auto simp: connect_def Let_def)

lemma connecting_inv:
  assumes io: "in_poll w" "bufs_ok w" "prefix (sent_cells w) (owed_cells w)" and out: "out_cells w = []"
    and h: "h \<noteq> invalid_socket" and ch: "epoll_chan_ok p ch" "connecting_ch ch" "ch_handle ch = h" and "\<not> cleanup_done w"
  shows "conn_inv (w\<lparr>c_handle := h, c_state := kConnecting, c_channel := Some ch, next_channel := n, poller := p\<rparr>)"
    and "settled (w\<lparr>c_handle := h, c_state := kConnecting, c_channel := Some ch, next_channel := n, poller := p\<rparr>)"
proof -
  have "epoll_ok p" using ch(1) by (simp add: chan_ok_def)
  moreover have "\<not> established ch" using ch(2) by (simp add: established_def connecting_ch_def)
  ultimately show "conn_inv (w\<lparr>c_handle := h, c_state := kConnecting, c_channel := Some ch, next_channel := n, poller := p\<rparr>)"
    "settled (w\<lparr>c_handle := h, c_state := kConnecting, c_channel := Some ch, next_channel := n, poller := p\<rparr>)"
    using assms by (simp_all add: cw_defs settled_def)
qed

lemma start_connect_in_poll_ok:
  assumes u: "user_ok u" and inv: "conn_inv w" and st: "c_state w = kDisconnected" "\<not> cleanup_done w" "out_cells w = []"
    and h: "0 \<le> co_socket (conn_os w) \<Longrightarrow> fresh_handle (poller w) (co_socket (conn_os w))"
  shows "\<exists>w'. start_connect_in_poll u addr port w = Inr w' \<and> after w w'"
proof -
  have w: "after w w" using inv st by (simp add: after_def settled_def is_up_def)
  have io: "in_poll w" "bufs_ok w" "epoll_ok (poller w)" using inv by (simp_all add: conn_inv_def conn_wf_def)
  define stack where "stack = (if ip_address_type (pton w) addr = IP_v4 then kIPv4Only else kIPv6Only)"
  define ss where "ss = get_sockaddr (pton w) addr port stack"
  obtain hd tr where c: "connect (conn_os w) ss True = Inr (hd, tr)" "hd < 0 \<or> hd = co_socket (conn_os w)"
    using connect_async [OF refl] by blast
  let ?w1 = "w\<lparr>log := log w @ map Ev_sys tr\<rparr>"
  have "alike w ?w1" by (simp add: alike_def)
  note A = alike_inv [OF this] and C = alike_cells [OF this]
  have w1: "after w ?w1" using A C w by (simp add: after_def)
  let ?ch = "(Channel_new (next_channel w) hd :: conn_fn channel)\<lparr>ch_on_write := Some Fn_connect_event, ch_tied := True\<rparr>"
  let ?w2 = "?w1\<lparr>c_handle := hd, c_state := kConnecting, c_channel := Some ?ch, next_channel := next_channel w + 1\<rparr>"
  have up: "\<exists>w'. on_channel (add_write_event update_channel) ?w2 = Inr w' \<and> after w w'" if "\<not> hd < 0"
  proof -
    have f: "fresh_handle (poller w) hd" using c(2) h that by auto
    have "epoll_chan_ok (poller w) (Channel_new (next_channel w) hd :: conn_fn channel)"
      by (rule new_channel_ok) (use io(3) f in \<open>simp_all add: fresh_handle_def\<close>)
    then have "epoll_chan_ok (poller w) ?ch" by (simp add: chan_ok_def epoll_synced_def)
    from ep.add_write_event_ok [OF this] obtain p ch where
      p: "add_write_event update_channel (poller w) ?ch = Inr (p, ch)" "epoll_chan_ok p ch"
         "ch = ?ch\<lparr>ch_events := ch_events ?ch OR kWrite, ch_registered := True\<rparr>" by blast
    have "connecting_ch ch" "ch_handle ch = hd" by (simp_all add: p(3) connecting_ch_def Channel_new_def)
    with connecting_inv [of ?w1 hd p ch "next_channel w + 1"] p(2) f io st inv C A
    have "after w (?w1\<lparr>c_handle := hd, c_state := kConnecting, c_channel := Some ch, next_channel := next_channel w + 1, poller := p\<rparr>)"
      by (simp add: after_def fresh_handle_def conn_inv_def stream_inv_def conn_wf_def)
    moreover have "?w1\<lparr>c_handle := hd, c_state := kConnecting, c_channel := Some ch, next_channel := next_channel w + 1, poller := p\<rparr>
        = ?w2\<lparr>poller := p, c_channel := Some ch\<rparr>" by (rule cw.equality) simp_all
    ultimately have "after w (?w2\<lparr>poller := p, c_channel := Some ch\<rparr>)" by metis
    moreover have "on_channel (add_write_event update_channel) ?w2 = Inr (?w2\<lparr>poller := p, c_channel := Some ch\<rparr>)"
      using p(1) by (simp add: on_channel_def)
    ultimately show ?thesis by blast
  qed
  show ?thesis
    using connect_error_ok [OF u w, of EINVAL] connect_error_ok [OF u w1, of "co_last_error (conn_os w)"] up io(1) c(1)
    by (auto simp: start_connect_in_poll_def Let_def stack_def [symmetric] ss_def [symmetric])
qed

section \<open>Dispatch\<close>

lemma run_dispatches_append:
  "run_dispatches u (ds @ es) w = andthen (run_dispatches u ds w) (run_dispatches u es)"
  by (induction ds arbitrary: w) (simp_all add: andthen_assoc cong: andthen_cong)

text \<open>
  When the functions of an established connection may be called: while it is up, or after it was
  closed by an earlier handler of the same round of events. A write event is only reported while
  there is output.
\<close>

definition dispatchable :: "cflags \<Rightarrow> 'a cw \<Rightarrow> bool" where
  "dispatchable ev w \<longleftrightarrow> (is_up w \<or> c_state w = kDisconnected \<and> c_handle w = invalid_socket) \<and>
     (ev AND kWrite \<noteq> 0 \<longrightarrow> out_cells w \<noteq> [])"

lemma read_part_ok:
  assumes "user_ok u" and "conn_inv w"
  shows "\<exists>w1. run_dispatches u (if c then calls_of (Some Fn_read_event) else []) w = Inr w1 \<and> conn_inv w1 \<and> follows w w1"
  using handle_read_event_ok [OF assms] assms(2) by (auto simp: calls_of_def)

lemma established_dispatch_ok:
  assumes u: "user_ok u" and inv: "conn_inv w" and set: "settled w" and ch: "established ch" and d: "dispatchable (ch_result ch) w"
  shows "\<exists>w'. run_dispatches u (dispatch_event ch err) w = Inr w' \<and> after w w'"
proof -
  define rd where "rd = (if ch_result ch AND kRead \<noteq> 0 then calls_of (Some Fn_read_event) else [])"
  from read_part_ok [OF u inv, of "ch_result ch AND kRead \<noteq> 0"] obtain w1 where
    1: "run_dispatches u rd w = Inr w1" "conn_inv w1" "follows w w1" unfolding rd_def by blast
  note a1 = afterI [OF 1(2,3) set]
  note roles = ch [unfolded established_def]
  show ?thesis
  proof (cases "ch_result ch AND (kError OR kHup) = 0")
    case False
    let ?e = "if ch_result ch AND kError \<noteq> 0 then err else 0"
    have "dispatch_event ch err = rd @ [Call_err Fn_close_event ?e]"
      using False roles by (simp add: dispatch_event_def rd_def)
    moreover from handle_close_event_ok [OF u conn_invD [OF 1(2)], of ?e] after_follows [OF a1]
    have "\<exists>w'. handle_close_event u ?e w1 = Inr w' \<and> after w w'" by blast
    ultimately show ?thesis using 1(1) by (auto simp: run_dispatches_append)
  next
    case True
    then have eq: "dispatch_event ch err = rd @ (if ch_result ch AND kWrite \<noteq> 0 then [Call Fn_write_event] else [])"
      using roles by (simp add: dispatch_event_def rd_def calls_of_def)
    show ?thesis
    proof (cases "ch_result ch AND kWrite = 0")
      case True
      then show ?thesis using eq 1(1) a1 by auto
    next
      case wr: False
      have "writable w1" using d wr 1(3) by (auto simp: dispatchable_def writable_def follows_def is_up_def)
      from handle_write_event_ok [OF u 1(2) this] a1 obtain w' where
        "handle_write_event u w1 = Inr w'" "after w w'" by (auto simp: after_def intro: prefix_order.trans)
      then show ?thesis using eq wr 1(1) by (simp add: run_dispatches_append)
    qed
  qed
qed

text \<open>
  A reported event: epoll reports only descriptors that are registered, and write events only
  where they are watched.
\<close>

definition reported :: "cflags \<Rightarrow> 'a cw \<Rightarrow> bool" where
  "reported ev w \<longleftrightarrow> (\<forall>ch. c_channel w = Some ch \<longrightarrow> ch_registered ch \<and> (ev AND kWrite \<noteq> 0 \<longrightarrow> writing ch))"

lemma on_event_ok:
  assumes u: "user_ok u" and inv: "conn_inv w" and set: "settled w" and ev: "reported ev w"
  shows "\<exists>w'. on_event u ev err w = Inr w' \<and> after w w'"
proof (cases "c_channel w")
  case None
  then show ?thesis using inv set by (simp add: on_event_def after_def)
next
  case (Some ch)
  have reg: "ch_registered ch" "ev AND kWrite \<noteq> 0 \<Longrightarrow> writing ch" using ev Some by (simp_all add: reported_def)
  then have st: "c_state w \<noteq> kDisconnected" and oc: "open_channel w ch"
    using inv Some by (auto simp: conn_inv_def conn_wf_def chan_inv_def split: if_splits)
  let ?ch = "ch\<lparr>ch_result := ev\<rparr>"
  have tied: "handle_event ?ch True err = dispatch_event ?ch err" by (simp add: handle_event_def)
  from oc consider (up) "established ch" | (conn) "connecting_ch ch" by (auto simp: open_channel_def)
  then show ?thesis
  proof cases
    case up
    have "is_up w" using st Some up by (simp add: is_up_def)
    moreover have "ev AND kWrite \<noteq> 0 \<Longrightarrow> out_cells w \<noteq> []" using reg(2) set calculation Some by (simp add: settled_def)
    ultimately have "dispatchable (ch_result ?ch) w" by (simp add: dispatchable_def)
    from established_dispatch_ok [OF u inv set _ this] up tied Some show ?thesis
      by (simp add: on_event_def established_def)
  next
    case conn
    then have "dispatch_event ?ch err \<in> {[], [Call Fn_connect_event]}"
      by (simp add: dispatch_event_def connecting_ch_def calls_of_def)
    then show ?thesis
      using handle_connect_event_ok [OF u inv set] Some tied inv set by (auto simp: on_event_def after_def)
  qed
qed

text \<open>
  An event of a channel that was released earlier in the same round: the channel object is still
  there, its connection no longer holds it.
\<close>

definition on_stale_event :: "'a user_cb \<Rightarrow> conn_fn channel \<Rightarrow> cflags \<Rightarrow> int \<Rightarrow> 'a cw \<Rightarrow> 'a cw result" where
  "on_stale_event u ch result_events so_error w =
     run_dispatches u (handle_event (ch\<lparr>ch_result := result_events\<rparr>) True so_error) w"

lemma on_stale_event_ok:
  assumes "user_ok u" and "conn_inv w" and "settled w" and "established ch" and "dispatchable ev w"
  shows "\<exists>w'. on_stale_event u ch ev err w = Inr w' \<and> after w w'"
  using established_dispatch_ok [OF assms(1-3), of "ch\<lparr>ch_result := ev\<rparr>" err] assms(4,5)
  by (simp add: on_stale_event_def handle_event_def established_def)

section \<open>Calls, tasks and everything that can happen\<close>

datatype conn_call = Call_send "byte list option" | Call_shutdown | Call_close

fun run_call :: "'a user_cb \<Rightarrow> conn_call \<Rightarrow> 'a cw \<Rightarrow> 'a cw result" where
  "run_call u (Call_send msg) w = send u msg w"
| "run_call u Call_shutdown w = shutdown w"
| "run_call u Call_close w = close u w"

text \<open>The bound on the output held is far above what memory can hold.\<close>

definition has_room :: "byte list \<Rightarrow> 'a cw \<Rightarrow> bool" where
  "has_room data w \<longleftrightarrow> length (out_cells w) + length data \<le> 2 ^ 60"

fun call_ok :: "conn_call \<Rightarrow> 'a cw \<Rightarrow> bool" where
  "call_ok (Call_send (Some data)) w = has_room data w"
| "call_ok _ w = True"

lemma shutdown_in_thread: "in_poll w \<Longrightarrow> shutdown w = shutdown_in_poll w"
  by (auto simp: shutdown_def shutdown_in_poll_def)

lemma run_call_ok:
  assumes u: "user_ok u" and inv: "conn_inv w" and c: "call_ok c w"
  shows "\<exists>w'. run_call u c w = Inr w' \<and> conn_inv w' \<and> follows w w'"
proof (cases c)
  case (Call_send msg)
  then show ?thesis using send_in_poll_thread_ok [OF u inv] c inv
    by (cases msg) (auto simp: send_def has_room_def conn_inv_def conn_wf_def)
next
  case Call_shutdown
  then show ?thesis using shutdown_in_poll_ok [OF inv] shutdown_in_thread [of w] inv
    by (auto simp: conn_inv_def conn_wf_def)
next
  case Call_close
  then show ?thesis using close_ok [OF u inv] by auto
qed

text \<open>So callbacks that call the connection themselves, as far as there is room, are fine callbacks.\<close>

lemma calling_callback_ok:
  assumes "user_ok u"
  shows "callback_ok (\<lambda>w. if call_ok (c w) w then run_call u (c w) w else Inr w)"
  using run_call_ok [OF assms] by (simp add: callback_ok_def)

fun task_ok :: "conn_task \<Rightarrow> 'a cw \<Rightarrow> bool" where
  "task_ok (Task_send data) w = (data \<noteq> [] \<and> has_room data w)"
| "task_ok (Task_start_connect addr port) w = (c_state w = kDisconnected \<and> \<not> cleanup_done w \<and> out_cells w = [] \<and>
     (0 \<le> co_socket (conn_os w) \<longrightarrow> fresh_handle (poller w) (co_socket (conn_os w))))"
| "task_ok _ w = True"

lemma run_conn_task_ok:
  assumes u: "user_ok u" and inv: "conn_inv w" and set: "settled w" and t: "task_ok t w"
  shows "\<exists>w'. run_conn_task u t w = Inr w' \<and> after w w'"
proof -
  have io: "in_poll w" using inv by (simp add: conn_inv_def conn_wf_def)
  note A = afterI [OF _ _ set]
  show ?thesis
  proof (cases t)
    case (Task_start_connect addr port)
    then show ?thesis using start_connect_in_poll_ok [OF u inv] t by auto
  next
    case Task_shutdown
    then show ?thesis using shutdown_in_poll_ok [OF inv] A by auto
  next
    case (Task_cleanup err)
    then show ?thesis using cleanup_ok [OF u conn_invD [OF inv], of err] A by auto
  next
    case (Task_send data)
    then show ?thesis using send_in_poll_thread_ok [OF u inv] t A by (auto simp: has_room_def)
  next
    case (Task_drop_channel i)
    then show ?thesis using A [OF inv follows_refl] by simp
  next
    case Task_close_timeout
    then show ?thesis using cleanup_ok [OF u conn_invD [OF inv], of ETIMEDOUT] A io by auto
  qed
qed

text \<open>
  Everything that can happen to a connection between two states: an event is dispatched, possibly
  to a channel already released, a posted task runs, the poll thread or another thread calls it,
  its close timer fires on the timer thread, and the kernel changes what the socket will answer.
\<close>

definition on_other_thread :: "('a cw \<Rightarrow> 'a cw result) \<Rightarrow> 'a cw \<Rightarrow> 'a cw result" where
  "on_other_thread f w = andthen (f (w\<lparr>in_poll := False\<rparr>)) (\<lambda>w'. Inr (w'\<lparr>in_poll := in_poll w\<rparr>))"

inductive conn_step :: "'a user_cb \<Rightarrow> 'a cw \<Rightarrow> 'a cw result \<Rightarrow> bool" for u where
  event: "reported ev w \<Longrightarrow> conn_step u w (on_event u ev err w)"
| stale: "established ch \<Longrightarrow> dispatchable ev w \<Longrightarrow> conn_step u w (on_stale_event u ch ev err w)"
| task: "tasks w = t # ts \<Longrightarrow> task_ok t w \<Longrightarrow> conn_step u w (run_conn_task u t (w\<lparr>tasks := ts\<rparr>))"
| call: "call_ok c w \<Longrightarrow> conn_step u w (run_call u c w)"
| remote_call: "conn_step u w (on_other_thread (run_call u c) w)"
| timer: "conn_step u w (on_other_thread (run_conn_task u Task_close_timeout) w)"
| kernel: "length (in_cells w) + incoming rs \<le> 2 ^ 59 \<Longrightarrow>
    conn_step u w (Inr (w\<lparr>recvs := rs, sends := ss, errno := e, so_answer := a, now := t\<rparr>))"

inductive conn_reachable :: "'a user_cb \<Rightarrow> 'a cw \<Rightarrow> 'a cw \<Rightarrow> bool" for u w0 where
  initially: "conn_reachable u w0 w0"
| further: "conn_reachable u w0 w \<Longrightarrow> conn_step u w (Inr w') \<Longrightarrow> conn_reachable u w0 w'"

text \<open>From another thread, a call changes nothing but the task queue.\<close>

definition task_of :: "conn_call \<Rightarrow> conn_task list" where
  "task_of c = (case c of Call_send (Some data) \<Rightarrow> [Task_send data] | Call_send None \<Rightarrow> []
     | Call_shutdown \<Rightarrow> [Task_shutdown] | Call_close \<Rightarrow> [Task_cleanup 0])"

lemma remote_call_posts:
  "on_other_thread (run_call u c) w = Inr w \<or> on_other_thread (run_call u c) w = Inr (w\<lparr>tasks := tasks w @ task_of c\<rparr>)"
  by (cases c) (auto simp: on_other_thread_def send_def shutdown_def close_def post_def task_of_def split: option.split)

lemma remote_timer_posts:
  "on_other_thread (run_conn_task u Task_close_timeout) w = Inr (post (Task_cleanup ETIMEDOUT) w)"
  by (simp add: on_other_thread_def post_def)

lemma alike_tasks: "alike w (w\<lparr>tasks := ts\<rparr>)"
  by (simp add: alike_def)

lemma after_alike: "alike w v \<Longrightarrow> conn_inv w \<Longrightarrow> settled w \<Longrightarrow> after w v"
  using alike_inv [of w v] alike_cells(6) [of w v] by (auto intro: afterI)

lemma kernel_after:
  assumes inv: "conn_inv w" and set: "settled w" and "length (in_cells w) + incoming rs \<le> 2 ^ 59"
  shows "after w (w\<lparr>recvs := rs, sends := ss, errno := e, so_answer := a, now := t\<rparr>)"
proof -
  let ?v = "w\<lparr>recvs := rs, sends := ss, errno := e, so_answer := a, now := t\<rparr>"
  have "in_cells ?v = in_cells w" "out_cells ?v = out_cells w" "sent_cells ?v = sent_cells w" "owed_cells ?v = owed_cells w"
    "is_up ?v = is_up w" by (simp_all add: in_cells_def out_cells_def sent_cells_def owed_cells_def is_up_def)
  moreover have "open_channel ?v = open_channel w" by (rule ext) (simp add: open_channel_def out_cells_def)
  then have "chan_inv ?v = chan_inv w" by (simp add: chan_inv_def split: option.split)
  ultimately show ?thesis using assms
    by (simp add: after_def settled_def conn_inv_def conn_wf_def bufs_ok_def stream_inv_def)
qed

lemma conn_step_ok:
  assumes "user_ok u" and "conn_inv w" and "settled w" and "conn_step u w r"
  shows "\<exists>w'. r = Inr w' \<and> after w w'"
  using assms(4)
proof cases
  case (event ev err)
  then show ?thesis using on_event_ok [OF assms(1-3)] by simp
next
  case (stale ch ev err)
  then show ?thesis using on_stale_event_ok [OF assms(1-3)] by simp
next
  case (task t ts)
  note A = after_alike [OF alike_tasks assms(2,3), of ts]
  have "task_ok t (w\<lparr>tasks := ts\<rparr>)" using task(3) by (cases t) (simp_all add: has_room_def out_cells_def)
  from run_conn_task_ok [OF assms(1) _ _ this] A task(1) after_trans [OF A] show ?thesis by (auto simp: after_def)
next
  case (call c)
  then show ?thesis using run_call_ok [OF assms(1,2)] afterI assms(3) by blast
next
  case (remote_call c)
  then show ?thesis using remote_call_posts [of u c w] after_alike [OF alike_tasks assms(2,3)] assms(2,3)
    by (auto simp: after_def)
next
  case timer
  then show ?thesis using remote_timer_posts [of u w] after_alike [OF alike_post assms(2,3)] by simp
next
  case (kernel rs ss e a t)
  then show ?thesis using kernel_after [OF assms(2,3)] by blast
qed

lemma conn_reachable_ok:
  assumes "user_ok u" and "conn_inv w0" and "settled w0" and "conn_reachable u w0 w"
  shows "after w0 w"
  using assms(4)
proof induction
  case initially
  then show ?case using assms(2,3) by (simp add: after_def)
next
  case (further w w')
  then show ?case using conn_step_ok [OF assms(1), of w "Inr w'"] after_trans [of w0 w] by (auto simp: after_def)
qed

end
