(* ===== verification/Conn_Props.thy ===== *)
theory Conn_Props
  imports Conn_Run
begin

text \<open>
  The properties of a connection. \<open>busy_cw\<close> is a connection with output waiting, \<open>dialing_cw\<close> one
  that waits for its connection attempt; \<open>echo_user\<close> is a user program that sends back what it
  receives.
\<close>

section \<open>Sample states and users\<close>

definition quiet_user :: "'a user_cb" where
  "quiet_user = \<lparr>u_message = Inr, u_close = (\<lambda>_. Inr), u_internal_close = Inr, u_watermark = (\<lambda>_. Inr),
     u_connected = Inr, u_connect_error = (\<lambda>_. Inr)\<rparr>"

definition echo_call :: "'a cw \<Rightarrow> conn_call" where
  "echo_call w = Call_send (Some (map the (in_cells w)))"

definition echo_user :: "'a user_cb" where
  "echo_user = quiet_user\<lparr>u_message :=
     (\<lambda>w. if call_ok (echo_call w) w then run_call quiet_user (echo_call w) w else Inr w)\<rparr>"

lemma quiet_user_ok: "user_ok quiet_user"
  by (auto simp: user_ok_def quiet_user_def callback_ok_def)

lemma echo_user_ok: "user_ok echo_user"
  by (simp add: user_ok_def echo_user_def calling_callback_ok [OF quiet_user_ok] quiet_user_ok [unfolded user_ok_def])

definition busy_channel :: "conn_fn channel" where
  "busy_channel = \<lparr>ch_id = 1, ch_handle = 7, ch_events = 3, ch_result = 0, ch_registered = True, ch_tied = True,
     ch_on_read = Some Fn_read_event, ch_on_write = Some Fn_write_event, ch_on_close = Some Fn_close_event\<rparr>"

definition busy_poller :: epoll_poller where
  "busy_poller = \<lparr>channels = [7 \<mapsto> 1], ctl_log = [Ctl EPOLL_CTL_ADD 7 (to_epoll_events 3 OR EPOLLET) 1],
     ctl_answer = (\<lambda>_. 0), events_size = 64\<rparr>"

definition one_byte :: buffer where
  "one_byte = \<lparr>data_ptr = Some [Some 65], write_index = 1, read_index = 0, capacity = 1\<rparr>"

definition no_byte :: buffer where
  "no_byte = \<lparr>data_ptr = Some [None], write_index = 0, read_index = 0, capacity = 1\<rparr>"

definition busy_with :: "'a \<Rightarrow> 'a cw" where
  "busy_with a = conn.extend
     ((Conn_new 7)\<lparr>c_channel := Some busy_channel, has_message_func := True, has_close_func := True,
        has_watermark_func := True, high_watermark_warning := True, c_state := kConnected,
        read_buffer := Some no_byte, write_buffer := Some one_byte\<rparr>)
     (cw.fields busy_poller TimerManager_new [] True 0 2 [Recv_data [66, 67], Recv_data []] [Send_room 10] 0 (0, 0)
        sample_connect_os (\<lambda>_ _. None) [Ev_started [], Ev_queued [65]] a)"

abbreviation busy_cw :: "unit cw" where
  "busy_cw \<equiv> busy_with ()"

lemma busy_with_inv: "conn_inv (busy_with a)" "settled (busy_with a)" "is_up (busy_with a)" "c_state (busy_with a) = kConnected"
  "out_cells (busy_with a) = [Some 65]" "\<not> cleanup_done (busy_with a)" "in_poll (busy_with a)"
proof -
  have b: "buf_inv no_byte" "buf_inv one_byte" "contents no_byte = []" "contents one_byte = [Some 65]"
    by (simp_all add: buf_inv_def contents_def no_byte_def one_byte_def readable_size_def)
  have ch: "epoll_chan_ok busy_poller busy_channel"
    by (simp add: chan_ok_def epoll_synced_def epoll_watched_def epoll_ok_def epoll_documented_def interest_def
          busy_poller_def busy_channel_def valid_events_def to_epoll_events_def epoll_flags event_flags)
  have r: "established busy_channel" "\<not> connecting_ch busy_channel" "writing busy_channel" "ch_handle busy_channel = 7"
    by (simp_all add: established_def connecting_ch_def busy_channel_def writing_def event_flags)
  note f = busy_with_def conn.defs cw.defs Conn_new_def
  show o: "out_cells (busy_with a) = [Some 65]" by (simp add: out_cells_def f b)
  show u: "is_up (busy_with a)" using r by (simp add: is_up_def f)
  show "settled (busy_with a)" "c_state (busy_with a) = kConnected" "\<not> cleanup_done (busy_with a)" "in_poll (busy_with a)"
    using o by (simp_all add: settled_def f)
  have "stream_inv (busy_with a)" using o by (simp add: stream_inv_def sent_cells_def owed_cells_def stream_def f)
  moreover have "epoll_ok busy_poller" using ch by (simp add: chan_ok_def)
  ultimately show "conn_inv (busy_with a)"
    using b ch r o by (simp add: conn_inv_def conn_wf_def bufs_ok_def chan_inv_def open_channel_def in_cells_def f)
qed

lemmas busy_cw_inv = busy_with_inv [of "()"]

section \<open>Safety and streams\<close>




text \<open>
  C2. The output stream is exact. At every moment of a connection's life what has been handed to
  the socket is a prefix of what was accepted for sending, in order and without duplicates; while
  the connection is up, the two differ by exactly the content of the write buffer; and epoll
  watches the descriptor for writing exactly while there is something to write.
\<close>

theorem output_stream_exact:
  assumes "user_ok u" and "conn_inv w0" and "settled w0" and "conn_reachable u w0 w"
  shows "prefix (sent_cells w) (owed_cells w) \<and>
     (is_up w \<longrightarrow> sent_cells w @ out_cells w = owed_cells w \<and>
        (epoll_watched (poller w) (c_handle w) AND kWrite \<noteq> 0 \<longleftrightarrow> out_cells w \<noteq> []))"
proof -
  from conn_reachable_ok [OF assms] have w: "conn_inv w" "settled w" by (simp_all add: after_def)
  have "epoll_watched (poller w) (c_handle w) AND kWrite \<noteq> 0 \<longleftrightarrow> out_cells w \<noteq> []" if up: "is_up w"
  proof -
    from up obtain ch where ch: "c_channel w = Some ch" "established ch" "c_state w \<noteq> kDisconnected"
      by (auto simp: is_up_def)
    with w(1) have "open_channel w ch" by (simp add: conn_inv_def conn_wf_def chan_inv_def)
    then have "epoll_watched (poller w) (c_handle w) = ch_events ch" "out_cells w \<noteq> [] \<Longrightarrow> writing ch"
      using ch(2) by (auto simp: open_channel_def chan_ok_def)
    with w(2) up ch show ?thesis by (auto simp: settled_def writing_def)
  qed
  with w(1) show ?thesis by (simp add: conn_inv_def stream_inv_def)
qed

theorem output_stream_exact_witness:
  "prefix (sent_cells busy_cw) (owed_cells busy_cw) \<and> sent_cells busy_cw @ out_cells busy_cw = owed_cells busy_cw"
  using output_stream_exact [OF echo_user_ok busy_cw_inv(1,2) conn_reachable.initially] busy_cw_inv(3) by simp

section \<open>Closing\<close>

text \<open>
  C5. Cleanup happens once and in order. The first cleanup stops watching the descriptor, then
  closes it (after shutting the sending side of a live connection), cancels the close timer and
  marks the connection closed; only then the internal and after it the user's close callback run,
  each if set, and they find it released. Afterwards the channel is gone, and no later cleanup,
  close event or call of \<open>close\<close> does anything.
\<close>

theorem cleanup_releases_once:
  assumes u: "user_ok u" and inv: "conn_inv w" and first: "\<not> cleanup_done w"
  shows "\<exists>w1 w2 w3 w'. released w w1 \<and>
     call_if (has_internal_close w) Ev_internal_close (u_internal_close u) w1 = Inr w2 \<and>
     call_if (has_close_func w) (Ev_close err) (u_close u err) w2 = Inr w3 \<and>
     cleanup u err w = Inr w' \<and> log w' = log w3 \<and>
     c_state w' = kDisconnected \<and> c_channel w' = None \<and> c_handle w' = invalid_socket \<and>
     (\<forall>e. cleanup u e w' = Inr w' \<and> handle_close_event u e w' = Inr w') \<and> close u w' = Inr w'"
proof -
  let ?i = "has_internal_close w" and ?c = "has_close_func w"
  from cleanup_release [OF conn_invD(1) [OF inv] first, of u err] obtain w1 where
    1: "cleanup u err w = finish_cleanup u err ?i ?c w1" "released w w1" by blast
  have r1: "c_state w1 = kDisconnected" "cleanup_done w1" "c_handle w1 = invalid_socket"
    using 1(2) by (simp_all add: released_def)
  have i1: "conn_inv w1" by (rule released_inv(1) [OF conn_invD [OF inv] 1(2)])
  from finish_cleanup_ok [OF u i1 r1(1), of err ?i ?c] obtain w' where
    w': "finish_cleanup u err ?i ?c w1 = Inr w'" "conn_inv w'" "follows w1 w'"
        "c_state w' = kDisconnected" "c_channel w' = None" by blast
  from call_if_ok [OF user_okD(3) [OF u] i1, of Ev_internal_close ?i] obtain w2 where
    2: "call_if ?i Ev_internal_close (u_internal_close u) w1 = Inr w2" "conn_inv w2" by auto
  from call_if_ok [OF user_okD(2) [OF u, of err] 2(2), of "Ev_close err" ?c] obtain w3 where
    3: "call_if ?c (Ev_close err) (u_close u err) w2 = Inr w3" by auto
  have "log w' = log w3" using w'(1) 2(1) 3 by (auto simp: finish_cleanup_def post_def split: option.splits)
  moreover have "cleanup_done w'" "c_handle w' = invalid_socket"
    using followsD(7) [OF w'(3) r1(2)] followsD(4) [OF w'(3,4)] r1 by simp_all
  moreover from this have "cleanup u e w' = Inr w'" for e
    using w'(2) by (simp add: cleanup_def conn_inv_def conn_wf_def)
  ultimately show ?thesis using 1 2(1) 3 w' by (auto simp: handle_close_event_def close_def)
qed

theorem cleanup_releases_once_witness:
  "\<exists>w1 w'. released busy_cw w1 \<and> cleanup echo_user 0 busy_cw = Inr w' \<and> c_handle w' = invalid_socket"
  using cleanup_releases_once [OF echo_user_ok busy_cw_inv(1,6), of 0] by blast



text \<open>
  C7. The close timer. A shutdown arms exactly one timer for the close timeout, whose callback
  closes the connection with \<open>ETIMEDOUT\<close>; a timer already armed is kept. The cleanup takes the
  timer off the schedule again, leaving every other timer in place.
\<close>

theorem close_timer_lifecycle:
  assumes inv: "conn_inv w" and st: "c_state w = kConnected" and "close_timer_id w = 0" and ms: "0 < close_timeout_ms w"
    and tm: "tm_inv (tmgr w)" "running (tmgr w)" "next_id (tmgr w) + 1 \<noteq> 0" and u: "user_ok u"
  shows "\<exists>w' w1. shutdown_in_poll w = Inr w' \<and>
     tm_entries (tmgr w') = emplace (now w + 1000000 * uint (close_timeout_ms w), next_id (tmgr w), Some Task_close_timeout)
       (tm_entries (tmgr w)) \<and> close_timer_id w' = next_id (tmgr w) \<and>
     cleanup u err w' = finish_cleanup u err (has_internal_close w') (has_close_func w') w1 \<and>
     tm_entries (tmgr w1) = filter (\<lambda>e. entry_id e \<noteq> next_id (tmgr w)) (tm_entries (tmgr w')) \<and> close_timer_id w1 = 0"
proof -
  let ?add = "add_timer (now w) (close_timeout_ms w) (Some Task_close_timeout) (tmgr w)"
  note A = add_timer_refines [OF tm(1,2), of "now w" "close_timeout_ms w" "Some Task_close_timeout"]
  from shutdown_in_poll_ok [OF inv] st ms obtain w' where
    w': "shutdown_in_poll w = Inr w'" "conn_inv w'" "tmgr w' = tmgr (start_close_timeout w)"
        "close_timer_id w' = close_timer_id (start_close_timeout w)" "c_state w' = kDisconnecting" by auto
  have t': "tmgr w' = snd ?add" "close_timer_id w' = next_id (tmgr w)"
    using w'(3,4) assms(3) A(1) by (auto simp: start_close_timeout_def split: prod.splits)
  have "\<not> cleanup_done w'"
    using w'(2,5) by (auto simp: conn_inv_def conn_wf_def chan_inv_def open_channel_def split: option.splits)
  from cleanup_release [OF conn_invD(1) [OF w'(2)] this, of u err] obtain w1 where
    1: "cleanup u err w' = finish_cleanup u err (has_internal_close w') (has_close_func w') w1" "released w' w1" by blast
  have "0 < next_id (tmgr w)" using tm(1) by (simp add: tm_inv_def)
  then have "tmgr w1 = cancel_timer (next_id (tmgr w)) (tmgr w')" "close_timer_id w1 = 0"
    using 1(2) t'(2) by (auto simp: released_def cancel_close_timeout_def)
  with cancel_timer_refines(1) [of "tmgr w'" "next_id (tmgr w)"] A(2,3,4) tm(3) t' w'(1) 1(1) show ?thesis by auto
qed

theorem close_timer_lifecycle_witness:
  "\<exists>w'. shutdown_in_poll busy_cw = Inr w' \<and> close_timer_id w' = 1"
proof -
  have f: "close_timer_id busy_cw = 0" "0 < close_timeout_ms busy_cw" "tmgr busy_cw = TimerManager_new"
    by (simp_all add: busy_with_def conn.defs cw.defs Conn_new_def)
  have "next_id (tmgr busy_cw) + 1 \<noteq> 0" "running (tmgr busy_cw)" "next_id (tmgr busy_cw) = 1"
    unfolding f(3) by (simp_all add: TimerManager_new_def)
  with close_timer_lifecycle [OF busy_cw_inv(1,4) f(1,2) _ _ _ echo_user_ok] f(3) tm_inv_new show ?thesis by auto
qed

section \<open>Receiving and calling\<close>

text \<open>
  C8. Nothing received is lost. The read handler takes in everything the socket has, up to the
  end of the stream, a fatal error or the point where reading would block, in order and whatever
  the pieces it comes in; then the message callback is called once if anything new arrived, with
  all of it in the buffer; and only after that the connection is closed, if the peer closed it or
  the error was fatal.
\<close>

theorem read_event_delivers:
  assumes inv: "conn_inv w" and st: "c_state w = kConnected"
  shows "\<exists>w1. conn_inv w1 \<and> in_cells w1 = in_cells w @ map Some (fst (arriving (recvs w))) \<and> log w1 = log w \<and>
     handle_read_event u w =
       andthen (if fst (arriving (recvs w)) \<noteq> [] \<and> has_message_func w then u_message u (emit (Ev_message (in_cells w1)) w1) else Inr w1)
         (\<lambda>w2. case snd (arriving (recvs w)) of Rd_close err \<Rightarrow> handle_close_event u err w2 | _ \<Rightarrow> Inr w2)"
proof -
  from read_loop_ok [OF assms, of False] obtain w1 where
    1: "read_loop False w = Inr (snd (arriving (recvs w)), fst (arriving (recvs w)) \<noteq> [], w1)" "received w (recvs w) w1" by auto
  then have "has_message_func w1 = has_message_func w" "log w1 = log w" by (auto simp: received_def)
  with 1 show ?thesis by (intro exI [of _ w1]) (simp add: handle_read_event_def call_if_def received_def)
qed

theorem read_event_delivers_witness:
  "\<exists>w1. in_cells w1 = [Some 66, Some 67] \<and>
     handle_read_event echo_user busy_cw =
       andthen (u_message echo_user (emit (Ev_message (in_cells w1)) w1)) (handle_close_event echo_user 0)"
proof -
  have f: "recvs busy_cw = [Recv_data [66, 67], Recv_data []]" "has_message_func busy_cw" "in_cells busy_cw = []"
    by (simp_all add: busy_with_def conn.defs cw.defs Conn_new_def in_cells_def contents_def no_byte_def readable_size_def)
  from read_event_delivers [OF busy_cw_inv(1,4), of echo_user] f show ?thesis by auto
qed

text \<open>
  C24. Calls from other threads. \<open>send\<close>, \<open>shutdown\<close> and \<open>close\<close> called on another thread change
  nothing but the task queue; once the poll thread has run the queue, the state is the one a call
  on the poll thread would have given. So is the result of the close timer, which fires on the
  timer thread.
\<close>

fun run_tasks :: "'a user_cb \<Rightarrow> conn_task list \<Rightarrow> 'a cw \<Rightarrow> 'a cw result" where
  "run_tasks u [] w = Inr w"
| "run_tasks u (t # ts) w = andthen (run_conn_task u t w) (run_tasks u ts)"

definition run_queue :: "'a user_cb \<Rightarrow> 'a cw \<Rightarrow> 'a cw result" where
  "run_queue u w = run_tasks u (tasks w) (w\<lparr>tasks := []\<rparr>)"

lemma same_tasks:
  assumes "in_poll w" and "tasks w = []"
  shows "w\<lparr>tasks := []\<rparr> = w" "w\<lparr>in_poll := True\<rparr> = w" "w\<lparr>in_poll := True, tasks := []\<rparr> = w"
  by (rule cw.equality; simp add: assms)+

lemma andthen_Inr_right [simp]: "andthen m Inr = m"
  by (cases m) simp_all

theorem remote_call_equivalent:
  assumes io: "in_poll w" and q: "tasks w = []"
  shows "andthen (on_other_thread (run_call u c) w) (run_queue u) = run_call u c w \<and>
     andthen (on_other_thread (run_conn_task u Task_close_timeout) w) (run_queue u) = cleanup u ETIMEDOUT w"
proof -
  note T = same_tasks [OF io q]
  have [simp]: "run_tasks u [t] = run_conn_task u t" for t by (rule ext) (simp add: cong: andthen_cong)
  show ?thesis using io q
    by (cases c) (auto simp: T on_other_thread_def run_queue_def send_def shutdown_def close_def post_def shutdown_in_poll_def
          split: option.split)
qed

theorem remote_call_equivalent_witness:
  "andthen (on_other_thread (run_call echo_user Call_close) busy_cw) (run_queue echo_user) = close echo_user busy_cw"
proof -
  have "tasks busy_cw = []" by (simp add: busy_with_def conn.defs cw.defs)
  from remote_call_equivalent [OF busy_cw_inv(7) this, of echo_user Call_close] show ?thesis by simp
qed

section \<open>Connecting\<close>

definition dialing_channel :: "conn_fn channel" where
  "dialing_channel = \<lparr>ch_id = 1, ch_handle = 7, ch_events = 2, ch_result = 0, ch_registered = True, ch_tied = True,
     ch_on_read = None, ch_on_write = Some Fn_connect_event, ch_on_close = None\<rparr>"

definition dialing_with :: "'a \<Rightarrow> 'a cw" where
  "dialing_with a = conn.extend
     ((Conn_new 7)\<lparr>c_channel := Some dialing_channel, c_state := kConnecting, has_connected_func := True,
        has_connect_error := True\<rparr>)
     (cw.fields (busy_poller\<lparr>ctl_log := [Ctl EPOLL_CTL_ADD 7 (to_epoll_events 2 OR EPOLLET) 1]\<rparr>)
        TimerManager_new [] True 0 2 [] [] 0 (0, 0) sample_connect_os (\<lambda>_ _. None) [] a)"

abbreviation dialing_cw :: "unit cw" where
  "dialing_cw \<equiv> dialing_with ()"

lemma dialing_with_inv: "conn_inv (dialing_with a)" "c_state (dialing_with a) = kConnecting"
proof -
  let ?p = "busy_poller\<lparr>ctl_log := [Ctl EPOLL_CTL_ADD 7 (to_epoll_events 2 OR EPOLLET) 1]\<rparr>"
  have ch: "epoll_chan_ok ?p dialing_channel"
    by (simp add: chan_ok_def epoll_synced_def epoll_watched_def epoll_ok_def epoll_documented_def interest_def
          busy_poller_def dialing_channel_def valid_events_def to_epoll_events_def epoll_flags event_flags)
  moreover have "epoll_ok ?p" using ch by (simp add: chan_ok_def)
  moreover have "\<not> established dialing_channel" "connecting_ch dialing_channel" "ch_handle dialing_channel = 7"
    by (simp_all add: established_def connecting_ch_def dialing_channel_def)
  ultimately show "conn_inv (dialing_with a)"
    by (simp add: cw_defs stream_def dialing_with_def conn.defs cw.defs Conn_new_def)
  show "c_state (dialing_with a) = kConnecting" by (simp add: dialing_with_def conn.defs cw.defs)
qed

lemmas dialing_cw_inv = dialing_with_inv [of "()"]

text \<open>
  The outcome of a connection attempt. When the socket of an attempt becomes writable, no
  error pending means that the connection is established (watched for reading, on the same
  descriptor) before the connected callback runs; an error means that the descriptor is no longer
  watched, is closed and given up, and the connection is disconnected, before the error callback
  runs with that error.
\<close>

lemma connect_event_outcome:
  assumes inv: "conn_inv w" and st: "c_state w = kConnecting"
  defines "err \<equiv> (if fst (so_answer w) < 0 then errno w else snd (so_answer w))"
  shows "(err = 0 \<longrightarrow> (\<exists>w1. handle_connect_event u w = call_if (has_connected_func w) Ev_connected (u_connected u) w1 \<and>
            conn_inv w1 \<and> c_state w1 = kConnected \<and> c_handle w1 = c_handle w \<and>
            epoll_watched (poller w1) (c_handle w) = kRead)) \<and>
     (err \<noteq> 0 \<longrightarrow> (\<exists>w1. handle_connect_event u w = connect_error u err w1 \<and> c_state w1 = kDisconnected \<and>
            c_handle w1 = invalid_socket \<and> c_channel w1 = None \<and> epoll_watched (poller w1) (c_handle w) = 0 \<and>
            log w1 = log w @ [Ev_sys (Sys_close (c_handle w))]))"
proof -
  from connecting_dropped [OF inv st] obtain p' where
    p: "drop_channel w = Inr (w\<lparr>poller := p', c_channel := None\<rparr>)" "epoll_ok p'" "fresh_handle p' (c_handle w)"
       "in_poll w" "bufs_ok w" "out_cells w = []" "c_handle w \<noteq> invalid_socket" by blast
  let ?v = "w\<lparr>poller := p', c_channel := None\<rparr>"
  have bufs: "bufs_ok ?v" "out_cells ?v = []" "fresh_handle (poller ?v) (c_handle ?v)"
    using p by (simp_all add: bufs_ok_def in_cells_def out_cells_def)
  from start_ok [OF _ _ bufs(1,3,2)] p(2,4) obtain x where
    x: "start ?v = Inr x" "conn_inv x" "c_state x = kConnected" "has_connected_func x = has_connected_func w"
       "c_handle x = c_handle w" "epoll_watched (poller x) (c_handle w) = kRead" by auto
  have "epoll_watched p' (c_handle w) = 0" using p(3) by (simp add: epoll_watched_def fresh_handle_def)
  with x p st show ?thesis
    by (auto simp: handle_connect_event_def err_def [symmetric] close_handle_def)
qed

text \<open>
  C18. A refused connection attempt is not noticed. epoll reports a failed asynchronous attempt
  with \<open>EPOLLERR\<close> and \<open>EPOLLHUP\<close> beside \<open>EPOLLOUT\<close>. The channel of an attempt has no close
  callback, and its write callback is not called when an error is reported: the event has no
  effect at all. The connection stays in the connecting state and no callback is called.
\<close>

theorem connect_failure_unnoticed:
  assumes inv: "conn_inv w" and st: "c_state w = kConnecting"
  shows "(ev AND (kError OR kHup) \<noteq> 0 \<longrightarrow> on_event u ev so_error w = Inr w) \<and>
     on_event u (from_epoll_events (EPOLLOUT OR EPOLLERR OR EPOLLHUP)) so_error w = Inr w"
proof -
  from open_channelI [OF conn_invD(1) [OF inv]] st obtain ch where
    ch: "c_channel w = Some ch" "connecting_ch ch" by (auto simp: open_channel_def)
  then have all: "ev AND (kError OR kHup) \<noteq> 0 \<longrightarrow> on_event u ev so_error w = Inr w" for ev
    by (simp add: on_event_def handle_event_def dispatch_event_def connecting_ch_def calls_of_def)
  have "from_epoll_events (EPOLLOUT OR EPOLLERR OR EPOLLHUP) AND (kError OR kHup) \<noteq> 0"
    by (simp add: from_epoll_events_def epoll_flags event_flags)
  with all show ?thesis by blast
qed

theorem connect_failure_unnoticed_witness:
  "on_event quiet_user (from_epoll_events (EPOLLOUT OR EPOLLERR OR EPOLLHUP)) 111 dialing_cw = Inr dialing_cw"
  using connect_failure_unnoticed [OF dialing_cw_inv] by blast

section \<open>Closing inside the low-watermark callback\<close>

definition closing_user :: "'a user_cb" where
  "closing_user = quiet_user\<lparr>u_watermark := (\<lambda>_. close quiet_user)\<rparr>"

lemma quiet_close:
  assumes inv: "conn_inv w" and up: "is_up w"
  shows "\<exists>w'. close quiet_user w = Inr w' \<and> c_channel w' = None \<and> write_buffer w' = write_buffer w"
proof -
  have st: "c_state w \<noteq> kDisconnected" and io: "in_poll w" and nd: "\<not> cleanup_done w"
    using inv up by (auto simp: is_up_def conn_inv_def conn_wf_def chan_inv_def open_channel_def)
  from cleanup_release [OF conn_invD(1) [OF inv] nd, of quiet_user 0] obtain w1 where
    1: "cleanup quiet_user 0 w = finish_cleanup quiet_user 0 (has_internal_close w) (has_close_func w) w1" "released w w1" by blast
  have "\<exists>w'. finish_cleanup quiet_user 0 i c w1 = Inr w' \<and> c_channel w' = None \<and> write_buffer w' = write_buffer w1" for i c
    by (auto simp: finish_cleanup_def call_if_def quiet_user_def post_def split: option.split)
  with 1 st io show ?thesis by (auto simp: close_def released_def)
qed

text \<open>
  C25. Closing a connection inside its low-watermark callback can crash. If the socket takes all
  the output at once while the high-watermark warning is on, and the low-watermark callback closes
  the connection, the write handler then finds nothing left to write and calls a method of the
  channel, which the close has taken away: a null dereference.
\<close>

theorem low_watermark_close_crashes:
  assumes inv: "conn_inv w" and up: "is_up w" and out: "out_cells w \<noteq> []"
    and warn: "high_watermark_warning w" "has_watermark_func w"
    and room: "sends w = Send_room k # ss" "length (out_cells w) \<le> k" "length (out_cells w) \<le> MAX_RW_COUNT"
  shows "handle_write_event closing_user w = Inl Null_deref"
proof -
  from up_has_buffers [OF conn_invD(1) [OF inv] up] obtain b where
    b: "write_buffer w = Some b" "buf_inv b" and h: "c_handle w \<noteq> invalid_socket" by blast
  have c: "out_cells w = contents b" using b by (simp add: out_cells_def)
  have rd: "readable_size b > 0" using out c readable_0_iff [OF b(2)] by (simp add: word_neq_0_conv)
  let ?n = "length (contents b)" and ?v = "emit (Ev_sent (contents b)) (w\<lparr>sends := ss\<rparr>)"
  have s: "sys_send (contents b) w = (Some ?n, ?v)" using h room c by (simp add: sys_send_def min_absorb2 Let_def)
  from drain_step [OF inv up b(1) s] obtain b1 where
    b1: "been_read b (of_nat ?n) = Inr b1" "buf_inv b1" "contents b1 = drop ?n (contents b)"
        "conn_inv (?v\<lparr>write_buffer := Some b1\<rparr>)" "is_up (?v\<lparr>write_buffer := Some b1\<rparr>)" by blast
  have r1: "readable_size b1 = 0" using readable_0_iff [OF b1(2)] b1(3) by simp
  let ?l = "sint (low_watermark w)" and ?w2 = "?v\<lparr>write_buffer := Some b1\<rparr>"
  have n: "neutral (Ev_watermark ?l)" by simp
  note A = alike_inv(2) [OF alike_emit [OF n, of ?w2]] and C = alike_cells(5) [OF alike_emit [OF n, of ?w2]]
  from quiet_close [of "emit (Ev_watermark ?l) ?w2"] A C b1(4,5) obtain w3 where
    3: "close quiet_user (emit (Ev_watermark ?l) ?w2) = Inr w3" "c_channel w3 = None" "write_buffer w3 = Some b1" by auto
  have "write_loop (Suc (Suc (length ss))) closing_user w = Inr (False, w3\<lparr>high_watermark_warning := False\<rparr>)"
    using b rd peek_ok [OF b(2)] s b1(1) r1 warn out c 3
    by (simp add: call_if_def closing_user_def)
  moreover have "in_poll w" using inv by (simp add: conn_inv_def conn_wf_def)
  ultimately show ?thesis using room(1) 3 r1 by (simp add: handle_write_event_def on_channel_def)
qed

theorem low_watermark_close_crashes_witness:
  "handle_write_event closing_user busy_cw = Inl Null_deref"
proof -
  have "out_cells busy_cw \<noteq> []" "length (out_cells busy_cw) \<le> 10" "length (out_cells busy_cw) \<le> MAX_RW_COUNT"
    using busy_cw_inv(5) by (simp_all add: MAX_RW_COUNT_def)
  moreover have "high_watermark_warning busy_cw" "has_watermark_func busy_cw" "sends busy_cw = [Send_room 10]"
    by (simp_all add: busy_with_def conn.defs cw.defs)
  ultimately show ?thesis using low_watermark_close_crashes [OF busy_cw_inv(1,3)] by blast
qed

end
