(* ===== verification/Conn_App.thy ===== *)
theory Conn_App
  imports Conn_Props
begin

text \<open>
  Programs that use a connection: what the callbacks of the programs under src/examples do with
  the connection they are called for, and the rule by which an invariant of such a program is
  established.

  The state of the program is the field \<open>app\<close> of the world of a connection. A program's invariant
  relates that state to the log of the connection. The locale \<open>closing_program\<close> states what the
  close callback keeps of it; from this follows what closing, writing, shutting down and sending
  keep. Theory Conn_Serve adds the message callback.
\<close>

section \<open>What callbacks do\<close>

text \<open>\<open>std::string(buffer->peek(), buffer->readable_size())\<close> and \<open>buffer->been_read_all()\<close>.\<close>

definition message_text :: "'a cw \<Rightarrow> byte list result" where
  "message_text w = (case read_buffer w of None \<Rightarrow> Inl Null_deref
     | Some b \<Rightarrow> andthen (peek b) (\<lambda>xs. Inr (map the xs)))"

definition consume :: "'a cw \<Rightarrow> 'a cw result" where
  "consume w = (case read_buffer w of None \<Rightarrow> Inl Null_deref
     | Some b \<Rightarrow> andthen (been_read_all b) (\<lambda>b'. Inr (w\<lparr>read_buffer := Some b'\<rparr>)))"

text \<open>\<open>conn->set_conn_user_callbacks(..., ...)\<close> with both callbacks set.\<close>

definition install_callbacks :: "'a cw \<Rightarrow> 'a cw" where
  "install_callbacks w = w\<lparr>has_message_func := True, has_close_func := True\<rparr>"

lemma install_callbacks_sets:
  "conn.truncate (install_callbacks w) = set_conn_user_callbacks True True (conn.truncate w)"
  by (simp add: install_callbacks_def set_conn_user_callbacks_def conn.defs)

definition with_app :: "('a \<Rightarrow> 'a) \<Rightarrow> 'a cw \<Rightarrow> 'a cw" where
  "with_app f w = w\<lparr>app := f (app w)\<rparr>"

text \<open>The characters of a string literal as bytes.\<close>

definition bytes :: "string \<Rightarrow> byte list" where
  "bytes s = map of_char s"

text \<open>
  A program whose message and connected callbacks are left out. Sending, closing and writing call
  neither, so that these callbacks can be defined by means of the rest.
\<close>

definition base :: "'a user_cb \<Rightarrow> 'a user_cb" where
  "base u = u\<lparr>u_message := Inr, u_connected := Inr\<rparr>"

definition closing_user_cb :: "(int \<Rightarrow> 'a \<Rightarrow> 'a) \<Rightarrow> (int \<Rightarrow> 'a \<Rightarrow> 'a) \<Rightarrow> 'a user_cb" where
  "closing_user_cb on_close on_error = quiet_user\<lparr>u_close := (\<lambda>err w. Inr (with_app (on_close err) w)),
     u_connect_error := (\<lambda>err w. Inr (with_app (on_error err) w))\<rparr>"

lemma base_fields [simp]:
  "u_close (base u) = u_close u" "u_internal_close (base u) = u_internal_close u"
  "u_watermark (base u) = u_watermark u" "u_connect_error (base u) = u_connect_error u"
  "u_message (base u) = Inr" "u_connected (base u) = Inr"
  by (simp_all add: base_def)

lemma closing_user_cb_fields [simp]:
  "u_message (closing_user_cb f g) = Inr" "u_connected (closing_user_cb f g) = Inr"
  "u_internal_close (closing_user_cb f g) = Inr" "u_watermark (closing_user_cb f g) l = Inr"
  "u_close (closing_user_cb f g) err w = Inr (with_app (f err) w)"
  "u_connect_error (closing_user_cb f g) err w = Inr (with_app (g err) w)"
  by (simp_all add: closing_user_cb_def quiet_user_def)

text \<open>
  Closing, writing and sending depend on the callbacks only through the cleanup and the watermark
  callback, and not on the message and connected callbacks.
\<close>

definition same_closing :: "'a user_cb \<Rightarrow> 'a user_cb \<Rightarrow> bool" where
  "same_closing u v \<longleftrightarrow> u_close u = u_close v \<and> u_internal_close u = u_internal_close v \<and> u_watermark u = u_watermark v"

definition same_cleanup :: "'a user_cb \<Rightarrow> 'a user_cb \<Rightarrow> bool" where
  "same_cleanup u v \<longleftrightarrow> do_cleanup u = do_cleanup v \<and> u_watermark u = u_watermark v"

lemma same_closing_cleanup: "same_closing u v \<Longrightarrow> same_cleanup u v"
  unfolding same_closing_def same_cleanup_def by (auto intro!: ext simp: do_cleanup_def Let_def)

lemma same_cleanup_base [simp]: "same_cleanup u (base u)"
  by (rule same_closing_cleanup) (simp add: same_closing_def)

lemma cleanup_base: "same_cleanup u v \<Longrightarrow> cleanup u = cleanup v"
  by (intro ext) (simp add: same_cleanup_def cleanup_def)

lemma handle_close_event_base: "same_cleanup u v \<Longrightarrow> handle_close_event u = handle_close_event v"
  by (intro ext) (simp add: handle_close_event_def cleanup_base)

lemma close_base: "same_cleanup u v \<Longrightarrow> close u = close v"
  by (rule ext) (simp add: close_def cleanup_base)

lemma write_loop_base: "same_cleanup u v \<Longrightarrow> write_loop fuel u = write_loop fuel v"
proof (induction fuel)
  case (Suc fuel)
  note eqs = Suc.IH [OF Suc.prems] handle_close_event_base [OF Suc.prems]
  from Suc.prems have "u_watermark u = u_watermark v" by (simp add: same_cleanup_def)
  then show ?case by (intro ext) (simp only: write_loop.simps eqs)
qed (simp add: fun_eq_iff)

lemma handle_write_event_base: "same_cleanup u v \<Longrightarrow> handle_write_event u = handle_write_event v"
  by (rule ext) (simp add: handle_write_event_def write_loop_base)

lemma send_base:
  assumes "same_cleanup u v"
  shows "send u = send v"
proof -
  have wm: "u_watermark u = u_watermark v" using assms by (simp add: same_cleanup_def)
  have "check_high_watermark u w = check_high_watermark v w" for w
    unfolding check_high_watermark_def wm ..
  then have eq: "check_high_watermark u = check_high_watermark v" ..
  have "send_in_poll_thread u data w = send_in_poll_thread v data w" for data w
    unfolding send_in_poll_thread_def eq handle_close_event_base [OF assms] ..
  then have eq': "send_in_poll_thread u = send_in_poll_thread v" by (intro ext)
  show ?thesis by (intro ext) (simp only: send_def eq')
qed

text \<open>A send from another thread is posted to the poll of the connection.\<close>

lemma remote_send:
  assumes "c_state w = kConnected" and "msg \<noteq> []"
  shows "on_other_thread (send u (Some msg)) w = Inr (post (Task_send msg) w)"
  using assms by (simp add: on_other_thread_def send_def post_def)

section \<open>Steps that no program notices\<close>

text \<open>
  Events that are none of a program's business, and the tasks that make a connection do something
  for a program: posted sends and connection attempts.
\<close>

fun inert :: "conn_event \<Rightarrow> bool" where
  "inert (Ev_sys _) = True"
| "inert (Ev_sent _) = True"
| "inert Ev_internal_close = True"
| "inert (Ev_watermark _) = True"
| "inert _ = False"

fun is_work :: "conn_task \<Rightarrow> bool" where
  "is_work (Task_send _) = True"
| "is_work (Task_start_connect _ _) = True"
| "is_work _ = False"

definition queued_work :: "'a cw \<Rightarrow> conn_task list" where
  "queued_work w = filter is_work (tasks w)"

fun message_step :: "cell list list \<Rightarrow> conn_event \<Rightarrow> cell list list" where
  "message_step ms (Ev_started xs) = []"
| "message_step ms (Ev_message xs) = ms @ [xs]"
| "message_step ms e = ms"

text \<open>The messages handed to the program since the connection started, and all their bytes.\<close>

definition messages :: "conn_event list \<Rightarrow> cell list list" where
  "messages l = foldl message_step [] l"

definition heard :: "conn_event list \<Rightarrow> cell list" where
  "heard l = concat (messages l)"

lemma messages_snoc [simp]: "messages (l @ [e]) = message_step (messages l) e"
  by (simp add: messages_def)

lemma messages_inert: "inert e \<Longrightarrow> message_step ms e = ms"
  by (cases e) simp_all

text \<open>Nothing is received or handed to the program, and what was handed to the socket stays so.\<close>

definition flows :: "'a cw \<Rightarrow> 'a cw \<Rightarrow> bool" where
  "flows w w' \<longleftrightarrow> recvs w' = recvs w \<and> messages (log w') = messages (log w) \<and> prefix (sent_cells w) (sent_cells w')"

lemma flows_refl [simp]: "flows w w"
  by (simp add: flows_def)

lemma flows_trans: "flows w v \<Longrightarrow> flows v x \<Longrightarrow> flows w x"
  by (auto simp: flows_def intro: prefix_order.trans)

fun passing :: "conn_event \<Rightarrow> bool" where
  "passing (Ev_started _) = False"
| "passing (Ev_message _) = False"
| "passing _ = True"

lemma inert_passing: "inert e \<Longrightarrow> passing e"
  by (cases e) simp_all

lemma passing_log:
  "list_all passing es \<Longrightarrow> messages (l @ es) = messages l \<and> prefix (fst (stream l)) (fst (stream (l @ es)))"
proof (induction es rule: rev_induct)
  case (snoc e es)
  then have IH: "messages (l @ es) = messages l" "prefix (fst (stream l)) (fst (stream (l @ es)))" and "passing e" by simp_all
  have m: "message_step ms e = ms" and s: "prefix (fst p) (fst (stream_step p e))" for ms p
    using \<open>passing e\<close> by (cases e; cases p; simp)+
  from IH messages_snoc [of "l @ es" e] stream_snoc [of "l @ es" e] m prefix_order.trans [OF IH(2) s]
  show ?case by simp
qed simp

lemma flowsI: "recvs w' = recvs w \<Longrightarrow> log w' = log w @ es \<Longrightarrow> list_all passing es \<Longrightarrow> flows w w'"
  using passing_log [of es "log w"] by (simp add: flows_def sent_cells_def)

lemma flows_emit: "passing e \<Longrightarrow> flows w (emit e w)"
  by (rule flowsI [of _ _ "[e]"]) simp_all

abbreviation live :: "'a cw \<Rightarrow> bool" where
  "live w \<equiv> c_state w = kConnected"

definition unnoticed :: "'a cw \<Rightarrow> 'a cw \<Rightarrow> bool" where
  "unnoticed w w' \<longleftrightarrow> read_buffer w' = read_buffer w \<and> queued_work w' = queued_work w \<and>
     has_message_func w' = has_message_func w \<and> app w' = app w \<and> (live w' \<longrightarrow> live w) \<and> recvs w' = recvs w \<and>
     (\<exists>es. log w' = log w @ es \<and> list_all inert es)"

lemma unnoticedI:
  "read_buffer w' = read_buffer w \<Longrightarrow> queued_work w' = queued_work w \<Longrightarrow> has_message_func w' = has_message_func w \<Longrightarrow>
   app w' = app w \<Longrightarrow> (live w' \<Longrightarrow> live w) \<Longrightarrow> recvs w' = recvs w \<Longrightarrow> log w' = log w @ es \<Longrightarrow> list_all inert es \<Longrightarrow> unnoticed w w'"
  by (auto simp: unnoticed_def)

lemma unnoticed_flows:
  assumes "unnoticed w w'"
  shows "flows w w'"
proof -
  from assms obtain es where es: "log w' = log w @ es" "list_all inert es" "recvs w' = recvs w" by (auto simp: unnoticed_def)
  then have "list_all passing es" by (auto simp: list_all_iff inert_passing)
  with es show ?thesis by (intro flowsI)
qed

lemma unnoticed_refl [simp]: "unnoticed w w"
  by (simp add: unnoticed_def)

lemma unnoticed_trans: "unnoticed w v \<Longrightarrow> unnoticed v x \<Longrightarrow> unnoticed w x"
  by (auto simp: unnoticed_def)

lemma queued_work_simps [simp]:
  "queued_work (post t w) = queued_work w @ (if is_work t then [t] else [])"
  "queued_work (emit e w) = queued_work w"
  by (simp_all add: queued_work_def post_def emit_def)

lemma emit_cells [simp]: "out_cells (emit e w) = out_cells w" "in_cells (emit e w) = in_cells w"
  by (simp_all add: out_cells_def in_cells_def)

lemma unnoticed_emit: "inert e \<Longrightarrow> unnoticed w (emit e w)"
  by (rule unnoticedI [of _ _ "[e]"]) (simp_all add: emit_def queued_work_def)

lemma unnoticed_post: "\<not> is_work t \<Longrightarrow> unnoticed w (post t w)"
  by (rule unnoticedI [of _ _ "[]"]) (simp_all add: post_def queued_work_def)

lemma unnoticed_fields:
  "unnoticed w (w\<lparr>c_channel := ch\<rparr>)" "st \<noteq> kConnected \<Longrightarrow> unnoticed w (w\<lparr>c_state := st\<rparr>)" "unnoticed w (w\<lparr>cleanup_done := d\<rparr>)"
  "unnoticed w (w\<lparr>high_watermark_warning := d\<rparr>)" "unnoticed w (w\<lparr>write_buffer := b\<rparr>)"
  "unnoticed w (w\<lparr>c_handle := h\<rparr>)" "unnoticed w (w\<lparr>has_internal_close := d, has_close_func := d'\<rparr>)"
  by (auto simp: unnoticed_def queued_work_def)

lemma on_channel_unnoticed: "on_channel f w = Inr w' \<Longrightarrow> unnoticed w w'"
  by (auto simp: on_channel_def andthen_eq_Inr unnoticed_def queued_work_def split: option.splits)

lemma on_channel_if_unnoticed: "on_channel_if f w = Inr w' \<Longrightarrow> unnoticed w w'"
  using on_channel_unnoticed [of f w w'] by (auto simp: on_channel_if_def split: if_splits)

lemma clear_and_remove_unnoticed: "clear_and_remove w = Inr w' \<Longrightarrow> unnoticed w w'"
  by (auto simp: clear_and_remove_def andthen_eq_Inr split: if_splits intro: unnoticed_trans dest!: on_channel_unnoticed)

lemma close_handle_unnoticed: "unnoticed w (close_handle w)"
  unfolding close_handle_def
  by (auto intro: unnoticed_trans [OF unnoticed_emit unnoticed_fields(6)])

lemma close_timeout_unnoticed: "unnoticed w (cancel_close_timeout w)" "unnoticed w (start_close_timeout w)"
  by (auto simp: cancel_close_timeout_def start_close_timeout_def unnoticed_def queued_work_def split: prod.split)

lemma sys_send_unnoticed: "sys_send xs w = (r, w') \<Longrightarrow> unnoticed w w'"
  by (auto simp: sys_send_def unnoticed_def queued_work_def emit_def Let_def split: if_splits list.splits send_answer.splits)

lemma direct_write_unnoticed: "direct_write data goal n w = (r, w') \<Longrightarrow> unnoticed w w'"
proof (induction data goal n w arbitrary: r rule: direct_write.induct)
  case (1 data goal n w)
  let ?xs = "map Some (take (goal - n) (drop n data)) :: cell list"
  obtain r1 v where v: "sys_send ?xs w = (r1, v)" by (cases "sys_send ?xs w") auto
  note U = sys_send_unnoticed [OF v]
  show ?case
  proof (cases "n < goal")
    case True
    have next_ok: "unnoticed v w'" if "r1 = Some k" "k > 0" "direct_write data goal (n + k) v = (r, w')" for k
      using "1.IH"(2) [OF True v [symmetric]] that by auto
    have again_ok: "unnoticed v w'" if "r1 = None" "handle_error_action (errno v) = kContinue" "direct_write data goal n v = (r, w')"
      using "1.IH"(1) [OF True v [symmetric]] that by auto
    show ?thesis using "1.prems" True v unnoticed_trans [OF U next_ok] unnoticed_trans [OF U again_ok] U
      by (subst (asm) direct_write.simps) (auto split: option.splits if_splits error_action.splits)
  qed (use "1.prems" in \<open>simp add: direct_write.simps\<close>)
qed

lemma queue_output_unnoticed: "queue_output xs w = Inr w' \<Longrightarrow> unnoticed w w'"
  by (auto simp: queue_output_def andthen_eq_Inr split: option.splits
        intro: unnoticed_trans [OF unnoticed_fields(5)] dest!: on_channel_unnoticed)

lemma shutdown_in_poll_unnoticed:
  assumes "shutdown_in_poll w = Inr w'"
  shows "unnoticed w w'"
proof -
  let ?w1 = "w\<lparr>c_state := kDisconnecting\<rparr>"
  note U1 = unnoticed_trans [OF unnoticed_fields(2) [of kDisconnecting w]]
  have flush: "unnoticed w (emit (Ev_sys c) x)" if "on_channel_if f ?w1 = Inr x" for c f x
    using U1 [OF _ unnoticed_trans [OF on_channel_if_unnoticed [OF that] unnoticed_emit]] by simp
  have timer: "unnoticed w (start_close_timeout x)" if "unnoticed w x" for x
    by (rule unnoticed_trans [OF that close_timeout_unnoticed(2)])
  show ?thesis using assms
    by (auto simp: shutdown_in_poll_def ensure_eq_Inr andthen_eq_Inr Let_def split: if_splits
          intro!: timer flush unnoticed_fields(2))
qed

section \<open>Programs with a close callback\<close>

definition calm :: "('a \<Rightarrow> bool \<Rightarrow> conn_event list \<Rightarrow> bool) \<Rightarrow> 'a cw \<Rightarrow> 'a cw \<Rightarrow> bool" where
  "calm I w w' \<longleftrightarrow> read_buffer w' = read_buffer w \<and> queued_work w' = queued_work w \<and>
     has_message_func w' = has_message_func w \<and> flows w w' \<and>
     (I (app w) (live w) (log w) \<longrightarrow> I (app w') (live w') (log w'))"

lemma calm_refl [simp]: "calm I w w"
  by (simp add: calm_def)

lemma calm_trans: "calm I w v \<Longrightarrow> calm I v x \<Longrightarrow> calm I w x"
  by (auto simp: calm_def intro: flows_trans)

lemma alike_with_app: "alike w (with_app f w)"
  by (simp add: alike_def with_app_def)

lemma with_app_simps [simp]:
  "app (with_app f w) = f (app w)" "log (with_app f w) = log w" "read_buffer (with_app f w) = read_buffer w"
  "has_message_func (with_app f w) = has_message_func w" "queued_work (with_app f w) = queued_work w"
  "c_state (with_app f w) = c_state w" "in_cells (with_app f w) = in_cells w"
  by (simp_all add: with_app_def queued_work_def in_cells_def)

lemma flows_with_app [simp]: "flows w (with_app f w)" "flows w (w\<lparr>read_buffer := b\<rparr>)"
  by (simp_all add: flows_def sent_cells_def with_app_def)

lemma with_app_id [simp]: "with_app (\<lambda>s. s) w = w"
  by (simp add: with_app_def)

lemma app_callback_ok: "(\<And>w. h w = Inr (with_app f w)) \<Longrightarrow> callback_ok h"
  by (simp add: callback_ok_def alike_inv [OF alike_with_app])

text \<open>Reading the message and taking it out of the buffer.\<close>

lemma message_text_ok:
  assumes "conn_inv w" and "in_cells w = map Some xs" and "xs \<noteq> []"
  shows "message_text w = Inr xs"
proof -
  from assms(2,3) obtain b where b: "read_buffer w = Some b" "contents b = map Some xs"
    by (auto simp: in_cells_def split: option.splits)
  with assms(1) have "buf_inv b" by (simp add: conn_inv_def conn_wf_def bufs_ok_def)
  with b peek_ok show ?thesis by (simp add: message_text_def comp_def)
qed

lemma consume_ok:
  assumes inv: "conn_inv w" and b: "read_buffer w = Some b"
  shows "\<exists>b'. consume w = Inr (w\<lparr>read_buffer := Some b'\<rparr>) \<and> contents b' = [] \<and>
           conn_inv (w\<lparr>read_buffer := Some b'\<rparr>) \<and> follows w (w\<lparr>read_buffer := Some b'\<rparr>)"
proof -
  from inv b have bi: "buf_inv b" by (simp add: conn_inv_def conn_wf_def bufs_ok_def)
  have "readable_size b = of_nat (length (contents b))" by (simp add: length_contents [OF bi])
  with been_read_nat [OF bi order_refl] obtain b' where
    b': "been_read_all b = Inr b'" "buf_inv b'" "contents b' = []" by (auto simp: been_read_all_def)
  let ?v = "w\<lparr>read_buffer := Some b'\<rparr>"
  have "conn_inv ?v" using inv b b' by (auto simp: cw_defs split: option.splits)
  moreover have "follows w ?v" by (simp add: follows_def settled_def is_up_def out_cells_def)
  ultimately show ?thesis using b b' by (intro exI [of _ b']) (simp add: consume_def)
qed

lemma consumed_simps [simp]:
  "queued_work (w\<lparr>read_buffer := b\<rparr>) = queued_work w" "out_cells (w\<lparr>read_buffer := b\<rparr>) = out_cells w"
  "in_cells (w\<lparr>read_buffer := Some b'\<rparr>) = contents b'"
  by (simp_all add: queued_work_def out_cells_def in_cells_def)

definition answered :: "('a \<Rightarrow> bool \<Rightarrow> conn_event list \<Rightarrow> bool) \<Rightarrow> 'a cw \<Rightarrow> 'a cw \<Rightarrow> bool" where
  "answered I w w' \<longleftrightarrow> conn_inv w' \<and> follows w w' \<and> queued_work w' = queued_work w \<and>
     has_message_func w' = has_message_func w \<and> in_cells w' = [] \<and> flows w w' \<and> I (app w') (live w') (log w')"

text \<open>
  A program whose close and connect error callbacks change its own state only, with an invariant
  that no event of the connection's inner working and no closing breaks.
\<close>

locale closing_program =
  fixes u :: "'a user_cb" and I :: "'a \<Rightarrow> bool \<Rightarrow> conn_event list \<Rightarrow> bool"
    and on_close :: "int \<Rightarrow> 'a \<Rightarrow> 'a" and on_error :: "int \<Rightarrow> 'a \<Rightarrow> 'a"
  assumes internal_close: "u_internal_close u w = Inr w"
    and watermark: "u_watermark u level w = Inr w"
    and closing: "u_close u err w = Inr (with_app (on_close err) w)"
    and failing: "u_connect_error u err w = Inr (with_app (on_error err) w)"
    and inert_keeps: "I a c l \<Longrightarrow> inert e \<Longrightarrow> I a c (l @ [e])"
    and leaving_keeps: "I a True l \<Longrightarrow> I a False l"
    and close_keeps: "I a False l \<Longrightarrow> I (on_close err a) False (l @ [Ev_close err])"
begin

lemma base_ok: "user_ok (base u)"
proof -
  have "callback_ok (u_close u err)" "callback_ok (u_connect_error u err)" for err
    by (rule app_callback_ok; simp add: closing failing)+
  moreover have "callback_ok (u_internal_close u)" "callback_ok (u_watermark u l)" for l
    by (simp_all add: callback_ok_def internal_close watermark)
  ultimately show ?thesis by (auto simp: user_ok_def watermark callback_ok_def)
qed

lemma inerts_keep: "I a c l \<Longrightarrow> list_all inert es \<Longrightarrow> I a c (l @ es)"
proof (induction es rule: rev_induct)
  case (snoc e es)
  then show ?case using inert_keeps [of a c "l @ es" e] by simp
qed simp

lemma unnoticed_calm: "unnoticed w w' \<Longrightarrow> calm I w w'"
  using inerts_keep [of "app w" "live w'" "log w"] leaving_keeps [of "app w" "log w"] unnoticed_flows [of w w'] by (cases "live w"; cases "live w'") (auto simp: unnoticed_def calm_def)

lemma call_close_calm: "call_if has (Ev_close err) (u_close u err) w = Inr w' \<Longrightarrow> \<not> live w \<Longrightarrow> calm I w w'"
  using close_keeps [of "app w" "log w" err] flows_trans [OF flows_emit [of "Ev_close err" w] flows_with_app(1) [of _ "on_close err"]]
  by (auto simp: call_if_def closing calm_def split: if_splits)

lemma call_internal_calm: "call_if has Ev_internal_close (u_internal_close u) w = Inr w' \<Longrightarrow> calm I w w'"
  by (auto simp: call_if_def internal_close split: if_splits intro!: unnoticed_calm unnoticed_emit)

lemma call_watermark_calm: "call_if has (Ev_watermark l) (u_watermark u l) w = Inr w' \<Longrightarrow> calm I w w'"
  by (auto simp: call_if_def watermark split: if_splits intro!: unnoticed_calm unnoticed_emit)

lemmas unnoticed_calms = unnoticed_calm [OF unnoticed_emit] unnoticed_calm [OF unnoticed_post]
  unnoticed_fields [THEN unnoticed_calm] close_handle_unnoticed [THEN unnoticed_calm]
  close_timeout_unnoticed [THEN unnoticed_calm]

lemma do_cleanup_calm:
  assumes "do_cleanup u err w = Inr w'"
  shows "calm I w w'"
proof -
  from assms obtain w1 w4 w5 where
    1: "clear_and_remove w = Inr w1" and
    4: "call_if (has_internal_close (close_handle w1)) Ev_internal_close (u_internal_close u)
          ((close_handle w1)\<lparr>c_state := kDisconnected, has_internal_close := False, has_close_func := False\<rparr>) = Inr w4" and
    5: "call_if (has_close_func (close_handle w1)) (Ev_close err) (u_close u err) w4 = Inr w5" and
    6: "(case c_channel w5 of None \<Rightarrow> Inr w5
          | Some ch \<Rightarrow> Inr (post (Task_drop_channel (ch_id ch)) (w5\<lparr>c_channel := None\<rparr>))) = (Inr w' :: 'a cw result)"
    by (simp add: do_cleanup_def andthen_eq_Inr Let_def) blast
  let ?w2 = "(close_handle w1)\<lparr>c_state := kDisconnected\<rparr>"
  have "calm I w ?w2"
    by (rule calm_trans [OF unnoticed_calm [OF clear_and_remove_unnoticed [OF 1]]
          calm_trans [OF unnoticed_calms(10) unnoticed_calms(4)]]) simp
  from calm_trans [OF this calm_trans [OF unnoticed_calms(9) call_internal_calm [OF 4]]]
  have "calm I w w4" .
  moreover have "\<not> live w4" using 4 by (auto simp: call_if_def internal_close split: if_splits)
  ultimately have "calm I w w5" using calm_trans call_close_calm [OF 5] by blast
  moreover have "calm I w5 w'"
    using 6 calm_trans [OF unnoticed_calms(3) unnoticed_calms(2)] by (auto split: option.splits)
  ultimately show ?thesis by (rule calm_trans)
qed

lemma cleanup_calm:
  assumes "cleanup u err w = Inr w'"
  shows "calm I w w'"
proof (cases "cleanup_done w")
  case False
  let ?w1 = "cancel_close_timeout (w\<lparr>cleanup_done := True\<rparr>)"
  let ?w2 = "if c_state ?w1 = kConnected \<and> c_handle ?w1 \<noteq> invalid_socket
             then emit (Ev_sys (Sys_shut_wr (c_handle ?w1))) ?w1 else ?w1"
  have "do_cleanup u err (?w2\<lparr>c_state := kDisconnecting\<rparr>) = Inr w'"
    using assms False unfolding cleanup_def Let_def ensure_eq_Inr by (simp only: if_False simp_thms)
  note D = do_cleanup_calm [OF this]
  have "calm I w ?w1" by (rule calm_trans [OF unnoticed_calms(5) unnoticed_calms(11)])
  moreover have "calm I ?w1 ?w2" using unnoticed_calms(1) by simp
  ultimately show ?thesis using calm_trans [OF _ calm_trans [OF unnoticed_calms(4) D]] calm_trans by blast
qed (use assms in \<open>simp add: cleanup_def ensure_eq_Inr\<close>)

lemma handle_close_event_calm: "handle_close_event u err w = Inr w' \<Longrightarrow> calm I w w'"
  using cleanup_calm [of err w w'] by (simp add: handle_close_event_def split: if_splits)

lemma write_loop_calm: "write_loop fuel u w = Inr (r, w') \<Longrightarrow> calm I w w'"
proof (induction fuel arbitrary: w)
  case (Suc fuel)
  from Suc.prems obtain b where b: "write_buffer w = Some b" by (auto split: option.splits)
  show ?case
  proof (cases "readable_size b > 0")
    case rd: True
    with Suc.prems b obtain xs where xs: "peek b = Inr xs" by (cases "peek b") auto
    obtain n v where s: "sys_send xs w = (n, v)" by fastforce
    note sent = calm_trans [OF unnoticed_calm [OF sys_send_unnoticed [OF s]]]
    have lowered: "calm I v2 w'"
      if "andthen (call_if has (Ev_watermark l) (u_watermark u l) v2)
            (\<lambda>w3. write_loop fuel u (w3\<lparr>high_watermark_warning := False\<rparr>)) = Inr (r, w')" for has l v2
      using that calm_trans [OF calm_trans [OF call_watermark_calm unnoticed_calms(6)] Suc.IH] by (auto simp: andthen_eq_Inr)
    have shrunk: "calm I v w'" if "calm I (v\<lparr>write_buffer := b1\<rparr>) w'" for b1
      by (rule calm_trans [OF unnoticed_calms(7) that])
    have "calm I v w'"
    proof (cases "case n of None \<Rightarrow> False | Some n \<Rightarrow> n > 0")
      case True
      with Suc.prems b rd xs s show ?thesis
        by (auto simp: andthen_eq_Inr [of "been_read _ _"] Let_def split: if_splits intro: shrunk lowered Suc.IH)
    next
      case False
      with Suc.prems b rd xs s show ?thesis using Suc.IH [of v] handle_close_event_calm [of "errno v" v w']
        by (auto simp: andthen_eq_Inr split: error_action.splits)
    qed
    then show ?thesis by (rule sent)
  qed (use Suc.prems b in simp)
qed simp

lemma handle_write_event_calm:
  assumes "handle_write_event u w = Inr w'"
  shows "calm I w w'"
proof -
  from assms obtain r w1 where 1: "write_loop (Suc (length (sends w))) u w = Inr (r, w1)" and
    2: "(if r then Inr w1 else case write_buffer w1 of None \<Rightarrow> Inl Null_deref
        | Some b \<Rightarrow>
            if readable_size b = 0 then
              andthen (on_channel (remove_write_event update_channel) (w1\<lparr>write_buffer := Some (clear b)\<rparr>)) (\<lambda>w2.
                if c_state w2 = kDisconnecting
                then Inr (emit (Ev_sys (Sys_shut_wr (c_handle w2))) w2) else Inr w2)
            else Inr w1) = Inr w'"
    unfolding handle_write_event_def ensure_eq_Inr andthen_eq_Inr by auto
  have "calm I w1 w2" if "on_channel f (w1\<lparr>write_buffer := b\<rparr>) = Inr w2" for b f w2
    by (rule calm_trans [OF unnoticed_calms(7) unnoticed_calm [OF on_channel_unnoticed [OF that]]])
  moreover from this have "calm I w1 (emit (Ev_sys e) w2)" if "on_channel f (w1\<lparr>write_buffer := b\<rparr>) = Inr w2" for b f w2 e
    using that calm_trans [OF _ unnoticed_calms(1)] by auto
  ultimately have "calm I w1 w'" using 2 by (auto simp: andthen_eq_Inr split: if_splits option.splits)
  with write_loop_calm [OF 1] show ?thesis by (rule calm_trans)
qed

lemma check_high_watermark_calm:
  assumes "check_high_watermark u w = Inr w'"
  shows "calm I w w'"
  using assms calm_trans [OF call_watermark_calm unnoticed_calms(6)]
  by (auto simp: check_high_watermark_def andthen_eq_Inr split: option.splits if_splits)

lemma send_in_poll_thread_calm:
  assumes sent: "send_in_poll_thread u data w = Inr w'"
    and w: "c_state w = kConnected" "c_channel w \<noteq> None" "write_buffer w \<noteq> None"
  shows "calm I (emit (Ev_queued data) w) w'"
proof -
  from w obtain b where b: "write_buffer w = Some b" by auto
  let ?w0 = "emit (Ev_queued data) w"
  have queued: "calm I v w'" if "andthen (queue_output xs v) (check_high_watermark u) = Inr w'" for xs v
    using that calm_trans [OF unnoticed_calm [OF queue_output_unnoticed] check_high_watermark_calm]
    by (auto simp: andthen_eq_Inr)
  show ?thesis
  proof (cases "readable_size b > 0")
    case True
    with sent w b show ?thesis by (auto simp: send_in_poll_thread_def ensure_eq_Inr Let_def intro: queued)
  next
    case False
    obtain r w1 where dw: "direct_write data (min (length data) kDirectWriteBudget) 0 ?w0 = (r, w1)" by fastforce
    have "calm I w1 w'" using sent w b False dw queued check_high_watermark_calm [of w1 w'] handle_close_event_calm [of _ w1 w']
      by (auto simp: send_in_poll_thread_def ensure_eq_Inr Let_def split: sum.splits if_splits)
    then show ?thesis by (rule calm_trans [OF unnoticed_calm [OF direct_write_unnoticed [OF dw]]])
  qed
qed

text \<open>So a callback that sends on a live connection keeps the invariant if it allows for the new output.\<close>

lemma send_keeps:
  assumes inv: "conn_inv w" and st: "c_state w = kConnected" and room: "has_room data w"
    and I: "data = [] \<Longrightarrow> I (app w) (live w) (log w)" "data \<noteq> [] \<Longrightarrow> I (app w) (live w) (log w @ [Ev_queued data])"
  shows "\<exists>w'. send u (Some data) w = Inr w' \<and> conn_inv w' \<and> follows w w' \<and> I (app w') (live w') (log w') \<and>
           read_buffer w' = read_buffer w \<and> queued_work w' = queued_work w \<and> has_message_func w' = has_message_func w \<and> flows w w'"
proof (cases "data = []")
  case True
  then show ?thesis using inv I(1) by (simp add: send_def)
next
  case False
  from inv have io: "in_poll w" by (simp add: conn_inv_def conn_wf_def)
  from send_in_poll_thread_ok [OF base_ok inv False] room obtain w' where
    w': "send_in_poll_thread (base u) data w = Inr w'" "conn_inv w'" "follows w w'" by (auto simp: has_room_def)
  then have s: "send u (Some data) w = Inr w'" using False st io
    by (simp add: send_base [OF same_cleanup_base, of u] send_def)
  have "send_in_poll_thread u data w = Inr w'" using s False st io by (simp add: send_def)
  moreover from open_channelI [OF conn_invD(1) [OF inv]] st have "c_channel w \<noteq> None" "write_buffer w \<noteq> None"
    by (auto simp: open_channel_def)
  ultimately have "calm I (emit (Ev_queued data) w) w'" by (intro send_in_poll_thread_calm st)
  then show ?thesis using s w'(2,3) I(2) [OF False] flows_trans [OF flows_emit [of "Ev_queued data" w]] by (auto simp: calm_def)
qed

lemma shutdown_keeps:
  assumes inv: "conn_inv w" and I: "I (app w) (live w) (log w)"
  shows "\<exists>w'. shutdown w = Inr w' \<and> conn_inv w' \<and> follows w w' \<and> I (app w') (live w') (log w') \<and>
           read_buffer w' = read_buffer w \<and> queued_work w' = queued_work w \<and> has_message_func w' = has_message_func w \<and>
           c_state w' \<noteq> kConnected \<and> flows w w'"
proof -
  from inv have io: "in_poll w" by (simp add: conn_inv_def conn_wf_def)
  from shutdown_in_poll_ok [OF inv] obtain w' where
    w': "shutdown_in_poll w = Inr w'" "conn_inv w'" "follows w w'"
        "c_state w \<in> {kConnecting, kConnected} \<longrightarrow> c_state w' = kDisconnecting" by blast
  have "c_state w' \<noteq> kConnected"
    using w'(3,4) by (cases "c_state w") (auto simp: follows_def)
  with w' unnoticed_calm [OF shutdown_in_poll_unnoticed [OF w'(1)]] I shutdown_in_thread [OF io] show ?thesis
    by (auto simp: calm_def)
qed

text \<open>
  The two shapes of a message callback: sending and then taking the message out of the buffer, and
  the other way round, with a shutdown at the end.
\<close>

lemma send_consume:
  assumes inv: "conn_inv w" and st: "c_state w = kConnected" and room: "has_room data w" and b: "read_buffer w \<noteq> None"
    and I: "data = [] \<Longrightarrow> I (app w) (live w) (log w)" "data \<noteq> [] \<Longrightarrow> I (app w) (live w) (log w @ [Ev_queued data])"
  shows "\<exists>w'. andthen (send u (Some data) w) consume = Inr w' \<and> answered I w w'"
proof -
  from send_keeps [OF inv st room I] obtain w1 where
    1: "send u (Some data) w = Inr w1" "conn_inv w1" "follows w w1" "I (app w1) (live w1) (log w1)" "read_buffer w1 = read_buffer w"
       "queued_work w1 = queued_work w" "has_message_func w1 = has_message_func w" "flows w w1" by auto
  with b obtain b1 where "read_buffer w1 = Some b1" by auto
  from consume_ok [OF 1(2) this] obtain b' where
    "consume w1 = Inr (w1\<lparr>read_buffer := Some b'\<rparr>)" "contents b' = []" "conn_inv (w1\<lparr>read_buffer := Some b'\<rparr>)"
    "follows w1 (w1\<lparr>read_buffer := Some b'\<rparr>)" by blast
  with 1 follows_trans [OF 1(3)] flows_trans [OF 1(8)] show ?thesis by (auto simp: answered_def)
qed

lemma shifted_program:
  assumes "\<And>err a. k (on_close err a) = on_close err (k a)"
  shows "closing_program u (\<lambda>a. I (k a)) on_close on_error"
  by unfold_locales (simp_all add: internal_close watermark closing failing inert_keeps leaving_keeps close_keeps assms)

lemma leaving_program: "closing_program u (\<lambda>a c. I a False) on_close on_error"
  by unfold_locales (simp_all add: internal_close watermark closing failing inert_keeps close_keeps)

lemma consume_send_shutdown:
  assumes inv: "conn_inv w" and st: "c_state w = kConnected" and room: "has_room data w" and b: "read_buffer w \<noteq> None"
    and I: "data = [] \<Longrightarrow> I (app w) False (log w)" "data \<noteq> [] \<Longrightarrow> I (app w) False (log w @ [Ev_queued data])"
  shows "\<exists>w'. andthen (consume w) (\<lambda>w1. andthen (send u (Some data) w1) shutdown) = Inr w' \<and> answered I w w' \<and>
           c_state w' \<noteq> kConnected"
proof -
  from b obtain b1 where "read_buffer w = Some b1" by auto
  from consume_ok [OF inv this] obtain b' where
    1: "consume w = Inr (w\<lparr>read_buffer := Some b'\<rparr>)" "contents b' = []" "conn_inv (w\<lparr>read_buffer := Some b'\<rparr>)"
       "follows w (w\<lparr>read_buffer := Some b'\<rparr>)" by blast
  let ?w1 = "w\<lparr>read_buffer := Some b'\<rparr>"
  have "c_state ?w1 = kConnected" "has_room data ?w1" "data = [] \<Longrightarrow> I (app ?w1) False (log ?w1)"
    "data \<noteq> [] \<Longrightarrow> I (app ?w1) False (log ?w1 @ [Ev_queued data])" using st room I by (simp_all add: has_room_def)
  from closing_program.send_keeps [OF leaving_program 1(3) this] obtain w2 where
    2: "send u (Some data) ?w1 = Inr w2" "conn_inv w2" "follows ?w1 w2" "I (app w2) False (log w2)" "read_buffer w2 = Some b'"
       "queued_work w2 = queued_work w" "has_message_func w2 = has_message_func w" "flows ?w1 w2" by auto
  from closing_program.shutdown_keeps [OF leaving_program 2(2,4)] obtain w3 where
    3: "shutdown w2 = Inr w3" "conn_inv w3" "follows w2 w3" "I (app w3) False (log w3)" "read_buffer w3 = read_buffer w2"
       "queued_work w3 = queued_work w2" "has_message_func w3 = has_message_func w2" "c_state w3 \<noteq> kConnected" "flows w2 w3" by auto
  have "answered I w w3"
    using 1 2 3 follows_trans [OF 1(4) follows_trans [OF 2(3) 3(3)]] flows_trans [OF flows_with_app(2) flows_trans [OF 2(8) 3(9)]]
    by (simp add: answered_def in_cells_def)
  with 1(1) 2(1) 3(1,8) show ?thesis by auto
qed

end

section \<open>A peer that stops sending\<close>

lemma closing_user_ok: "user_ok (closing_user_cb f g)"
proof -
  have P: "closing_program (closing_user_cb f g) (\<lambda>_ _ _. True) f g" by unfold_locales simp_all
  have "base (closing_user_cb f g) = closing_user_cb f g"
    by (rule user_cb.equality) (simp_all add: fun_eq_iff)
  with closing_program.base_ok [OF P] show ?thesis by simp
qed

text \<open>Closing leaves the streams as they are.\<close>

lemma close_event_streams:
  assumes inv: "conn_inv w" and st: "c_state w \<noteq> kDisconnected"
  shows "\<exists>w'. handle_close_event (closing_user_cb f g) err w = Inr w' \<and> c_state w' = kDisconnected \<and>
           c_handle w' = invalid_socket \<and> sent_cells w' = sent_cells w \<and> owed_cells w' = owed_cells w"
proof -
  let ?u = "closing_user_cb f g" and ?i = "has_internal_close w" and ?c = "has_close_func w"
  have first: "\<not> cleanup_done w"
    using inv st by (auto simp: conn_inv_def conn_wf_def chan_inv_def open_channel_def split: option.splits)
  from cleanup_release [OF conn_invD(1) [OF inv] first, of ?u err] obtain w1 where
    1: "cleanup ?u err w = finish_cleanup ?u err ?i ?c w1" "released w w1" by blast
  from finish_cleanup_ok [OF closing_user_ok released_inv(1) [OF conn_invD [OF inv] 1(2)], of f g err ?i ?c] 1(2) obtain w' where
    2: "finish_cleanup ?u err ?i ?c w1 = Inr w'" "follows w1 w'" "c_state w' = kDisconnected" by (auto simp: released_def)
  have h: "c_handle w' = invalid_socket" using followsD(4) [OF 2(2,3)] 1(2) by (simp add: released_def)
  have "log w' = log w1 @ (if ?i then [Ev_internal_close] else []) @ (if ?c then [Ev_close err] else [])"
    using 2(1) by (auto simp: finish_cleanup_def call_if_def post_def emit_def with_app_def split: if_splits option.splits)
  moreover have "log w1 = log w @ (if c_state w = kConnected \<and> c_handle w \<noteq> invalid_socket then [Ev_sys (Sys_shut_wr (c_handle w))] else []) @
      (if c_handle w \<noteq> invalid_socket then [Ev_sys (Sys_close (c_handle w))] else [])" using 1(2) by (simp add: released_def)
  ultimately have "\<exists>es. log w' = log w @ es \<and> list_all neutral es" by simp
  then have "sent_cells w' = sent_cells w" "owed_cells w' = owed_cells w"
    by (auto simp: sent_cells_def owed_cells_def stream_neutral)
  with 1(1) 2 h st show ?thesis by (simp add: handle_close_event_def)
qed

lemma read_event_silent:
  assumes inv: "conn_inv w" and up: "is_up w" and none: "fst (arriving (recvs w)) = [] \<or> c_state w = kDisconnecting"
  shows "\<exists>w'. handle_read_event (closing_user_cb f g) w = Inr w' \<and> sent_cells w' = sent_cells w \<and> owed_cells w' = owed_cells w \<and>
     (c_state w' = kDisconnected \<and> c_handle w' = invalid_socket \<or> conn_inv w' \<and> c_state w' \<noteq> kDisconnected)"
proof (cases "c_state w = kConnected")
  case False
  then have "handle_read_event (closing_user_cb f g) w = Inr w" by (simp add: handle_read_event_def read_loop.simps)
  then show ?thesis using inv up by (auto simp: is_up_def)
next
  case True
  from read_loop_ok [OF inv True, of False] none True obtain w1 where
    1: "read_loop False w = Inr (snd (arriving (recvs w)), False, w1)" "received w (recvs w) w1" by auto
  then have s: "sent_cells w1 = sent_cells w" "owed_cells w1 = owed_cells w" "conn_inv w1" "c_state w1 = kConnected"
    using True by (auto simp: received_def sent_cells_def owed_cells_def)
  have eq: "handle_read_event (closing_user_cb f g) w =
      (case snd (arriving (recvs w)) of Rd_close err \<Rightarrow> handle_close_event (closing_user_cb f g) err w1 | _ \<Rightarrow> Inr w1)"
    using 1(1) by (simp add: handle_read_event_def call_if_def)
  show ?thesis
  proof (cases "snd (arriving (recvs w))")
    case (Rd_close err)
    with eq s close_event_streams [of w1 f g err] show ?thesis by auto
  qed (use eq s in auto)
qed

text \<open>
  C26. A peer that shuts its sending side loses what was still to be sent to it. epoll reports the
  end of the peer's stream as \<open>EPOLLRDHUP\<close>, which is taken for a hang-up: the connection, although its
  own sending side is open and output waits to be written (after a graceful shutdown, for one),
  is closed on the spot, and the waiting output never reaches the socket.
\<close>

theorem half_close_discards_output:
  assumes inv: "conn_inv w" and up: "is_up w" and out: "out_cells w \<noteq> []"
    and none: "fst (arriving (recvs w)) = [] \<or> c_state w = kDisconnecting"
  shows "\<exists>w'. on_event (closing_user_cb f g) (from_epoll_events (EPOLLIN OR EPOLLRDHUP)) err w = Inr w' \<and>
     c_state w' = kDisconnected \<and> c_handle w' = invalid_socket \<and>
     sent_cells w' = sent_cells w \<and> sent_cells w' @ out_cells w = owed_cells w' \<and> sent_cells w' \<noteq> owed_cells w'"
proof -
  let ?u = "closing_user_cb f g"
  from up obtain ch where ch: "c_channel w = Some ch" "established ch" by (auto simp: is_up_def)
  have ev: "from_epoll_events (EPOLLIN OR EPOLLRDHUP) = kRead OR kHup"
    by (simp add: from_epoll_events_def epoll_flags event_flags)
  have eq: "on_event ?u (kRead OR kHup) err w = run_dispatches ?u [Call Fn_read_event, Call_err Fn_close_event 0] w"
    using ch by (simp add: on_event_def handle_event_def dispatch_event_def established_def calls_of_def event_flags)
  from read_event_silent [OF inv up none, of f g] obtain w1 where
    1: "handle_read_event ?u w = Inr w1" "sent_cells w1 = sent_cells w" "owed_cells w1 = owed_cells w"
       "c_state w1 = kDisconnected \<and> c_handle w1 = invalid_socket \<or> conn_inv w1 \<and> c_state w1 \<noteq> kDisconnected" by blast
  have "\<exists>w'. handle_close_event ?u 0 w1 = Inr w' \<and> c_state w' = kDisconnected \<and> c_handle w' = invalid_socket \<and>
      sent_cells w' = sent_cells w1 \<and> owed_cells w' = owed_cells w1"
  proof (cases "c_state w1 = kDisconnected")
    case True
    with 1(4) show ?thesis by (simp add: handle_close_event_def)
  next
    case False
    with 1(4) close_event_streams [of w1 f g 0] show ?thesis by simp
  qed
  moreover have "sent_cells w @ out_cells w = owed_cells w" using inv up by (simp add: conn_inv_def stream_inv_def)
  ultimately show ?thesis using eq ev 1(1-3) out by auto
qed

theorem half_close_discards_output_witness:
  "\<exists>w'. on_event (closing_user_cb (\<lambda>_ s. s) (\<lambda>_ s. s)) (from_epoll_events (EPOLLIN OR EPOLLRDHUP)) 0
      (busy_cw\<lparr>c_state := kDisconnecting\<rparr>) = Inr w' \<and> c_state w' = kDisconnected \<and> sent_cells w' \<noteq> owed_cells w'"
proof -
  let ?w = "busy_cw\<lparr>c_state := kDisconnecting\<rparr>"
  have "conn_inv ?w" using to_disconnecting(1) [OF busy_cw_inv(1)] busy_cw_inv(4) by simp
  moreover have "is_up ?w" "out_cells ?w \<noteq> []" using busy_cw_inv(3,5) by (simp_all add: is_up_def out_cells_def)
  ultimately show ?thesis using half_close_discards_output [of ?w "\<lambda>_ s. s" "\<lambda>_ s. s" 0] by auto
qed

end
