(* ===== verification/Conn_Serve.thy ===== *)
theory Conn_Serve
  imports Conn_App
begin

text \<open>
  Programs that answer messages. The locale \<open>message_program\<close> states what the message callback of a
  program keeps of its invariant; in it, the invariant holds in every state the connection can get
  into.
\<close>

section \<open>The life of a served connection\<close>

text \<open>Output held in memory stays far below what the size arithmetic of a buffer allows.\<close>

definition roomy :: "'a cw \<Rightarrow> bool" where
  "roomy w \<longleftrightarrow> length (out_cells w) \<le> 2 ^ 59"

definition kept :: "('a \<Rightarrow> bool \<Rightarrow> conn_event list \<Rightarrow> bool) \<Rightarrow> 'a cw \<Rightarrow> bool" where
  "kept I w \<longleftrightarrow> queued_work w = [] \<and> has_message_func w \<and> in_cells w = [] \<and> I (app w) (live w) (log w)"

definition session :: "('a \<Rightarrow> bool \<Rightarrow> conn_event list \<Rightarrow> bool) \<Rightarrow> 'a cw \<Rightarrow> bool" where
  "session I w \<longleftrightarrow> conn_inv w \<and> settled w \<and> (is_up w \<or> c_state w = kDisconnected) \<and> kept I w"

text \<open>
  What a connection that only its own program uses does: events, posted tasks, the close timer, being
  shut down or closed from whatever thread, and changes of the program's state made elsewhere (by
  its other connections and threads), which \<open>E\<close> describes. Bytes are sent by the callbacks only.
  Besides, the kernel changes what it has to offer.
\<close>

inductive own_step :: "'a user_cb \<Rightarrow> ('a \<Rightarrow> 'a \<Rightarrow> bool) \<Rightarrow> 'a cw \<Rightarrow> 'a cw result \<Rightarrow> bool" for u E where
  event: "reported ev w \<Longrightarrow> roomy w \<Longrightarrow> own_step u E w (on_event u ev err w)"
| stale: "established ch \<Longrightarrow> dispatchable ev w \<Longrightarrow> roomy w \<Longrightarrow> own_step u E w (on_stale_event u ch ev err w)"
| task: "tasks w = t # ts \<Longrightarrow> own_step u E w (run_conn_task u t (w\<lparr>tasks := ts\<rparr>))"
| control: "c = Call_shutdown \<or> c = Call_close \<Longrightarrow> own_step u E w (run_call u c w)"
| remote: "c = Call_shutdown \<or> c = Call_close \<Longrightarrow> own_step u E w (on_other_thread (run_call u c) w)"
| timer: "own_step u E w (on_other_thread (run_conn_task u Task_close_timeout) w)"
| elsewhere: "E (app w) a \<Longrightarrow> own_step u E w (Inr (with_app (\<lambda>_. a) w))"

definition kernel_offers :: "recv_answer list \<Rightarrow> send_answer list \<Rightarrow> int \<Rightarrow> int \<times> int \<Rightarrow> time \<Rightarrow> 'a cw \<Rightarrow> 'a cw" where
  "kernel_offers rs ss e a t w = w\<lparr>recvs := rs, sends := ss, errno := e, so_answer := a, now := t\<rparr>"

inductive serve_step :: "'a user_cb \<Rightarrow> ('a \<Rightarrow> 'a \<Rightarrow> bool) \<Rightarrow> 'a cw \<Rightarrow> 'a cw result \<Rightarrow> bool" for u E where
  own: "own_step u E w r \<Longrightarrow> serve_step u E w r"
| kernel: "length (in_cells w) + incoming rs \<le> 2 ^ 59 \<Longrightarrow> serve_step u E w (Inr (kernel_offers rs ss e a t w))"

inductive serve_reachable :: "'a user_cb \<Rightarrow> ('a \<Rightarrow> 'a \<Rightarrow> bool) \<Rightarrow> 'a cw \<Rightarrow> 'a cw \<Rightarrow> bool" for u E w0 where
  initially: "serve_reachable u E w0 w0"
| further: "serve_reachable u E w0 w \<Longrightarrow> serve_step u E w (Inr w') \<Longrightarrow> serve_reachable u E w0 w'"

text \<open>
  What the program has heard and the bytes still to be received are the same stream before and
  after, and what was handed to the socket stays so.
\<close>

definition given :: "'a cw \<Rightarrow> cell list" where
  "given w = heard (log w) @ map Some (recv_bytes (recvs w))"

definition conserved :: "'a cw \<Rightarrow> 'a cw \<Rightarrow> bool" where
  "conserved w w' \<longleftrightarrow> given w' = given w \<and> prefix (sent_cells w) (sent_cells w')"

lemma conserved_refl [simp]: "conserved w w"
  by (simp add: conserved_def)

lemma conserved_trans: "conserved w v \<Longrightarrow> conserved v x \<Longrightarrow> conserved w x"
  by (auto simp: conserved_def intro: prefix_order.trans)

lemma flows_conserved: "flows w w' \<Longrightarrow> conserved w w'"
  by (simp add: flows_def conserved_def given_def heard_def)

lemma conserved_flows: "conserved w v \<Longrightarrow> flows v x \<Longrightarrow> conserved w x"
  using conserved_trans flows_conserved by blast

lemma follows_up:
  assumes "follows w w'" and "is_up w \<or> c_state w = kDisconnected"
  shows "is_up w' \<or> c_state w' = kDisconnected"
  using assms followsD(3,5) [of w w'] by auto

lemma session_with_app:
  assumes "session I w" and "I (f (app w)) (live w) (log w)"
  shows "session I (with_app f w)"
  using assms alike_inv(2) [OF alike_with_app [of w f]] alike_cells(5,6) [OF alike_with_app [of w f]]
  by (simp add: session_def kept_def)

locale message_program = closing_program +
  fixes E :: "'a \<Rightarrow> 'a \<Rightarrow> bool"
  assumes elsewhere_keeps: "I a c l \<Longrightarrow> E a a' \<Longrightarrow> I a' c l"
    and message: "\<lbrakk>conn_inv w; c_state w = kConnected; roomy w; queued_work w = []; has_message_func w;
      in_cells w = map Some xs; xs \<noteq> []; length xs \<le> 2 ^ 59; log w = l @ [Ev_message (map Some xs)]; I (app w) True l\<rbrakk> \<Longrightarrow>
      \<exists>w'. u_message u w = Inr w' \<and> answered I w w'"
begin

lemma calm_kept: "calm I w w' \<Longrightarrow> kept I w \<Longrightarrow> kept I w'"
  by (auto simp: calm_def kept_def in_cells_def)

lemma calm_flows: "calm I w w' \<Longrightarrow> flows w w'"
  by (simp add: calm_def)

lemma close_event_kept:
  assumes "conn_inv w" and "kept I w"
  shows "\<exists>w'. handle_close_event u err w = Inr w' \<and> conn_inv w' \<and> follows w w' \<and> kept I w' \<and> flows w w'"
proof -
  from handle_close_event_ok [OF base_ok conn_invD [OF assms(1)], of err] obtain w' where
    w': "handle_close_event (base u) err w = Inr w'" "conn_inv w'" "follows w w'" "c_state w' = kDisconnected" by blast
  then have "handle_close_event u err w = Inr w'"
    using handle_close_event_base [OF same_cleanup_base, of u] by simp
  with w' calm_kept [OF handle_close_event_calm] calm_flows [OF handle_close_event_calm] assms(2) show ?thesis by auto
qed

lemma read_event_kept:
  assumes inv: "conn_inv w" and k: "kept I w" and room: "roomy w"
  shows "\<exists>w'. handle_read_event u w = Inr w' \<and> conn_inv w' \<and> follows w w' \<and> kept I w' \<and> conserved w w'"
proof (cases "c_state w = kConnected")
  case False
  then have "read_loop False w = Inr (Rd_return, False, w)" by (simp add: read_loop.simps)
  then show ?thesis using inv k by (auto simp: handle_read_event_def)
next
  case st: True
  let ?xs = "fst (arriving (recvs w))" and ?exit = "snd (arriving (recvs w))"
  from read_loop_ok [OF inv st, of False] obtain w1 where
    1: "read_loop False w = Inr (?exit, ?xs \<noteq> [], w1)" "received w (recvs w) w1" by auto
  from 1(2) obtain b rs e where w1: "w1 = w\<lparr>read_buffer := Some b, recvs := rs, errno := e\<rparr>" by (auto simp: received_def)
  have i1: "conn_inv w1" "in_cells w1 = map Some ?xs" using 1(2) k st by (auto simp: received_def kept_def)
  have f1: "app w1 = app w" "log w1 = log w" "c_state w1 = kConnected" "roomy w1" "queued_work w1 = []" "has_message_func w1"
    using w1 st k room by (simp_all add: roomy_def out_cells_def queued_work_def kept_def)
  have "\<exists>w2. call_if (?xs \<noteq> [] \<and> has_message_func w1) (Ev_message (in_cells w1)) (u_message u) w1 = Inr w2 \<and>
      conn_inv w2 \<and> follows w1 w2 \<and> kept I w2 \<and> conserved w w2"
  proof (cases "?xs = []")
    case True
    then have "conserved w w1" using f1(2) 1(2) by (simp add: conserved_def given_def received_def sent_cells_def)
    with True show ?thesis using i1 f1 k st by (simp add: call_if_def kept_def)
  next
    case False
    let ?v = "emit (Ev_message (map Some ?xs)) w1"
    have n: "neutral (Ev_message (map Some ?xs))" by simp
    note A = alike_inv [OF alike_emit [OF n, of w1]]
    have "length ?xs \<le> 2 ^ 59"
      using i1 by (simp add: conn_inv_def conn_wf_def bufs_ok_def)
    moreover have "in_cells ?v = map Some ?xs" "roomy ?v" using i1(2) f1(4) by (simp_all add: in_cells_def roomy_def out_cells_def)
    ultimately have "\<exists>w'. u_message u ?v = Inr w' \<and> answered I ?v w'"
      using message [of ?v ?xs "log w1"] False A(2) i1 f1 k st by (simp add: kept_def)
    moreover have "sent_cells ?v = sent_cells w" using f1(2) cells_emit(1) [OF n, of w1] by (simp add: sent_cells_def)
    then have "conserved w ?v" using f1(2) 1(2) by (simp add: conserved_def given_def received_def heard_def)
    ultimately show ?thesis using False f1(5,6) i1(2) follows_trans [OF A(3)] conserved_flows
      by (fastforce simp: call_if_def kept_def answered_def)
  qed
  then obtain w2 where 2: "call_if (?xs \<noteq> [] \<and> has_message_func w1) (Ev_message (in_cells w1)) (u_message u) w1 = Inr w2"
    "conn_inv w2" "follows w1 w2" "kept I w2" "conserved w w2" by blast
  have eq: "handle_read_event u w = (case ?exit of Rd_close err \<Rightarrow> handle_close_event u err w2 | _ \<Rightarrow> Inr w2)"
    using 1(1) 2(1) by (simp add: handle_read_event_def)
  note F = follows_trans [OF received_follows [OF 1(2)] 2(3)]
  show ?thesis
  proof (cases ?exit)
    case (Rd_close err)
    with eq close_event_kept [OF 2(2,4), of err] follows_trans [OF F] conserved_flows [OF 2(5)] show ?thesis by auto
  qed (use eq F 2 in auto)
qed

lemma cleanup_kept:
  assumes "conn_inv w" and "kept I w"
  shows "\<exists>w'. cleanup u err w = Inr w' \<and> conn_inv w' \<and> follows w w' \<and> kept I w' \<and> conserved w w'"
proof -
  from cleanup_ok [OF base_ok conn_invD [OF assms(1)], of err] obtain w' where
    w': "cleanup (base u) err w = Inr w'" "conn_inv w'" "follows w w'" "c_state w' = kDisconnected" by blast
  then have "cleanup u err w = Inr w'" using cleanup_base [OF same_cleanup_base, of u] by simp
  with w' calm_kept [OF cleanup_calm] flows_conserved [OF calm_flows [OF cleanup_calm]] assms(2) show ?thesis by auto
qed

lemma shutdown_kept:
  assumes "conn_inv w" and "kept I w"
  shows "\<exists>w'. shutdown w = Inr w' \<and> conn_inv w' \<and> follows w w' \<and> kept I w' \<and> conserved w w'"
proof -
  from assms(2) have "I (app w) (live w) (log w)" by (simp add: kept_def)
  from shutdown_keeps [OF assms(1) this] assms(2) show ?thesis by (auto simp: kept_def in_cells_def flows_conserved)
qed

lemma sessionI: "session I w \<Longrightarrow> conn_inv w' \<Longrightarrow> follows w w' \<Longrightarrow> kept I w' \<Longrightarrow> session I w'"
  using followsD(9) [of w w'] follows_up [of w w'] by (auto simp: session_def)

lemma write_event_kept:
  assumes "conn_inv w" and "kept I w" and "writable w"
  shows "\<exists>w'. handle_write_event u w = Inr w' \<and> session I w' \<and> conserved w w'"
proof -
  from handle_write_event_ok [OF base_ok assms(1,3)] obtain w' where
    w': "handle_write_event (base u) w = Inr w'" "conn_inv w'" "settled w'" "is_up w' \<or> c_state w' = kDisconnected" by blast
  then have eq: "handle_write_event u w = Inr w'" using handle_write_event_base [OF same_cleanup_base, of u] by simp
  with w' calm_kept [OF handle_write_event_calm [OF eq] assms(2)] flows_conserved [OF calm_flows [OF handle_write_event_calm [OF eq]]]
  show ?thesis by (simp add: session_def)
qed

lemma dispatch_kept:
  assumes s: "session I w" and room: "roomy w" and ch: "established ch" and d: "dispatchable (ch_result ch) w"
  shows "\<exists>w'. run_dispatches u (dispatch_event ch err) w = Inr w' \<and> session I w' \<and> conserved w w'"
proof -
  define rd where "rd = (if ch_result ch AND kRead \<noteq> 0 then calls_of (Some Fn_read_event) else [])"
  from s have inv: "conn_inv w" "kept I w" by (simp_all add: session_def)
  from read_event_kept [OF inv room] inv obtain w1 where
    1: "run_dispatches u rd w = Inr w1" "conn_inv w1" "follows w w1" "kept I w1" "conserved w w1"
    by (cases "ch_result ch AND kRead = 0") (auto simp: rd_def calls_of_def)
  note s1 = sessionI [OF s 1(2-4)] and roles = ch [unfolded established_def]
  show ?thesis
  proof (cases "ch_result ch AND (kError OR kHup) = 0")
    case False
    let ?e = "if ch_result ch AND kError \<noteq> 0 then err else 0"
    have "dispatch_event ch err = rd @ [Call_err Fn_close_event ?e]"
      using False roles by (simp add: dispatch_event_def rd_def)
    with 1(1) close_event_kept [OF 1(2,4), of ?e] sessionI [OF s1] conserved_flows [OF 1(5)] show ?thesis
      by (auto simp: run_dispatches_append)
  next
    case True
    then have eq: "dispatch_event ch err = rd @ (if ch_result ch AND kWrite \<noteq> 0 then [Call Fn_write_event] else [])"
      using roles by (simp add: dispatch_event_def rd_def calls_of_def)
    have "writable w1" if "ch_result ch AND kWrite \<noteq> 0"
      using d that 1(3) by (auto simp: dispatchable_def writable_def follows_def is_up_def)
    with eq 1(1,5) s1 write_event_kept [OF 1(2,4)] conserved_trans [OF 1(5)] show ?thesis by (auto simp: run_dispatches_append)
  qed
qed

lemma on_event_kept:
  assumes s: "session I w" and room: "roomy w" and ev: "reported ev w"
  shows "\<exists>w'. on_event u ev err w = Inr w' \<and> session I w' \<and> conserved w w'"
proof (cases "c_channel w")
  case (Some ch)
  let ?ch = "ch\<lparr>ch_result := ev\<rparr>"
  have reg: "ch_registered ch" "ev AND kWrite \<noteq> 0 \<Longrightarrow> writing ch" using ev Some by (simp_all add: reported_def)
  with s Some have up: "is_up w"
    by (auto simp: session_def conn_inv_def conn_wf_def chan_inv_def split: if_splits)
  with Some have "established ?ch" by (simp add: is_up_def established_def)
  moreover have "dispatchable (ch_result ?ch) w"
    using reg(2) s up Some by (auto simp: dispatchable_def session_def settled_def)
  ultimately show ?thesis using dispatch_kept [OF s room] Some by (simp add: on_event_def handle_event_def)
qed (use s in \<open>simp add: on_event_def\<close>)

lemma task_kept:
  assumes s: "session I w" and t: "tasks w = t # ts"
  shows "\<exists>w'. run_conn_task u t (w\<lparr>tasks := ts\<rparr>) = Inr w' \<and> session I w' \<and> conserved w w'"
proof -
  let ?v = "w\<lparr>tasks := ts\<rparr>"
  have w: "conn_inv w" "kept I w" using s by (simp_all add: session_def)
  note A = alike_inv [OF alike_tasks [of w ts]]
  have v: "conn_inv ?v" "kept I ?v" using A w t by (auto simp: kept_def queued_work_def in_cells_def split: if_splits)
  have sv: "session I ?v" by (rule sessionI [OF s v(1) A(3) v(2)])
  have "conserved w ?v" by (simp add: conserved_def given_def sent_cells_def)
  note C = this conserved_trans [OF this]
  have io: "in_poll ?v" using v(1) by (simp add: conn_inv_def conn_wf_def)
  have "\<not> is_work t" using w(2) t by (auto simp: kept_def queued_work_def split: if_splits)
  moreover have "\<exists>w'. cleanup u err ?v = Inr w' \<and> session I w' \<and> conserved w w'" for err
    using cleanup_kept [OF v, of err] sessionI [OF sv] C(2) by blast
  moreover have "\<exists>w'. shutdown_in_poll ?v = Inr w' \<and> session I w' \<and> conserved w w'"
    using shutdown_kept [OF v] sessionI [OF sv] C(2) shutdown_in_thread [OF io] by force
  ultimately show ?thesis using io sv C(1) by (cases t) simp_all
qed

lemma session_own_step:
  assumes s: "session I w" and "own_step u E w r"
  shows "\<exists>w'. r = Inr w' \<and> session I w' \<and> conserved w w'"
  using assms(2)
proof cases
  case (event ev err)
  then show ?thesis using on_event_kept [OF s] by simp
next
  case (stale ch ev err)
  then show ?thesis using dispatch_kept [OF s, of "ch\<lparr>ch_result := ev\<rparr>"]
    by (simp add: on_stale_event_def handle_event_def established_def)
next
  case (task t ts)
  then show ?thesis using task_kept [OF s] by simp
next
  case (control c)
  have w: "conn_inv w" "kept I w" using s by (simp_all add: session_def)
  then have "\<exists>w'. close u w = Inr w' \<and> conn_inv w' \<and> follows w w' \<and> kept I w' \<and> conserved w w'"
    using cleanup_kept [OF w, of 0] by (auto simp: close_def conn_inv_def conn_wf_def)
  with control shutdown_kept [OF w] sessionI [OF s] show ?thesis by auto
next
  case (remote c)
  have "session I (w\<lparr>tasks := tasks w @ task_of c\<rparr>)"
    by (rule sessionI [OF s]) (use s remote(2) alike_inv [OF alike_tasks [of w "tasks w @ task_of c"]] in
        \<open>auto simp: session_def kept_def queued_work_def in_cells_def task_of_def\<close>)
  moreover have "conserved w (w\<lparr>tasks := tasks w @ task_of c\<rparr>)" by (simp add: conserved_def given_def sent_cells_def)
  ultimately show ?thesis using remote s remote_call_posts [of u c w] by auto
next
  case timer
  have "session I (post (Task_cleanup ETIMEDOUT) w)"
    by (rule sessionI [OF s]) (use s alike_inv [OF alike_post [of w "Task_cleanup ETIMEDOUT"]] in
        \<open>auto simp: session_def kept_def queued_work_def in_cells_def post_def\<close>)
  moreover have "conserved w (post (Task_cleanup ETIMEDOUT) w)" by (simp add: conserved_def given_def sent_cells_def post_def)
  ultimately show ?thesis using timer remote_timer_posts [of u w] by simp
next
  case (elsewhere a)
  have "session I (with_app (\<lambda>_. a) w)"
    by (rule session_with_app [OF s]) (use s elsewhere(2) elsewhere_keeps in \<open>auto simp: session_def kept_def\<close>)
  with elsewhere(1) flows_conserved [OF flows_with_app(1)] show ?thesis by simp
qed

lemma session_offer:
  assumes s: "session I w" and b: "length (in_cells w) + incoming rs \<le> 2 ^ 59"
  shows "session I (kernel_offers rs ss e a t w)"
proof -
  let ?v = "w\<lparr>recvs := rs, sends := ss, errno := e, so_answer := a, now := t\<rparr>"
  from s b have "conn_inv ?v \<and> settled ?v" using kernel_after [of w rs] by (simp add: session_def after_def)
  with s show ?thesis by (auto simp: kernel_offers_def session_def kept_def queued_work_def in_cells_def is_up_def)
qed

lemma session_step:
  assumes s: "session I w" and "serve_step u E w r"
  shows "\<exists>w'. r = Inr w' \<and> session I w'"
  using assms(2) by cases (use session_own_step [OF s] session_offer [OF s] in blast)+

lemma session_reachable:
  assumes "session I w0" and "serve_reachable u E w0 w"
  shows "session I w"
  using assms(2)
proof induction
  case (further w w')
  then show ?case using session_step [of w "Inr w'"] by simp
qed (rule assms(1))

end

section \<open>Accepted connections\<close>

text \<open>The closure by which a server starts an accepted connection on its poll (cxpnet/server.cc).\<close>

definition start_accepted :: "('a cw \<Rightarrow> 'a cw result) option \<Rightarrow> 'a cw \<Rightarrow> 'a cw result" where
  "start_accepted on_conn_func w =
     andthen (start w) (\<lambda>w1. case on_conn_func of None \<Rightarrow> Inr w1 | Some f \<Rightarrow> f w1)"

text \<open>A connection object made for an accepted descriptor, before it is started.\<close>

definition accepted :: "'a cw \<Rightarrow> bool" where
  "accepted w \<longleftrightarrow> in_poll w \<and> epoll_ok (poller w) \<and> fresh_handle (poller w) (c_handle w) \<and>
     c_state w = kDisconnected \<and> c_channel w = None \<and> read_buffer w = None \<and> write_buffer w = None \<and>
     incoming (recvs w) \<le> 2 ^ 59 \<and> queued_work w = []"

text \<open>A connection that is up, with nothing sent and nothing heard since it started.\<close>

definition just_started :: "'a cw \<Rightarrow> 'a cw \<Rightarrow> bool" where
  "just_started w w1 \<longleftrightarrow> conn_inv w1 \<and> settled w1 \<and> is_up w1 \<and> live w1 \<and> in_cells w1 = [] \<and> out_cells w1 = [] \<and>
     queued_work w1 = [] \<and> app w1 = app w \<and> recvs w1 = recvs w \<and> log w1 = log w @ [Ev_started []]"

text \<open>The program has the connection in hand and has heard nothing yet.\<close>

definition begun :: "'a cw \<Rightarrow> 'a cw \<Rightarrow> bool" where
  "begun w w1 \<longleftrightarrow> messages (log w1) = [] \<and> recvs w1 = recvs w"

lemma begun_flows: "begun w v \<Longrightarrow> flows v w1 \<Longrightarrow> begun w w1"
  by (simp add: begun_def flows_def)

lemma start_accepted_ok:
  assumes "accepted w"
  shows "\<exists>w1. start w = Inr w1 \<and> just_started w w1"
proof -
  have "bufs_ok w" "out_cells w = []" using assms by (simp_all add: accepted_def bufs_ok_def in_cells_def out_cells_def)
  with start_ok [of w] assms show ?thesis
    by (auto simp: accepted_def just_started_def queued_work_def in_cells_def)
qed

lemma alike_install: "alike w (install_callbacks w)"
  by (simp add: alike_def install_callbacks_def)

lemma install_callbacks_simps [simp]:
  "app (install_callbacks w) = app w" "log (install_callbacks w) = log w" "has_message_func (install_callbacks w)"
  "queued_work (install_callbacks w) = queued_work w" "in_cells (install_callbacks w) = in_cells w"
  "c_state (install_callbacks w) = c_state w" "read_buffer (install_callbacks w) = read_buffer w"
  "out_cells (install_callbacks w) = out_cells w" "recvs (install_callbacks w) = recvs w"
  by (simp_all add: install_callbacks_def queued_work_def in_cells_def out_cells_def)

lemma install_session:
  assumes "just_started w0 w" and "I (f (app w)) True (log w)"
  shows "session I (install_callbacks (with_app f w))"
proof -
  let ?v = "install_callbacks (with_app f w)"
  have "alike w ?v" by (rule alike_trans [OF alike_with_app alike_install])
  note A = alike_inv(2) [OF this] alike_cells [OF this]
  show ?thesis using assms A by (simp add: session_def kept_def just_started_def)
qed

lemma install_begun: "just_started w0 w \<Longrightarrow> begun w0 (install_callbacks (with_app f w))"
  by (simp add: begun_def just_started_def with_app_def)

section \<open>Connections a client opens\<close>

text \<open>A connection attempt that waits for its outcome, on behalf of a program.\<close>

definition dialing :: "'a cw \<Rightarrow> bool" where
  "dialing w \<longleftrightarrow> conn_inv w \<and> c_state w = kConnecting \<and> has_connected_func w \<and> in_cells w = [] \<and> queued_work w = []"

text \<open>When it succeeds, the connected callback is called with a connection that has just started.\<close>

lemma connect_event_starts:
  assumes d: "dialing w" and ok: "0 \<le> fst (so_answer w)" "snd (so_answer w) = 0"
  shows "\<exists>w1. just_started w w1 \<and> handle_connect_event u w = u_connected u (emit Ev_connected w1)"
proof -
  from d have inv: "conn_inv w" and st: "c_state w = kConnecting" by (simp_all add: dialing_def)
  from connecting_dropped [OF inv st] obtain p' where
    p: "drop_channel w = Inr (w\<lparr>poller := p', c_channel := None\<rparr>)" "epoll_ok p'" "fresh_handle p' (c_handle w)"
       "in_poll w" "bufs_ok w" "out_cells w = []" by blast
  let ?v = "w\<lparr>poller := p', c_channel := None\<rparr>"
  have bufs: "bufs_ok ?v" "out_cells ?v = []" using p(5,6) by (simp_all add: bufs_ok_def in_cells_def out_cells_def)
  have "fresh_handle (poller ?v) (c_handle ?v)" using p(3) by simp
  from start_ok [OF _ _ bufs(1) this bufs(2)] p(2,4) obtain x where
    x: "start ?v = Inr x" "conn_inv x" "settled x" "is_up x" "live x" "log x = log w @ [Ev_started []]"
       "has_connected_func x = has_connected_func w" "in_cells x = in_cells ?v" "out_cells x = []" "app x = app w" "tasks x = tasks w" "recvs x = recvs w"
    by auto
  have "just_started w x"
    using x d by (simp add: just_started_def dialing_def queued_work_def in_cells_def)
  moreover have "handle_connect_event u w = u_connected u (emit Ev_connected x)"
    using x(1,7) p(1,4) st ok d by (simp add: handle_connect_event_def call_if_def dialing_def)
  ultimately show ?thesis by blast
qed

text \<open>The connected callback sets the callbacks; the connection is then in the program's hands.\<close>

lemma connected_session:
  assumes "just_started w0 w" and "I (f (app w)) True (log w @ [Ev_connected])"
  shows "session I (install_callbacks (with_app f (emit Ev_connected w)))"
proof -
  let ?v = "install_callbacks (with_app f (emit Ev_connected w))"
  have n: "neutral Ev_connected" by simp
  have "alike w ?v" by (rule alike_trans [OF alike_emit [OF n] alike_trans [OF alike_with_app alike_install]])
  note A = alike_inv(2) [OF this] alike_cells [OF this]
  show ?thesis using assms A by (simp add: session_def kept_def just_started_def)
qed

lemma connected_begun:
  assumes "just_started w0 w"
  shows "begun w0 (install_callbacks (with_app f (emit Ev_connected w)))"
  using assms messages_snoc [of "log w0 @ [Ev_started []]" Ev_connected] by (simp add: begun_def just_started_def with_app_def)

text \<open>An accepted connection to which the peer has already sent something.\<close>

definition fresh_with :: "'a \<Rightarrow> 'a cw" where
  "fresh_with a = conn.extend (Conn_new 7)
     (cw.fields (busy_poller\<lparr>channels := Map.empty, ctl_log := []\<rparr>) TimerManager_new [] True 0 1
        [Recv_data [71, 69, 84, 32, 47, 97]] [Send_room 100] 0 (0, 0) sample_connect_os (\<lambda>_ _. None) [] a)"

lemma fresh_with_accepted: "accepted (fresh_with a)"
  by (simp add: accepted_def fresh_with_def conn.defs cw.defs Conn_new_def busy_poller_def epoll_ok_def epoll_documented_def
        fresh_handle_def interest_def queued_work_def)

end
