(* ===== verification/App_Servers.thy ===== *)
theory App_Servers
  imports Conn_Serve
begin

text \<open>
  The server programs under src/examples that handle each connection by itself: echo_server,
  tcp_server, async_server, stress_server, http_server and file_server.

  The state of such a program is a record with the fields of its class that its callbacks use;
  what is only printed is left out. A program's callbacks are collected in a \<open>user_cb\<close>. The streams of a
  connection are compared with the messages its program has been given.
\<close>

section \<open>Replies\<close>

text \<open>
  The output accepted since the connection started is a greeting followed by one reply per
  message, in order.
\<close>

definition replies :: "byte list \<Rightarrow> (byte list \<Rightarrow> byte list) \<Rightarrow> conn_event list \<Rightarrow> bool" where
  "replies greeting f l \<longleftrightarrow>
     snd (stream l) = map Some (greeting @ concat (map (\<lambda>m. f (map the m)) (messages l)))"

text \<open>A program that greets and replies, and one that replies once and then shuts the connection down.\<close>

definition reply_inv :: "byte list \<Rightarrow> (byte list \<Rightarrow> byte list) \<Rightarrow> 'a \<Rightarrow> bool \<Rightarrow> conn_event list \<Rightarrow> bool" where
  "reply_inv greeting f a c l \<longleftrightarrow> replies greeting f l \<and> (\<forall>m \<in> set (messages l). None \<notin> set m)"

definition reply_once :: "byte list \<Rightarrow> (byte list \<Rightarrow> byte list) \<Rightarrow> 'a \<Rightarrow> bool \<Rightarrow> conn_event list \<Rightarrow> bool" where
  "reply_once greeting f a c l \<longleftrightarrow> replies greeting f l \<and> length (messages l) \<le> 1 \<and> (c \<longrightarrow> messages l = [])"

lemma stream_step_owed:
  "snd (stream_step p e) = (case e of Ev_started xs \<Rightarrow> xs | Ev_queued ys \<Rightarrow> snd p @ map Some ys | _ \<Rightarrow> snd p)"
  by (cases p; cases e) simp_all

lemma replies_inert: "replies g f l \<Longrightarrow> inert e \<Longrightarrow> replies g f (l @ [e])"
  by (cases e) (simp_all add: replies_def stream_step_owed)

lemma replies_close: "replies g f l \<Longrightarrow> replies g f (l @ [Ev_close err])"
  by (simp add: replies_def stream_step_owed)

lemma replies_started: "replies [] f (l @ [Ev_started []])"
  by (simp add: replies_def stream_step_owed)

lemma replies_message:
  assumes "replies g f l"
  shows "f xs = [] \<Longrightarrow> replies g f (l @ [Ev_message (map Some xs)])"
    and "replies g f (l @ [Ev_message (map Some xs)] @ [Ev_queued (f xs)])"
  using assms stream_snoc [of "l @ [Ev_message (map Some xs)]"] messages_snoc [of "l @ [Ev_message (map Some xs)]"]
  by (simp_all add: replies_def stream_step_owed comp_def)

text \<open>Whatever the callbacks of a program do to its own state, these invariants allow it.\<close>

lemma reply_program:
  "closing_program ((closing_user_cb f g)\<lparr>u_message := m\<rparr>) (reply_inv greeting r) f g"
  by unfold_locales (auto simp: reply_inv_def replies_inert replies_close messages_inert)

lemma once_program:
  "closing_program ((closing_user_cb f g)\<lparr>u_message := m\<rparr>) (reply_once greeting r) f g"
  by unfold_locales (auto simp: reply_once_def replies_inert replies_close messages_inert)

lemma reply_inv_app: "reply_inv g f a c l = reply_inv g f a' c' l"
  by (simp add: reply_inv_def)

text \<open>The message callback's part, for each shape of callback.\<close>

lemma in_cells_buffer: "in_cells w = map Some xs \<Longrightarrow> xs \<noteq> [] \<Longrightarrow> read_buffer w \<noteq> None"
  by (auto simp: in_cells_def split: option.splits)

lemma answered_with_app: "answered I (with_app k w) w' \<Longrightarrow> answered I w w'"
  using alike_inv(3) [OF alike_with_app [of w k]] follows_trans [of w "with_app k w" w']
    flows_trans [OF flows_with_app(1) [of w k]] by (auto simp: answered_def)

lemma message_kept:
  assumes "reply_inv g r a True l"
  shows "r xs = [] \<Longrightarrow> reply_inv g r a' c (l @ [Ev_message (map Some xs)])"
    and "reply_inv g r a' c (l @ [Ev_message (map Some xs), Ev_queued (r xs)])"
  using assms replies_message [of g r l xs] messages_snoc [of "l @ [Ev_message (map Some xs)]" "Ev_queued (r xs)"]
  by (auto simp: reply_inv_def simp del: messages_snoc) (auto simp: messages_def)

lemma reply_callback:
  assumes P: "closing_program u (reply_inv g r) f h"
    and w: "conn_inv w" "live w" "roomy w" "in_cells w = map Some xs" "xs \<noteq> []"
    and l: "log w = l @ [Ev_message (map Some xs)]" "reply_inv g r (app w) True l" and len: "length (r xs) \<le> 2 ^ 59"
  shows "\<exists>w'. andthen (message_text (with_app k w)) (\<lambda>msg. andthen (send u (Some (r msg)) (with_app k w)) consume) = Inr w' \<and>
           answered (reply_inv g r) w w'"
proof -
  let ?v = "with_app k w"
  note A = alike_inv [OF alike_with_app [of w k]]
  have v: "conn_inv ?v" "c_state ?v = kConnected" "in_cells ?v = map Some xs" using A w by simp_all
  have room: "has_room (r xs) ?v" using w(3) len by (simp add: has_room_def roomy_def out_cells_def with_app_def)
  have "r xs = [] \<Longrightarrow> reply_inv g r (app ?v) (live ?v) (log ?v)" "reply_inv g r (app ?v) (live ?v) (log ?v @ [Ev_queued (r xs)])"
    by (simp_all add: l(1) message_kept [OF l(2)])
  with closing_program.send_consume [OF P v(1,2) room in_cells_buffer [OF v(3) w(5)]]
  obtain w' where "andthen (send u (Some (r xs)) ?v) consume = Inr w'" "answered (reply_inv g r) ?v w'" by auto
  with message_text_ok [OF v(1,3) w(5)] answered_with_app show ?thesis by auto
qed

lemma silent_callback:
  assumes w: "conn_inv w" "in_cells w = map Some xs" "xs \<noteq> []"
    and l: "log w = l @ [Ev_message (map Some xs)]" "reply_inv g (\<lambda>_. []) (app w) True l"
  shows "\<exists>w'. consume (with_app k w) = Inr w' \<and> answered (reply_inv g (\<lambda>_. [])) w w'"
proof -
  let ?v = "with_app k w"
  note A = alike_inv [OF alike_with_app [of w k]]
  from in_cells_buffer [OF w(2,3)] obtain b where "read_buffer ?v = Some b" by auto
  with consume_ok [of ?v] A w(1) obtain b' where
    "consume ?v = Inr (?v\<lparr>read_buffer := Some b'\<rparr>)" "contents b' = []" "conn_inv (?v\<lparr>read_buffer := Some b'\<rparr>)"
    "follows ?v (?v\<lparr>read_buffer := Some b'\<rparr>)" by blast
  moreover from this have "answered (reply_inv g (\<lambda>_. [])) ?v (?v\<lparr>read_buffer := Some b'\<rparr>)"
    using l message_kept(1) [OF l(2)] by (simp add: answered_def)
  ultimately show ?thesis using answered_with_app by blast
qed

lemma once_callback:
  assumes P: "closing_program u (reply_once g r) f h"
    and w: "conn_inv w" "live w" "roomy w" "in_cells w = map Some xs" "xs \<noteq> []"
    and l: "log w = l @ [Ev_message (map Some xs)]" "reply_once g r (app w) True l" and len: "length (r xs) \<le> 2 ^ 59"
  shows "\<exists>w'. andthen (message_text w) (\<lambda>msg. andthen (consume w) (\<lambda>w1. andthen (send u (Some (r msg)) w1) shutdown)) = Inr w' \<and>
           answered (reply_once g r) w w'"
proof -
  have ms: "messages l = []" "replies g r l" using l(2) by (simp_all add: reply_once_def)
  have "reply_once g r (app w) False ((l @ [Ev_message (map Some xs)]) @ [Ev_queued (r xs)])"
    using replies_message(2) [OF ms(2), of xs] messages_snoc [of "l @ [Ev_message (map Some xs)]" "Ev_queued (r xs)"] ms(1)
    by (auto simp: reply_once_def simp del: messages_snoc) (auto simp: messages_def)
  moreover have "reply_once g r (app w) False (l @ [Ev_message (map Some xs)])" if "r xs = []"
    using replies_message(1) [OF ms(2) that] ms(1) by (simp add: reply_once_def)
  moreover have room: "has_room (r xs) w" using w(3) len by (simp add: has_room_def roomy_def)
  ultimately show ?thesis
    using closing_program.consume_send_shutdown [OF P w(1,2) room in_cells_buffer [OF w(4,5)]] l(1) message_text_ok [OF w(1,4,5)]
    by auto
qed

section \<open>The programs\<close>

text \<open>\<open>EchoServer\<close>. The two counters are shared by the connections of the server.\<close>

record echo_server =
  open_count :: "32 word"
  message_count :: "64 word"

definition echo_on_close :: "int \<Rightarrow> echo_server \<Rightarrow> echo_server" where
  "echo_on_close err s = s\<lparr>open_count := open_count s - 1\<rparr>"

definition echo_base :: "echo_server user_cb" where
  "echo_base = closing_user_cb echo_on_close (\<lambda>_ s. s)"

definition echo_on_message :: "echo_server cw \<Rightarrow> echo_server cw result" where
  "echo_on_message w =
     (let w1 = with_app (\<lambda>s. s\<lparr>message_count := message_count s + 1\<rparr>) w
      in andthen (message_text w1) (\<lambda>msg. andthen (send echo_base (Some msg) w1) consume))"

definition echo_cb :: "echo_server user_cb" where
  "echo_cb = echo_base\<lparr>u_message := echo_on_message\<rparr>"

definition echo_on_connection :: "echo_server cw \<Rightarrow> echo_server cw result" where
  "echo_on_connection w =
     Inr (install_callbacks (with_app (\<lambda>s. s\<lparr>open_count := open_count s + 1\<rparr>) w))"

text \<open>\<open>TcpServer\<close> greets and echoes. It keeps no state.\<close>

definition greeting :: "byte list" where
  "greeting = bytes ''hello, I'm server''"

definition tcp_base :: "unit user_cb" where
  "tcp_base = closing_user_cb (\<lambda>_ s. s) (\<lambda>_ s. s)"

definition tcp_on_message :: "unit cw \<Rightarrow> unit cw result" where
  "tcp_on_message w = andthen (message_text w) (\<lambda>msg. andthen (send tcp_base (Some msg) w) consume)"

definition tcp_cb :: "unit user_cb" where
  "tcp_cb = tcp_base\<lparr>u_message := tcp_on_message\<rparr>"

definition tcp_on_connection :: "unit cw \<Rightarrow> unit cw result" where
  "tcp_on_connection w = send tcp_cb (Some greeting) (install_callbacks w)"

text \<open>The server of \<open>async_server\<close> greets and takes in what it gets.\<close>

definition async_cb :: "unit user_cb" where
  "async_cb = tcp_base\<lparr>u_message := consume\<rparr>"

definition async_on_connection :: "unit cw \<Rightarrow> unit cw result" where
  "async_on_connection w = send async_cb (Some greeting) (install_callbacks w)"

text \<open>\<open>StressServer\<close> counts; it has the same two counters as \<open>EchoServer\<close>.\<close>

definition stress_on_message :: "echo_server cw \<Rightarrow> echo_server cw result" where
  "stress_on_message w = consume (with_app (\<lambda>s. s\<lparr>message_count := message_count s + 1\<rparr>) w)"

definition stress_cb :: "echo_server user_cb" where
  "stress_cb = (closing_user_cb echo_on_close (\<lambda>_ s. s))\<lparr>u_message := stress_on_message\<rparr>"

definition stress_on_connection :: "echo_server cw \<Rightarrow> echo_server cw result" where
  "stress_on_connection w = Inr (install_callbacks (with_app (\<lambda>s. s\<lparr>open_count := open_count s + 1\<rparr>) w))"

text \<open>\<open>HttpServer\<close> answers the first thing it gets and shuts the connection down.\<close>

fun contains :: "'a list \<Rightarrow> 'a list \<Rightarrow> bool" where
  "contains p [] \<longleftrightarrow> p = []"
| "contains p (x # xs) \<longleftrightarrow> prefix p (x # xs) \<or> contains p xs"

definition crlf :: "byte list" where
  "crlf = [13, 10]"

definition http_ok :: "byte list" where
  "http_ok = bytes ''HTTP/1.1 200 OK'' @ crlf @ bytes ''Content-Type: text/html'' @ crlf @ bytes ''Connection: close'' @ crlf @
     crlf @ bytes ''<html><body><h1>Hello from cxpnet HTTP Server!</h1></body></html>''"

definition http_not_found :: "byte list" where
  "http_not_found = bytes ''HTTP/1.1 404 Not Found'' @ crlf @ bytes ''Content-Type: text/html'' @ crlf @ bytes ''Connection: close'' @ crlf @
     crlf @ bytes ''<html><body><h1>404 Not Found</h1></body></html>''"

definition http_response :: "byte list \<Rightarrow> byte list" where
  "http_response request = (if contains (bytes ''GET /'') request then http_ok else http_not_found)"

definition http_on_message :: "unit cw \<Rightarrow> unit cw result" where
  "http_on_message w =
     andthen (message_text w) (\<lambda>request. andthen (consume w) (\<lambda>w1.
       andthen (send tcp_base (Some (http_response request)) w1) shutdown))"

definition http_cb :: "unit user_cb" where
  "http_cb = tcp_base\<lparr>u_message := http_on_message\<rparr>"

text \<open>
  \<open>FileServer\<close>. The file system is a parameter: the contents of the file with a given name, if it
  can be opened. The name is passed on as a C string, which ends before a null byte.
\<close>

type_synonym file_system = "byte list \<Rightarrow> byte list option"

definition requested_file :: "byte list \<Rightarrow> byte list option" where
  "requested_file request =
     (if prefix (bytes ''GET '') request
      then Some (takeWhile (\<lambda>c. c \<noteq> 13 \<and> c \<noteq> 10 \<and> c \<noteq> 32) (drop 4 request)) else None)"

definition file_response :: "file_system \<Rightarrow> byte list \<Rightarrow> byte list" where
  "file_response fs request = (case requested_file request of
     Some filename \<Rightarrow>
       (case fs (takeWhile (\<lambda>c. c \<noteq> 0) filename) of
          None \<Rightarrow> bytes ''ERROR: file not found'' @ [10]
        | Some content \<Rightarrow> bytes ''OK'' @ [10] @ content)
   | None \<Rightarrow> bytes ''ERROR: unsupported command'' @ [10])"

definition file_on_message :: "file_system \<Rightarrow> unit cw \<Rightarrow> unit cw result" where
  "file_on_message fs w =
     andthen (message_text w) (\<lambda>request. andthen (consume w) (\<lambda>w1.
       andthen (send tcp_base (Some (file_response fs request)) w1) shutdown))"

definition file_cb :: "file_system \<Rightarrow> unit user_cb" where
  "file_cb fs = tcp_base\<lparr>u_message := file_on_message fs\<rparr>"

text \<open>\<open>HttpServer\<close> and \<open>FileServer\<close> only set their callbacks when a connection comes in.\<close>

definition plain_on_connection :: "'a cw \<Rightarrow> 'a cw result" where
  "plain_on_connection w = Inr (install_callbacks w)"

section \<open>The programs keep their invariants\<close>

text \<open>Sending from inside a callback is sending with all of the program's callbacks.\<close>

lemma send_same:
  "send echo_base = send echo_cb" "send tcp_base = send tcp_cb" "send tcp_base = send http_cb" "send tcp_base = send (file_cb fs)"
  by (rule send_base [OF same_closing_cleanup]; simp add: same_closing_def echo_cb_def tcp_cb_def http_cb_def file_cb_def)+

lemma bytes_length [simp]: "length (bytes s) = length s"
  by (simp add: bytes_def)

lemma http_response_short: "length (http_response r) \<le> 2 ^ 59"
  by (simp add: http_response_def http_ok_def http_not_found_def crlf_def)

lemma file_response_short:
  assumes "\<And>name content. fs name = Some content \<Longrightarrow> length content \<le> 2 ^ 58"
  shows "length (file_response fs r) \<le> 2 ^ 59"
proof -
  have "length content + 3 \<le> 2 ^ 59" if "fs name = Some content" for name content using assms [OF that] by simp
  then show ?thesis by (auto simp: file_response_def split: option.split)
qed

lemmas program_parts = message_program.intro message_program_axioms.intro

interpretation echo: message_program echo_cb "reply_inv [] (\<lambda>m. m)" echo_on_close "\<lambda>_ s. s" "\<lambda>_ _. True"
proof (intro program_parts)
  show P: "closing_program echo_cb (reply_inv [] (\<lambda>m. m)) echo_on_close (\<lambda>_ s. s)"
    unfolding echo_cb_def echo_base_def by (rule reply_program)
  show "\<exists>w'. u_message echo_cb w = Inr w' \<and> answered (reply_inv [] (\<lambda>m. m)) w w'"
    if "conn_inv w" "live w" "roomy w" "in_cells w = map Some xs" "xs \<noteq> []" "length xs \<le> 2 ^ 59"
       "log w = l @ [Ev_message (map Some xs)]" "reply_inv [] (\<lambda>m. m) (app w) True l" for w xs l
    using reply_callback [OF P that(1-5,7,8,6)] by (simp add: echo_cb_def echo_on_message_def Let_def send_same [unfolded echo_cb_def])
qed (simp add: reply_inv_def)

interpretation tcp: message_program tcp_cb "reply_inv greeting (\<lambda>m. m)" "\<lambda>_ s. s" "\<lambda>_ s. s" "\<lambda>_ _. True"
proof (intro program_parts)
  show P: "closing_program tcp_cb (reply_inv greeting (\<lambda>m. m)) (\<lambda>_ s. s) (\<lambda>_ s. s)"
    unfolding tcp_cb_def tcp_base_def by (rule reply_program)
  show "\<exists>w'. u_message tcp_cb w = Inr w' \<and> answered (reply_inv greeting (\<lambda>m. m)) w w'"
    if "conn_inv w" "live w" "roomy w" "in_cells w = map Some xs" "xs \<noteq> []" "length xs \<le> 2 ^ 59"
       "log w = l @ [Ev_message (map Some xs)]" "reply_inv greeting (\<lambda>m. m) (app w) True l" for w xs l
    using reply_callback [OF P that(1-5,7,8,6), of "\<lambda>s. s", unfolded with_app_id]
    by (simp add: tcp_cb_def tcp_on_message_def send_same [unfolded tcp_cb_def])
qed (simp add: reply_inv_def)

interpretation async: message_program async_cb "reply_inv greeting (\<lambda>_. [])" "\<lambda>_ s. s" "\<lambda>_ s. s" "\<lambda>_ _. True"
proof (intro program_parts)
  show "closing_program async_cb (reply_inv greeting (\<lambda>_. [])) (\<lambda>_ s. s) (\<lambda>_ s. s)"
    unfolding async_cb_def tcp_base_def by (rule reply_program)
  show "\<exists>w'. u_message async_cb w = Inr w' \<and> answered (reply_inv greeting (\<lambda>_. [])) w w'"
    if "conn_inv w" "in_cells w = map Some xs" "xs \<noteq> []" "log w = l @ [Ev_message (map Some xs)]"
       "reply_inv greeting (\<lambda>_. []) (app w) True l" for w xs l
    using silent_callback [OF that, of "\<lambda>s. s", unfolded with_app_id] by (simp add: async_cb_def)
qed (simp add: reply_inv_def)

interpretation stress: message_program stress_cb "reply_inv [] (\<lambda>_. [])" echo_on_close "\<lambda>_ s. s" "\<lambda>_ _. True"
proof (intro program_parts)
  show "closing_program stress_cb (reply_inv [] (\<lambda>_. [])) echo_on_close (\<lambda>_ s. s)"
    unfolding stress_cb_def by (rule reply_program)
  show "\<exists>w'. u_message stress_cb w = Inr w' \<and> answered (reply_inv [] (\<lambda>_. [])) w w'"
    if "conn_inv w" "in_cells w = map Some xs" "xs \<noteq> []" "log w = l @ [Ev_message (map Some xs)]"
       "reply_inv [] (\<lambda>_. []) (app w) True l" for w xs l
    using silent_callback [OF that] by (simp add: stress_cb_def stress_on_message_def)
qed (simp add: reply_inv_def)

interpretation http: message_program http_cb "reply_once [] http_response" "\<lambda>_ s. s" "\<lambda>_ s. s" "\<lambda>_ _. True"
proof (intro program_parts)
  show P: "closing_program http_cb (reply_once [] http_response) (\<lambda>_ s. s) (\<lambda>_ s. s)"
    unfolding http_cb_def tcp_base_def by (rule once_program)
  show "\<exists>w'. u_message http_cb w = Inr w' \<and> answered (reply_once [] http_response) w w'"
    if "conn_inv w" "live w" "roomy w" "in_cells w = map Some xs" "xs \<noteq> []"
       "log w = l @ [Ev_message (map Some xs)]" "reply_once [] http_response (app w) True l" for w xs l
    using once_callback [OF P that http_response_short]
    by (simp add: http_cb_def http_on_message_def send_same(3) [unfolded http_cb_def])
qed (simp add: reply_once_def)

lemma file_program:
  assumes "\<And>name content. fs name = Some content \<Longrightarrow> length content \<le> 2 ^ 58"
  shows "message_program (file_cb fs) (reply_once [] (file_response fs)) (\<lambda>_ s. s) (\<lambda>_ s. s) (\<lambda>_ _. True)"
proof (intro program_parts)
  show P: "closing_program (file_cb fs) (reply_once [] (file_response fs)) (\<lambda>_ s. s) (\<lambda>_ s. s)"
    unfolding file_cb_def tcp_base_def by (rule once_program)
  show "\<exists>w'. u_message (file_cb fs) w = Inr w' \<and> answered (reply_once [] (file_response fs)) w w'"
    if "conn_inv w" "live w" "roomy w" "in_cells w = map Some xs" "xs \<noteq> []"
       "log w = l @ [Ev_message (map Some xs)]" "reply_once [] (file_response fs) (app w) True l" for w xs l
    using once_callback [OF P that file_response_short [OF assms]]
    by (simp add: file_cb_def file_on_message_def send_same(4) [of fs, unfolded file_cb_def])
qed (simp add: reply_once_def)

section \<open>What the programs guarantee\<close>

lemma map_the_Some: "None \<notin> set m \<Longrightarrow> map Some (map the m) = m"
  by (induction m) auto

lemma concat_the_Some: "\<forall>m \<in> set ms. None \<notin> set m \<Longrightarrow> map Some (concat (map (\<lambda>m. map the m) ms)) = concat ms"
  by (induction ms) (simp_all add: map_the_Some del: map_map)

text \<open>What an invariant about replies says of the streams of a connection.\<close>

lemma session_streams:
  assumes "session I w"
  shows "prefix (sent_cells w) (owed_cells w)" and "is_up w \<Longrightarrow> sent_cells w @ out_cells w = owed_cells w" and "in_cells w = []"
    and "I (app w) (live w) (log w)"
  using assms by (simp_all add: session_def kept_def conn_inv_def stream_inv_def)

lemma reply_inv_owed: "reply_inv g (\<lambda>m. m) a c (log w) \<Longrightarrow> owed_cells w = map Some g @ heard (log w)"
  using concat_the_Some [of "messages (log w)"] by (simp add: reply_inv_def replies_def owed_cells_def heard_def map_concat comp_def)

lemma echo_accepts:
  assumes "accepted w"
  shows "\<exists>w1. start_accepted (Some echo_on_connection) w = Inr w1 \<and> session (reply_inv [] (\<lambda>m. m)) w1 \<and> begun w w1"
proof -
  from start_accepted_ok [OF assms] obtain w1 where 1: "start w = Inr w1" "just_started w w1" by blast
  have "session (reply_inv [] (\<lambda>m. m)) (install_callbacks (with_app (\<lambda>s. s\<lparr>open_count := open_count s + 1\<rparr>) w1))"
    by (rule install_session [OF 1(2)]) (use 1(2) replies_started in \<open>simp add: just_started_def reply_inv_def\<close>)
  with 1 install_begun [OF 1(2)] show ?thesis by (simp add: start_accepted_def echo_on_connection_def)
qed

text \<open>
  C14. The echo server echoes. From the moment it is accepted, and whatever happens to the
  connection and to the other connections of the server in whatever order, no call fails, and the output
  accepted for the peer is exactly what the peer's bytes handed to the program were, in order:
  what has reached the socket is a prefix of it, and while the connection is up the rest waits in
  the write buffer. No input is left over.
\<close>

theorem echo_server_echoes:
  assumes "accepted w0"
  shows "\<exists>w1. start_accepted (Some echo_on_connection) w0 = Inr w1 \<and>
     (\<forall>w. serve_reachable echo_cb (\<lambda>_ _. True) w1 w \<longrightarrow>
        prefix (sent_cells w) (heard (log w)) \<and> (is_up w \<longrightarrow> sent_cells w @ out_cells w = heard (log w)) \<and> in_cells w = [] \<and>
        (\<forall>r. serve_step echo_cb (\<lambda>_ _. True) w r \<longrightarrow> (\<exists>w'. r = Inr w')))"
proof -
  from echo_accepts [OF assms] obtain w1 where
    1: "start_accepted (Some echo_on_connection) w0 = Inr w1" "session (reply_inv [] (\<lambda>m. m)) w1" by blast
  have "prefix (sent_cells w) (heard (log w)) \<and> (is_up w \<longrightarrow> sent_cells w @ out_cells w = heard (log w)) \<and> in_cells w = [] \<and>
      (\<forall>r. serve_step echo_cb (\<lambda>_ _. True) w r \<longrightarrow> (\<exists>w'. r = Inr w'))"
    if "serve_reachable echo_cb (\<lambda>_ _. True) w1 w" for w
  proof -
    note S = echo.session_reachable [OF 1(2) that]
    from session_streams [OF S] reply_inv_owed [OF session_streams(4) [OF S]] echo.session_step [OF S] show ?thesis by auto
  qed
  with 1(1) show ?thesis by blast
qed

theorem echo_server_echoes_witness:
  "\<exists>w1. start_accepted (Some echo_on_connection) (fresh_with \<lparr>open_count = 0, message_count = 0\<rparr>) = Inr w1 \<and>
     prefix (sent_cells w1) (heard (log w1)) \<and> in_cells w1 = []"
proof -
  from echo_server_echoes [OF fresh_with_accepted, of "\<lparr>open_count = 0, message_count = 0\<rparr>"] obtain w1 where
    "start_accepted (Some echo_on_connection) (fresh_with \<lparr>open_count = 0, message_count = 0\<rparr>) = Inr w1"
    "serve_reachable echo_cb (\<lambda>_ _. True) w1 w1 \<longrightarrow> prefix (sent_cells w1) (heard (log w1)) \<and> in_cells w1 = []" by blast
  with serve_reachable.initially [of echo_cb "\<lambda>_ _. True" w1] show ?thesis by blast
qed

text \<open>The servers that greet: the greeting precedes everything else.\<close>

lemma greet_accepts:
  assumes P: "closing_program u (reply_inv greeting r) f h" and "accepted w"
  shows "\<exists>w1. start_accepted (Some (\<lambda>w. send u (Some greeting) (install_callbacks w))) w = Inr w1 \<and>
           session (reply_inv greeting r) w1"
proof -
  from start_accepted_ok [OF assms(2)] obtain w1 where 1: "start w = Inr w1" "just_started w w1" by blast
  let ?w2 = "install_callbacks w1"
  have s: "session (\<lambda>_ _ _. True) ?w2" using install_session [OF 1(2), of "\<lambda>_ _ _. True" "\<lambda>s. s"] by simp
  then have i2: "conn_inv ?w2" by (simp add: session_def)
  have "replies greeting r ((log w @ [Ev_started []]) @ [Ev_queued greeting])"
    unfolding replies_def stream_snoc messages_snoc by (simp add: stream_step_owed)
  then have "reply_inv greeting r (app ?w2) (live ?w2) (log ?w2 @ [Ev_queued greeting])"
    using 1(2) messages_snoc [of "log w @ [Ev_started []]" "Ev_queued greeting"] by (simp add: reply_inv_def just_started_def)
  moreover have "has_room greeting ?w2" "greeting \<noteq> []" using 1(2) by (simp_all add: has_room_def just_started_def greeting_def bytes_def)
  ultimately obtain w3 where "send u (Some greeting) ?w2 = Inr w3" "conn_inv w3" "follows ?w2 w3"
      "reply_inv greeting r (app w3) (live w3) (log w3)" "read_buffer w3 = read_buffer ?w2" "queued_work w3 = queued_work ?w2"
      "has_message_func w3"
    using closing_program.send_keeps [OF P i2, of greeting] 1(2) by (auto simp: just_started_def)
  moreover from this have "session (reply_inv greeting r) w3"
    using s followsD(9) [of ?w2 w3] follows_up [of ?w2 w3] by (auto simp: session_def kept_def in_cells_def)
  ultimately show ?thesis using 1(1) by (simp add: start_accepted_def)
qed

lemma tcp_server_streams:
  assumes "accepted w0"
  shows "\<exists>w1. start_accepted (Some tcp_on_connection) w0 = Inr w1 \<and>
     (\<forall>w. serve_reachable tcp_cb (\<lambda>_ _. True) w1 w \<longrightarrow> owed_cells w = map Some greeting @ heard (log w))"
proof -
  from greet_accepts [OF tcp.closing_program_axioms assms] obtain w1 where
    1: "start_accepted (Some tcp_on_connection) w0 = Inr w1" "session (reply_inv greeting (\<lambda>m. m)) w1"
    by (auto simp: tcp_on_connection_def [abs_def])
  have "owed_cells w = map Some greeting @ heard (log w)" if "serve_reachable tcp_cb (\<lambda>_ _. True) w1 w" for w
    by (rule reply_inv_owed [OF session_streams(4) [OF tcp.session_reachable [OF 1(2) that]]])
  with 1(1) show ?thesis by blast
qed

lemma async_server_streams:
  assumes "accepted w0"
  shows "\<exists>w1. start_accepted (Some async_on_connection) w0 = Inr w1 \<and>
     (\<forall>w. serve_reachable async_cb (\<lambda>_ _. True) w1 w \<longrightarrow> owed_cells w = map Some greeting \<and> in_cells w = [])"
proof -
  from greet_accepts [OF async.closing_program_axioms assms] obtain w1 where
    1: "start_accepted (Some async_on_connection) w0 = Inr w1" "session (reply_inv greeting (\<lambda>_. [])) w1"
    by (auto simp: async_on_connection_def [abs_def])
  have "owed_cells w = map Some greeting \<and> in_cells w = []" if "serve_reachable async_cb (\<lambda>_ _. True) w1 w" for w
    using session_streams(3,4) [OF async.session_reachable [OF 1(2) that]] by (simp add: reply_inv_def replies_def owed_cells_def comp_def)
  with 1(1) show ?thesis by blast
qed

text \<open>The servers that answer once.\<close>

definition answers_once :: "byte list \<Rightarrow> (byte list \<Rightarrow> byte list) \<Rightarrow> 'a cw \<Rightarrow> bool" where
  "answers_once g r w \<longleftrightarrow>
     (if messages (log w) = [] then owed_cells w = map Some g
      else \<exists>m. messages (log w) = [m] \<and> c_state w \<noteq> kConnected \<and> owed_cells w = map Some (g @ r (map the m))) \<and>
     prefix (sent_cells w) (owed_cells w) \<and> (is_up w \<longrightarrow> sent_cells w @ out_cells w = owed_cells w)"

lemma reply_once_answers:
  assumes "session (reply_once g r) w"
  shows "answers_once g r w"
proof -
  note S = session_streams [OF assms]
  have "messages (log w) = [] \<or> (\<exists>m. messages (log w) = [m])"
    using S(4) by (cases "messages (log w)") (auto simp: reply_once_def)
  then show ?thesis using S by (auto simp: answers_once_def reply_once_def replies_def owed_cells_def)
qed

lemma once_accepts:
  assumes "accepted w"
  shows "\<exists>w1. start_accepted (Some plain_on_connection) w = Inr w1 \<and> session (reply_once [] r) w1 \<and> begun w w1"
proof -
  from start_accepted_ok [OF assms] obtain w1 where 1: "start w = Inr w1" "just_started w w1" by blast
  have "session (reply_once [] r) (install_callbacks (with_app (\<lambda>s. s) w1))"
    by (rule install_session [OF 1(2)]) (use 1(2) replies_started in \<open>simp add: just_started_def reply_once_def\<close>)
  with 1(1) install_begun [OF 1(2), of "\<lambda>s. s"] show ?thesis by (simp add: start_accepted_def plain_on_connection_def)
qed

text \<open>
  C18. The HTTP server and the file server answer once. From the moment a connection is accepted,
  whatever happens to it: as long as its program has been given nothing, nothing is sent; the
  first bytes it is given, however incomplete, are taken for the whole request, the response to
  them is all that is ever sent, and the connection is no longer open for reading. The response
  goes out in order, and while the connection is up what is not yet sent waits in the write buffer.
\<close>

theorem request_servers_answer_once:
  assumes "accepted w0" and "\<And>name content. fs name = Some content \<Longrightarrow> length content \<le> 2 ^ 58"
  shows "\<exists>w1. start_accepted (Some plain_on_connection) w0 = Inr w1 \<and>
     (\<forall>w. serve_reachable http_cb (\<lambda>_ _. True) w1 w \<longrightarrow> answers_once [] http_response w) \<and>
     (\<forall>w. serve_reachable (file_cb fs) (\<lambda>_ _. True) w1 w \<longrightarrow> answers_once [] (file_response fs) w)"
proof -
  from once_accepts [OF assms(1), of http_response] obtain w1 where
    1: "start_accepted (Some plain_on_connection) w0 = Inr w1" "session (reply_once [] http_response) w1" by blast
  from once_accepts [OF assms(1), of "file_response fs"] 1(1) have 2: "session (reply_once [] (file_response fs)) w1" by auto
  have "answers_once [] http_response w" if "serve_reachable http_cb (\<lambda>_ _. True) w1 w" for w
    by (rule reply_once_answers [OF http.session_reachable [OF 1(2) that]])
  moreover have "answers_once [] (file_response fs) w" if "serve_reachable (file_cb fs) (\<lambda>_ _. True) w1 w" for w
    using reply_once_answers [OF message_program.session_reachable [OF file_program 2 that]] assms(2) by blast
  ultimately show ?thesis using 1(1) by blast
qed

theorem request_servers_answer_once_witness:
  "\<exists>w1. start_accepted (Some plain_on_connection) (fresh_with ()) = Inr w1 \<and> answers_once [] http_response w1 \<and>
     answers_once [] (file_response (\<lambda>_. None)) w1"
proof -
  from request_servers_answer_once [OF fresh_with_accepted, where fs = "\<lambda>_. None"] obtain w1 where
    "start_accepted (Some plain_on_connection) (fresh_with ()) = Inr w1"
    "serve_reachable http_cb (\<lambda>_ _. True) w1 w1 \<longrightarrow> answers_once [] http_response w1"
    "serve_reachable (file_cb (\<lambda>_. None)) (\<lambda>_ _. True) w1 w1 \<longrightarrow> answers_once [] (file_response (\<lambda>_. None)) w1" by auto
  then show ?thesis using serve_reachable.initially by blast
qed

end
