(* ===== verification/App_Clients.thy ===== *)
theory App_Clients
  imports App_Servers
begin

text \<open>
  The client programs under src/examples: echo_client, http_client, file_client, stress_client,
  tcp_client and chat_client, and async_client.

  The state of a client has the fields of its class that its callbacks use: \<open>has_conn\<close> tells whether
  \<open>conn_\<close> is set, \<open>poll_stopped\<close> whether \<open>event_poll_.shutdown()\<close> was called. Calls of the connection made by the
  main thread are calls on another thread.
\<close>

section \<open>The echo client\<close>

record echo_client =
  ec_total :: int
  ec_sent :: int
  ec_received :: int
  ec_has_conn :: bool
  ec_poll_stopped :: bool

definition echo_client_new :: "int \<Rightarrow> echo_client" where
  "echo_client_new n = \<lparr>ec_total = n, ec_sent = 0, ec_received = 0, ec_has_conn = False,
     ec_poll_stopped = False\<rparr>"

definition ec_stop :: "int \<Rightarrow> echo_client \<Rightarrow> echo_client" where
  "ec_stop err s = s\<lparr>ec_poll_stopped := True\<rparr>"

definition ec_base :: "echo_client user_cb" where
  "ec_base = closing_user_cb ec_stop ec_stop"

text \<open>\<open>std::to_string\<close>, and the text of message number \<open>n\<close>.\<close>

fun digits :: "nat \<Rightarrow> string" where
  "digits n = (if n < 10 then [char_of (48 + n)] else digits (n div 10) @ [char_of (48 + n mod 10)])"

definition ec_message :: "int \<Rightarrow> byte list" where
  "ec_message n = bytes (''Message'' @ digits (nat n) @ '' '')"

definition ec_send_next :: "echo_client cw \<Rightarrow> echo_client cw result" where
  "ec_send_next w =
     (if ec_total (app w) \<le> ec_sent (app w) \<or> \<not> ec_has_conn (app w) \<or> c_state w \<noteq> kConnected then Inr w
      else andthen (send ec_base (Some (ec_message (ec_sent (app w) + 1))) w)
             (\<lambda>w1. Inr (with_app (\<lambda>s. s\<lparr>ec_sent := ec_sent s + 1\<rparr>) w1)))"

definition ec_on_message :: "echo_client cw \<Rightarrow> echo_client cw result" where
  "ec_on_message w =
     andthen (message_text w) (\<lambda>msg.
     andthen (consume (with_app (\<lambda>s. s\<lparr>ec_received := ec_received s + 1\<rparr>) w)) (\<lambda>w1.
       if ec_total (app w1) \<le> ec_received (app w1)
       then (if ec_has_conn (app w1) then shutdown w1 else Inr w1)
       else ec_send_next w1))"

definition ec_on_connected :: "echo_client cw \<Rightarrow> echo_client cw result" where
  "ec_on_connected w = ec_send_next (install_callbacks w)"

definition ec_cb :: "echo_client user_cb" where
  "ec_cb = ec_base\<lparr>u_message := ec_on_message, u_connected := ec_on_connected\<rparr>"

text \<open>
  \<open>connect()\<close>: the client makes a connection object and has it connect; from the main thread that
  posts the attempt to the poll.
\<close>

definition renew_conn :: "'a cw \<Rightarrow> 'a cw" where
  "renew_conn w = conn.extend (Conn_new invalid_socket) (conn.more w)"

definition ec_connect :: "string \<Rightarrow> uint16 \<Rightarrow> echo_client cw \<Rightarrow> echo_client cw result" where
  "ec_connect addr port w =
     Conn_connect ec_cb addr port True True (with_app (\<lambda>s. s\<lparr>ec_has_conn := True\<rparr>) (renew_conn w))"

section \<open>The HTTP client and the file client\<close>

record request_client =
  rc_addr :: "byte list"
  rc_pending :: "byte list"
  rc_has_conn :: bool
  rc_poll_stopped :: bool

definition rc_on_close :: "int \<Rightarrow> request_client \<Rightarrow> request_client" where
  "rc_on_close err s = s\<lparr>rc_has_conn := False, rc_poll_stopped := True\<rparr>"

definition rc_on_error :: "int \<Rightarrow> request_client \<Rightarrow> request_client" where
  "rc_on_error err s = s\<lparr>rc_poll_stopped := True\<rparr>"

definition rc_base :: "request_client user_cb" where
  "rc_base = closing_user_cb rc_on_close rc_on_error"

definition http_request :: "byte list \<Rightarrow> byte list" where
  "http_request addr = bytes ''GET / HTTP/1.1'' @ crlf @ bytes ''Host: '' @ addr @ crlf @ bytes ''Connection: close'' @ crlf @ crlf"

text \<open>\<open>HttpClient::onMessage\<close> does not check \<open>conn_\<close>; \<open>FileClient::onMessage\<close> calls \<open>disconnect()\<close>, which does.\<close>

definition http_client_on_message :: "request_client cw \<Rightarrow> request_client cw result" where
  "http_client_on_message w =
     andthen (message_text w) (\<lambda>response. andthen (consume w) (\<lambda>w1.
       if rc_has_conn (app w1) then shutdown w1 else Inl Null_deref))"

definition http_client_on_connected :: "request_client cw \<Rightarrow> request_client cw result" where
  "http_client_on_connected w = send rc_base (Some (http_request (rc_addr (app w)))) (install_callbacks w)"

definition http_client_cb :: "request_client user_cb" where
  "http_client_cb = rc_base\<lparr>u_message := http_client_on_message, u_connected := http_client_on_connected\<rparr>"

definition rc_disconnect :: "request_client cw \<Rightarrow> request_client cw result" where
  "rc_disconnect w = (if rc_has_conn (app w) then shutdown w else Inr w)"

definition file_client_on_message :: "request_client cw \<Rightarrow> request_client cw result" where
  "file_client_on_message w = andthen (message_text w) (\<lambda>response. andthen (consume w) rc_disconnect)"

text \<open>The pending request is sent through \<open>conn_\<close>, which is set while the connected callback runs.\<close>

definition file_client_on_connected :: "request_client cw \<Rightarrow> request_client cw result" where
  "file_client_on_connected w =
     (let w1 = install_callbacks w in
      if rc_pending (app w1) \<noteq> [] then
        (if rc_has_conn (app w1)
         then andthen (send rc_base (Some (rc_pending (app w1))) w1) (\<lambda>w2. Inr (with_app (\<lambda>s. s\<lparr>rc_pending := []\<rparr>) w2))
         else Inl Null_deref)
      else Inr w1)"

definition file_client_cb :: "request_client user_cb" where
  "file_client_cb = rc_base\<lparr>u_message := file_client_on_message, u_connected := file_client_on_connected\<rparr>"

definition file_request :: "byte list \<Rightarrow> byte list" where
  "file_request filename = bytes ''GET '' @ filename"

text \<open>\<open>requestFile\<close>, called by the main thread.\<close>

definition request_file :: "byte list \<Rightarrow> request_client cw \<Rightarrow> request_client cw result" where
  "request_file filename w =
     (if rc_has_conn (app w) \<and> c_state w = kConnected
      then on_other_thread (send rc_base (Some (file_request filename))) w
      else Inr (with_app (\<lambda>s. s\<lparr>rc_pending := file_request filename\<rparr>) w))"

definition rc_connect :: "request_client user_cb \<Rightarrow> string \<Rightarrow> uint16 \<Rightarrow> request_client cw \<Rightarrow> request_client cw result" where
  "rc_connect u addr port w =
     Conn_connect u addr port True True (with_app (\<lambda>s. s\<lparr>rc_has_conn := True\<rparr>) (renew_conn w))"

section \<open>The echo client keeps its counts\<close>

text \<open>
  The counters of the client are those of its callbacks: it has received as many messages as
  its message callback was called, and has sent one more, up to the total; the messages sent are
  numbered in order. While the connection is live, the total has not been reached.
\<close>

definition ec_inv :: "echo_client \<Rightarrow> bool \<Rightarrow> conn_event list \<Rightarrow> bool" where
  "ec_inv s c l \<longleftrightarrow> 0 < ec_total s \<and> ec_total s < 2 ^ 31 \<and> ec_has_conn s \<and> ec_received s = int (length (messages l)) \<and>
     ec_sent s = min (ec_total s) (ec_received s + 1) \<and>
     snd (stream l) = map Some (concat (map ec_message [1..ec_sent s])) \<and> (c \<longrightarrow> ec_received s < ec_total s)"

lemma owed_inert: "inert e \<Longrightarrow> snd (stream_step p e) = snd p"
  by (cases e) (simp_all add: stream_step_owed)

lemma owed_close: "snd (stream_step p (Ev_close err)) = snd p"
  by (simp add: stream_step_owed)

lemma ec_closing: "closing_program ec_cb ec_inv ec_stop ec_stop"
  by unfold_locales
     (auto simp: ec_cb_def ec_base_def ec_inv_def ec_stop_def owed_inert messages_inert owed_close)

lemma length_digits: "length (digits n) \<le> Suc n"
proof (induction n rule: digits.induct)
  case (1 n)
  show ?case
  proof (cases "n < 10")
    case False
    with 1 have "length (digits (n div 10)) \<le> Suc (n div 10)" by simp
    moreover have "Suc (Suc (n div 10)) \<le> Suc n" using False by (simp add: Suc_le_eq)
    ultimately show ?thesis using False by simp
  qed simp
qed

declare digits.simps [simp del]

lemma send_same_ec: "send ec_base = send ec_cb"
  by (rule send_base [OF same_closing_cleanup]) (simp add: same_closing_def ec_cb_def)

lemma ec_send_next_ok:
  assumes inv: "conn_inv w" and st: "live w" and out: "length (out_cells w) \<le> 2 ^ 59"
    and n: "ec_sent (app w) < ec_total (app w)" "ec_has_conn (app w)" "ec_total (app w) < 2 ^ 31"
    and I: "ec_inv ((app w)\<lparr>ec_sent := ec_sent (app w) + 1\<rparr>) True (log w @ [Ev_queued (ec_message (ec_sent (app w) + 1))])"
  shows "\<exists>w'. ec_send_next w = Inr w' \<and> conn_inv w' \<and> follows w w' \<and> ec_inv (app w') (live w') (log w') \<and>
           read_buffer w' = read_buffer w \<and> queued_work w' = queued_work w \<and> has_message_func w' = has_message_func w \<and> flows w w'"
proof -
  let ?k = "\<lambda>s. s\<lparr>ec_sent := ec_sent s + 1\<rparr>" and ?m = "ec_message (ec_sent (app w) + 1)"
  have P: "closing_program ec_cb (\<lambda>s. ec_inv (?k s)) ec_stop ec_stop"
    by (rule closing_program.shifted_program [OF ec_closing]) (simp add: ec_stop_def)
  have "length ?m \<le> 2 ^ 32" using length_digits [of "nat (ec_sent (app w) + 1)"] n by (simp add: ec_message_def)
  then have room: "has_room ?m w" using out by (simp add: has_room_def)
  have "?m \<noteq> []" by (simp add: ec_message_def bytes_def)
  with closing_program.send_keeps [OF P inv st room] I st obtain w1 where
    1: "send ec_cb (Some ?m) w = Inr w1" "conn_inv w1" "follows w w1" "ec_inv (?k (app w1)) (live w1) (log w1)"
       "read_buffer w1 = read_buffer w" "queued_work w1 = queued_work w" "has_message_func w1 = has_message_func w" "flows w w1" by auto
  note A = alike_inv [OF alike_with_app [of w1 ?k]]
  have "ec_send_next w = Inr (with_app ?k w1)" using n st 1(1) by (simp add: ec_send_next_def send_same_ec)
  with 1 A follows_trans [OF 1(3) A(3)] flows_trans [OF 1(8) flows_with_app(1)] show ?thesis by simp
qed

lemma ec_on_message_ok:
  assumes w: "conn_inv w" "live w" "roomy w" "in_cells w = map Some xs" "xs \<noteq> []"
    and l: "log w = l @ [Ev_message (map Some xs)]" and I: "ec_inv (app w) True l"
  shows "\<exists>w'. ec_on_message w = Inr w' \<and> answered ec_inv w w'"
proof -
  let ?k = "\<lambda>s. s\<lparr>ec_received := ec_received s + 1\<rparr>"
  let ?v = "with_app ?k w"
  note A = alike_inv [OF alike_with_app [of w ?k]]
  from in_cells_buffer [OF w(4,5)] obtain b where "read_buffer ?v = Some b" by auto
  from consume_ok [OF _ this] A w(1) obtain b' where
    1: "consume ?v = Inr (?v\<lparr>read_buffer := Some b'\<rparr>)" "contents b' = []" "conn_inv (?v\<lparr>read_buffer := Some b'\<rparr>)"
       "follows ?v (?v\<lparr>read_buffer := Some b'\<rparr>)" by auto
  let ?w1 = "?v\<lparr>read_buffer := Some b'\<rparr>"
  note F = follows_trans [OF A(3) 1(4)] and G = flows_trans [OF flows_with_app(1) [of w ?k] flows_with_app(2) [of ?v "Some b'"]]
  have f: "app ?w1 = ?k (app w)" "log ?w1 = log w" "live ?w1" "queued_work ?w1 = queued_work w" "has_message_func ?w1 = has_message_func w"
    "length (out_cells ?w1) \<le> 2 ^ 59" using w alike_cells(3) [OF alike_with_app [of w ?k]] by (simp_all add: roomy_def)
  show ?thesis
  proof (cases "ec_total (app w) \<le> ec_received (app w) + 1")
    case True
    have "ec_inv (app ?w1) False (log ?w1)" using I True l by (auto simp: ec_inv_def f stream_step_owed)
    from closing_program.shutdown_keeps [OF closing_program.leaving_program [OF ec_closing] 1(3) this] obtain w2 where
      2: "shutdown ?w1 = Inr w2" "conn_inv w2" "follows ?w1 w2" "ec_inv (app w2) False (log w2)" "read_buffer w2 = Some b'"
         "queued_work w2 = queued_work ?w1" "has_message_func w2 = has_message_func ?w1" "\<not> live w2" "flows ?w1 w2" by auto
    have "ec_on_message w = Inr w2"
      using message_text_ok [OF w(1,4,5)] 1(1) 2(1) f True I by (simp add: ec_on_message_def ec_inv_def)
    with 2 1(2) f(4,5) follows_trans [OF F 2(3)] flows_trans [OF G] show ?thesis by (simp add: answered_def in_cells_def)
  next
    case False
    have r: "ec_sent (app w) = ec_received (app w) + 1" "0 \<le> ec_received (app w)" using I False by (auto simp: ec_inv_def)
    have "[1..ec_sent (app w) + 1] = [1..ec_sent (app w)] @ [ec_sent (app w) + 1]" using r by (simp add: upto_rec2)
    then have "ec_inv ((app ?w1)\<lparr>ec_sent := ec_sent (app ?w1) + 1\<rparr>) True (log ?w1 @ [Ev_queued (ec_message (ec_sent (app ?w1) + 1))])"
      using I False l r stream_snoc [of "log w"] messages_snoc [of "log w"] by (auto simp: ec_inv_def f stream_step_owed)
    from ec_send_next_ok [OF 1(3) f(3,6) _ _ _ this] I False f(1) r obtain w2 where
      2: "ec_send_next ?w1 = Inr w2" "conn_inv w2" "follows ?w1 w2" "ec_inv (app w2) (live w2) (log w2)" "read_buffer w2 = Some b'"
         "queued_work w2 = queued_work ?w1" "has_message_func w2 = has_message_func ?w1" "flows ?w1 w2" by (auto simp: ec_inv_def)
    have "ec_on_message w = Inr w2"
      using message_text_ok [OF w(1,4,5)] 1(1) 2(1) f(1) False by (simp add: ec_on_message_def)
    with 2 1(2) f(4,5) follows_trans [OF F 2(3)] flows_trans [OF G] show ?thesis by (simp add: answered_def in_cells_def)
  qed
qed

interpretation ec: message_program ec_cb ec_inv ec_stop ec_stop "(=)"
proof (intro program_parts)
  show "closing_program ec_cb ec_inv ec_stop ec_stop" by (rule ec_closing)
  show "\<exists>w'. u_message ec_cb w = Inr w' \<and> answered ec_inv w w'"
    if "conn_inv w" "live w" "roomy w" "in_cells w = map Some xs" "xs \<noteq> []"
       "log w = l @ [Ev_message (map Some xs)]" "ec_inv (app w) True l" for w xs l
    using ec_on_message_ok [OF that] by (simp add: ec_cb_def)
qed simp

text \<open>What the streams are after the first output of a connected callback.\<close>

lemma first_output:
  "stream (l @ [Ev_started [], Ev_connected, Ev_queued m]) = ([], map Some m)"
  "messages (l @ [Ev_started [], Ev_connected, Ev_queued m]) = []"
  using stream_snoc [of "l @ [Ev_started [], Ev_connected]"] stream_snoc [of "l @ [Ev_started []]"]
  by (cases "stream l"; simp add: messages_def)+

lemma ec_connects:
  assumes d: "dialing w" and ok: "0 \<le> fst (so_answer w)" "snd (so_answer w) = 0"
    and a: "app w = (echo_client_new n)\<lparr>ec_has_conn := True\<rparr>" "0 < n" "n < 2 ^ 31"
  shows "\<exists>w1. handle_connect_event ec_cb w = Inr w1 \<and> session ec_inv w1 \<and> begun w w1"
proof -
  from connect_event_starts [OF d ok, of ec_cb] obtain v where
    1: "just_started w v" "handle_connect_event ec_cb w = ec_on_connected (emit Ev_connected v)" by (auto simp: ec_cb_def)
  let ?v = "install_callbacks (emit Ev_connected v)"
  from connected_session [OF 1(1), of "\<lambda>_ _ _. True" "\<lambda>s. s"] have s: "session (\<lambda>_ _ _. True) ?v" by simp
  have f: "live ?v" "out_cells ?v = []" "app ?v = app w" "log ?v = log w @ [Ev_started [], Ev_connected]"
    using 1(1) by (simp_all add: just_started_def)
  note G = first_output [of "log w"]
  have "ec_inv ((app ?v)\<lparr>ec_sent := ec_sent (app ?v) + 1\<rparr>) True (log ?v @ [Ev_queued (ec_message (ec_sent (app ?v) + 1))])"
    using a 1(1) G by (simp add: ec_inv_def just_started_def echo_client_new_def)
  with ec_send_next_ok [of ?v] s f a obtain w1 where
    w1: "ec_send_next ?v = Inr w1" "conn_inv w1" "follows ?v w1" "ec_inv (app w1) (live w1) (log w1)"
        "read_buffer w1 = read_buffer ?v" "queued_work w1 = queued_work ?v" "has_message_func w1" "flows ?v w1"
    by (auto simp: session_def echo_client_new_def)
  moreover have "session ec_inv w1"
    using s w1 followsD(9) [OF w1(3)] follows_up [OF w1(3)] by (auto simp: session_def kept_def in_cells_def)
  moreover have "begun w w1" using begun_flows [OF connected_begun [OF 1(1), of "\<lambda>s. s"]] w1(8) by simp
  ultimately show ?thesis using 1(2) by (simp add: ec_on_connected_def)
qed

text \<open>
  C19. The echo client. Once connected, and whatever happens afterwards, the client has sent its
  numbered messages in order, one more than its message callback was called until the total is
  reached, and nothing else; after as many calls as the total it has shut the connection down. It
  counts calls of the callback: a reply that arrives in two pieces counts as two.
\<close>

theorem echo_client_exact:
  assumes "dialing w0" and "0 \<le> fst (so_answer w0)" "snd (so_answer w0) = 0"
    and "app w0 = (echo_client_new n)\<lparr>ec_has_conn := True\<rparr>" "0 < n" "n < 2 ^ 31"
  shows "\<exists>w1. handle_connect_event ec_cb w0 = Inr w1 \<and>
     (\<forall>w. serve_reachable ec_cb (=) w1 w \<longrightarrow>
        (let calls = int (length (messages (log w)))
         in owed_cells w = map Some (concat (map ec_message [1..min (ec_total (app w)) (calls + 1)])) \<and>
            ec_received (app w) = calls \<and> (live w \<longrightarrow> calls < ec_total (app w))))"
proof -
  from ec_connects [OF assms] obtain w1 where 1: "handle_connect_event ec_cb w0 = Inr w1" "session ec_inv w1" by blast
  have "let calls = int (length (messages (log w)))
        in owed_cells w = map Some (concat (map ec_message [1..min (ec_total (app w)) (calls + 1)])) \<and>
           ec_received (app w) = calls \<and> (live w \<longrightarrow> calls < ec_total (app w))"
    if "serve_reachable ec_cb (=) w1 w" for w
    using session_streams(4) [OF ec.session_reachable [OF 1(2) that]] by (auto simp: ec_inv_def owed_cells_def Let_def)
  with 1(1) show ?thesis by blast
qed

lemma dialing_with_dialing: "dialing (dialing_with a)"
  using dialing_with_inv [of a]
  by (simp add: dialing_def dialing_with_def conn.defs cw.defs in_cells_def queued_work_def Conn_new_def)

lemma dialing_with_fields: "fst (so_answer (dialing_with a)) = 0" "snd (so_answer (dialing_with a)) = 0" "app (dialing_with a) = a"
  by (simp_all add: dialing_with_def conn.defs cw.defs)

theorem echo_client_exact_witness:
  "\<exists>w1. handle_connect_event ec_cb (dialing_with ((echo_client_new 5)\<lparr>ec_has_conn := True\<rparr>)) = Inr w1 \<and>
     ec_received (app w1) = int (length (messages (log w1)))"
proof -
  let ?w0 = "dialing_with ((echo_client_new 5)\<lparr>ec_has_conn := True\<rparr>)"
  from echo_client_exact [OF dialing_with_dialing, of "(echo_client_new 5)\<lparr>ec_has_conn := True\<rparr>" 5] obtain w1 where
    w1: "handle_connect_event ec_cb ?w0 = Inr w1"
        "serve_reachable ec_cb (=) w1 w1 \<longrightarrow> ec_received (app w1) = int (length (messages (log w1)))"
    by (auto simp: dialing_with_fields Let_def)
  then show ?thesis using serve_reachable.initially [of ec_cb "(=)" w1] by blast
qed

section \<open>The request clients read once\<close>

definition rc_inv :: "byte list \<Rightarrow> request_client \<Rightarrow> bool \<Rightarrow> conn_event list \<Rightarrow> bool" where
  "rc_inv request s c l \<longleftrightarrow> reply_once request (\<lambda>_. []) s c l \<and> (c \<longrightarrow> rc_has_conn s)"

lemma rc_closing:
  assumes "same_closing u rc_base" and "u_connect_error u = u_connect_error rc_base"
  shows "closing_program u (rc_inv request) rc_on_close rc_on_error"
  using assms by unfold_locales
    (auto simp: same_closing_def rc_base_def rc_inv_def reply_once_def replies_inert replies_close messages_inert)

lemma rc_programs:
  "closing_program http_client_cb (rc_inv request) rc_on_close rc_on_error"
  "closing_program file_client_cb (rc_inv request) rc_on_close rc_on_error"
  by (rule rc_closing; simp add: same_closing_def http_client_cb_def file_client_cb_def)+

lemma send_same_rc: "send rc_base = send http_client_cb" "send rc_base = send file_client_cb"
  by (rule send_base [OF same_closing_cleanup]; simp add: same_closing_def http_client_cb_def file_client_cb_def)+

lemma rc_take:
  assumes P: "closing_program u (rc_inv g) rc_on_close rc_on_error"
    and w: "conn_inv w" "live w" "roomy w" "in_cells w = map Some xs" "xs \<noteq> []"
    and l: "log w = l @ [Ev_message (map Some xs)]" "rc_inv g (app w) True l"
  shows "\<exists>w1 w'. message_text w = Inr xs \<and> consume w = Inr w1 \<and> rc_has_conn (app w1) \<and> shutdown w1 = Inr w' \<and>
           answered (rc_inv g) w w'"
proof -
  have "rc_inv g (app w) False (log w)"
    using l replies_message(1) [of g "\<lambda>_. []" l xs] by (auto simp: rc_inv_def reply_once_def)
  with closing_program.consume_send_shutdown [OF P w(1,2) _ in_cells_buffer [OF w(4,5)], of "[]"] w(3) obtain w' where
    w': "andthen (consume w) shutdown = Inr w'" "answered (rc_inv g) w w'"
    by (auto simp: send_def has_room_def roomy_def)
  from w'(1) obtain w1 where 1: "consume w = Inr w1" "shutdown w1 = Inr w'" by (auto simp: andthen_eq_Inr)
  then have "app w1 = app w" by (auto simp: consume_def andthen_eq_Inr split: option.splits)
  with 1 w' l message_text_ok [OF w(1,4,5)] show ?thesis by (auto simp: rc_inv_def)
qed

lemma http_client_program:
  "message_program http_client_cb (rc_inv request) rc_on_close rc_on_error (\<lambda>s s'. rc_has_conn s' = rc_has_conn s)"
proof (intro program_parts)
  show P: "closing_program http_client_cb (rc_inv request) rc_on_close rc_on_error" by (rule rc_programs)
  show "\<exists>w'. u_message http_client_cb w = Inr w' \<and> answered (rc_inv request) w w'"
    if "conn_inv w" "live w" "roomy w" "in_cells w = map Some xs" "xs \<noteq> []"
       "log w = l @ [Ev_message (map Some xs)]" "rc_inv request (app w) True l" for w xs l
    using rc_take [OF P that] by (auto simp: http_client_cb_def http_client_on_message_def)
qed (simp add: rc_inv_def reply_once_def)

lemma file_client_program:
  "message_program file_client_cb (rc_inv request) rc_on_close rc_on_error (\<lambda>s s'. rc_has_conn s' = rc_has_conn s)"
proof (intro program_parts)
  show P: "closing_program file_client_cb (rc_inv request) rc_on_close rc_on_error" by (rule rc_programs)
  show "\<exists>w'. u_message file_client_cb w = Inr w' \<and> answered (rc_inv request) w w'"
    if "conn_inv w" "live w" "roomy w" "in_cells w = map Some xs" "xs \<noteq> []"
       "log w = l @ [Ev_message (map Some xs)]" "rc_inv request (app w) True l" for w xs l
    using rc_take [OF P that] by (auto simp: file_client_cb_def file_client_on_message_def rc_disconnect_def)
qed (simp add: rc_inv_def reply_once_def)

lemma request_sent:
  assumes P: "closing_program u (rc_inv g) rc_on_close rc_on_error"
    and v: "just_started w v" and g: "g \<noteq> []" "length g \<le> 2 ^ 59" and c: "rc_has_conn (app w)"
  shows "\<exists>w1. send u (Some g) (install_callbacks (emit Ev_connected v)) = Inr w1 \<and> session (rc_inv g) w1 \<and> begun w w1"
proof -
  let ?v = "install_callbacks (emit Ev_connected v)"
  from connected_session [OF v, of "\<lambda>_ _ _. True" "\<lambda>s. s"] have s: "session (\<lambda>_ _ _. True) ?v" by simp
  then have i: "conn_inv ?v" by (simp add: session_def)
  note G = first_output [of "log w"]
  have "rc_inv g (app ?v) (live ?v) (log ?v @ [Ev_queued g])"
    using v c G by (simp add: rc_inv_def reply_once_def replies_def just_started_def)
  moreover have "live ?v" "has_room g ?v" using v g(2) by (simp_all add: just_started_def has_room_def)
  ultimately obtain w1 where
    w1: "send u (Some g) ?v = Inr w1" "conn_inv w1" "follows ?v w1" "rc_inv g (app w1) (live w1) (log w1)"
        "read_buffer w1 = read_buffer ?v" "queued_work w1 = queued_work ?v" "has_message_func w1" "flows ?v w1"
    using closing_program.send_keeps [OF P i, of g] g(1) by auto
  moreover have "session (rc_inv g) w1"
    using s w1 followsD(9) [OF w1(3)] follows_up [OF w1(3)] by (auto simp: session_def kept_def in_cells_def)
  moreover have "begun w w1" using begun_flows [OF connected_begun [OF v, of "\<lambda>s. s"]] w1(8) by simp
  ultimately show ?thesis by blast
qed

lemma rc_inv_answers: "session (rc_inv g) w \<Longrightarrow> answers_once g (\<lambda>_. []) w"
  by (rule reply_once_answers) (auto simp: session_def kept_def rc_inv_def)

abbreviation elsewhere_ok :: "request_client \<Rightarrow> request_client \<Rightarrow> bool" where
  "elsewhere_ok s s' \<equiv> rc_has_conn s' = rc_has_conn s"

lemma http_client_connects:
  assumes d: "dialing w0" "0 \<le> fst (so_answer w0)" "snd (so_answer w0) = 0" and c: "rc_has_conn (app w0)"
    and len: "length (rc_addr (app w0)) \<le> 2 ^ 58"
  shows "\<exists>w1. handle_connect_event http_client_cb w0 = Inr w1 \<and> session (rc_inv (http_request (rc_addr (app w0)))) w1 \<and> begun w0 w1"
proof -
  let ?h = "http_request (rc_addr (app w0))"
  from connect_event_starts [OF d, of http_client_cb] obtain v where
    v: "just_started w0 v" "handle_connect_event http_client_cb w0 = http_client_on_connected (emit Ev_connected v)"
    by (auto simp: http_client_cb_def)
  have "?h \<noteq> []" "length ?h \<le> 2 ^ 59" using len by (simp_all add: http_request_def crlf_def bytes_def)
  from request_sent [OF rc_programs(1) v(1) this c] v show ?thesis
    by (auto simp: http_client_on_connected_def send_same_rc(1) just_started_def)
qed

lemma file_client_connects:
  assumes d: "dialing w0" "0 \<le> fst (so_answer w0)" "snd (so_answer w0) = 0" and c: "rc_has_conn (app w0)"
    and len: "rc_pending (app w0) \<noteq> []" "length (rc_pending (app w0)) \<le> 2 ^ 59"
  shows "\<exists>w1. handle_connect_event file_client_cb w0 = Inr w1 \<and> rc_pending (app w1) = [] \<and>
     session (rc_inv (rc_pending (app w0))) w1 \<and> begun w0 w1"
proof -
  let ?p = "rc_pending (app w0)"
  from connect_event_starts [OF d, of file_client_cb] obtain v where
    v: "just_started w0 v" "handle_connect_event file_client_cb w0 = file_client_on_connected (emit Ev_connected v)"
    by (auto simp: file_client_cb_def)
  from request_sent [OF rc_programs(2) v(1) len c] obtain w2 where
    2: "send file_client_cb (Some ?p) (install_callbacks (emit Ev_connected v)) = Inr w2" "session (rc_inv ?p) w2" "begun w0 w2" by blast
  let ?w = "with_app (\<lambda>s. s\<lparr>rc_pending := []\<rparr>) w2"
  have "session (rc_inv ?p) ?w"
    by (rule session_with_app [OF 2(2)]) (use 2(2) in \<open>auto simp: session_def kept_def rc_inv_def reply_once_def\<close>)
  moreover have "handle_connect_event file_client_cb w0 = Inr ?w"
    using v 2(1) len(1) c by (auto simp: file_client_on_connected_def send_same_rc(2) just_started_def Let_def)
  ultimately show ?thesis using begun_flows [OF 2(3) flows_with_app(1)] by (intro exI [of _ ?w]) simp
qed

lemma http_client_once:
  assumes "session (rc_inv g) w1" and "serve_reachable http_client_cb elsewhere_ok w1 w"
  shows "answers_once g (\<lambda>_. []) w"
  using message_program.session_reachable [OF http_client_program assms] by (rule rc_inv_answers)

lemma file_client_once:
  assumes "session (rc_inv g) w1" and "serve_reachable file_client_cb elsewhere_ok w1 w"
  shows "answers_once g (\<lambda>_. []) w"
  using message_program.session_reachable [OF file_client_program assms] by (rule rc_inv_answers)

text \<open>A request made before the connection is up waits for it, replacing one that waits already.\<close>

lemma request_file_waits_or_posts:
  "request_file name w = Inr (if rc_has_conn (app w) \<and> live w then post (Task_send (file_request name)) w
     else with_app (\<lambda>s. s\<lparr>rc_pending := file_request name\<rparr>) w)"
proof -
  have "file_request name \<noteq> []" by (simp add: file_request_def bytes_def)
  then show ?thesis using remote_send [of w "file_request name" rc_base] by (simp add: request_file_def)
qed

text \<open>
  The HTTP client and the file client read once. Once connected, the client sends its request
  and nothing else; the bytes that arrive first, however few of the response they are, are the
  only ones it is ever given: it shuts the connection down, and what comes later is not read.
\<close>

lemma request_clients_read_once:
  assumes "dialing w0" "0 \<le> fst (so_answer w0)" "snd (so_answer w0) = 0" and "rc_has_conn (app w0)"
    and "length (rc_addr (app w0)) \<le> 2 ^ 58" "rc_pending (app w0) \<noteq> []" "length (rc_pending (app w0)) \<le> 2 ^ 59"
  shows "(\<exists>w1. handle_connect_event http_client_cb w0 = Inr w1 \<and>
       (\<forall>w. serve_reachable http_client_cb elsewhere_ok w1 w \<longrightarrow> answers_once (http_request (rc_addr (app w0))) (\<lambda>_. []) w)) \<and>
     (\<exists>w1. handle_connect_event file_client_cb w0 = Inr w1 \<and> rc_pending (app w1) = [] \<and>
       (\<forall>w. serve_reachable file_client_cb elsewhere_ok w1 w \<longrightarrow> answers_once (rc_pending (app w0)) (\<lambda>_. []) w))"
  using http_client_connects [OF assms(1-5)] file_client_connects [OF assms(1-4,6,7)] http_client_once file_client_once
  by blast

text \<open>
  The request of the file client and how the file server reads it. The server opens the name
  up to its first space or line break; so it opens the file the client asked for exactly when
  the name has neither.
\<close>

lemma file_request_roundtrip:
  "requested_file (file_request f) = Some (takeWhile (\<lambda>c. c \<noteq> 13 \<and> c \<noteq> 10 \<and> c \<noteq> 32) f) \<and>
   (requested_file (file_request f) = Some f \<longleftrightarrow> 13 \<notin> set f \<and> 10 \<notin> set f \<and> 32 \<notin> set f)"
proof -
  have "requested_file (file_request f) = Some (takeWhile (\<lambda>c. c \<noteq> 13 \<and> c \<noteq> 10 \<and> c \<noteq> 32) f)"
    by (simp add: requested_file_def file_request_def bytes_def)
  then show ?thesis by (auto simp: takeWhile_eq_all_conv)
qed

end
