(* ===== verification/App_Threads.thy ===== *)
theory App_Threads
  imports App_Clients
begin

text \<open>
  The clients that are used from two threads: tcp_client and chat_client under src/examples, whose
  classes have the same members. The main thread reads lines and calls \<open>send\<close>, the poll thread runs
  the connection.

  The methods are defined on the world of the connection. How the two threads interleave is a
  step relation, with the mutex, the tests of \<open>connected()\<close> that are made outside of any common
  critical section, and the queue of closures of the poll; and so is the race between
  \<open>connect()\<close> and the start of the poll's loop.
\<close>

section \<open>The methods\<close>

record tcp_client =
  tc_pending :: "byte list list"
  tc_has_conn :: bool
  tc_poll_stopped :: bool

definition tc_stop :: "int \<Rightarrow> tcp_client \<Rightarrow> tcp_client" where
  "tc_stop err s = s\<lparr>tc_poll_stopped := True\<rparr>"

definition tc_base :: "tcp_client user_cb" where
  "tc_base = closing_user_cb tc_stop tc_stop"

text \<open>\<open>send\<close>, called by the main thread.\<close>

definition tc_send :: "byte list \<Rightarrow> tcp_client cw \<Rightarrow> tcp_client cw result" where
  "tc_send msg w =
     (if tc_has_conn (app w) \<and> c_state w = kConnected then on_other_thread (send tc_base (Some msg)) w
      else Inr (with_app (\<lambda>s. s\<lparr>tc_pending := tc_pending s @ [msg]\<rparr>) w))"

fun flush_loop :: "byte list list \<Rightarrow> tcp_client cw \<Rightarrow> tcp_client cw result" where
  "flush_loop [] w = Inr w"
| "flush_loop (msg # msgs) w =
     andthen (if tc_has_conn (app w) \<and> c_state w = kConnected then send tc_base (Some msg) w else Inr w) (flush_loop msgs)"

definition tc_flush_pending :: "tcp_client cw \<Rightarrow> tcp_client cw result" where
  "tc_flush_pending w = flush_loop (tc_pending (app w)) (with_app (\<lambda>s. s\<lparr>tc_pending := []\<rparr>) w)"

definition tc_on_message :: "tcp_client cw \<Rightarrow> tcp_client cw result" where
  "tc_on_message w = andthen (message_text w) (\<lambda>msg. consume w)"

definition tc_on_connected :: "tcp_client cw \<Rightarrow> tcp_client cw result" where
  "tc_on_connected w = tc_flush_pending (install_callbacks w)"

definition tc_cb :: "tcp_client user_cb" where
  "tc_cb = tc_base\<lparr>u_message := tc_on_message, u_connected := tc_on_connected\<rparr>"

definition tc_connect :: "string \<Rightarrow> uint16 \<Rightarrow> tcp_client cw \<Rightarrow> tcp_client cw result" where
  "tc_connect addr port w =
     Conn_connect tc_cb addr port True True (with_app (\<lambda>s. s\<lparr>tc_has_conn := True\<rparr>) (renew_conn w))"

definition tc_disconnect :: "tcp_client cw \<Rightarrow> tcp_client cw result" where
  "tc_disconnect w = (if tc_has_conn (app w) then on_other_thread shutdown w else Inr w)"

text \<open>
  The loops of the two \<open>main\<close> functions over the lines of the standard input: the messages given to
  \<open>send\<close>, and whether \<open>disconnect\<close> is called. chat_client first sends a name; when there is no line to
  read, the string is empty.
\<close>

fun read_lines :: "byte list list \<Rightarrow> byte list list \<times> bool" where
  "read_lines [] = ([], False)"
| "read_lines (line # lines) =
     (if line = bytes ''quit'' then ([], True)
      else case read_lines lines of (msgs, quit) \<Rightarrow> (line # msgs, quit))"

definition tcp_client_input :: "byte list list \<Rightarrow> byte list list \<times> bool" where
  "tcp_client_input lines = read_lines lines"

definition chat_client_input :: "byte list list \<Rightarrow> byte list list \<times> bool" where
  "chat_client_input lines =
     (let name = (case lines of [] \<Rightarrow> [] | line # _ \<Rightarrow> line); (msgs, quit) = read_lines (drop 1 lines)
      in ((bytes ''Name: '' @ name) # msgs, quit))"

text \<open>At the end of the input without a \<open>quit\<close>, the connection is left open.\<close>

lemma read_lines_spec: "read_lines lines = (takeWhile (\<lambda>l. l \<noteq> bytes ''quit'') lines, bytes ''quit'' \<in> set lines)"
  by (induction lines) auto

section \<open>Taking over the pending messages\<close>

text \<open>One message: it is appended to the output, and the client's \<open>conn_\<close> stays set.\<close>

lemma tc_send_one:
  assumes inv: "conn_inv w" and st: "live w" and room: "length (owed_cells w) + length m \<le> 2 ^ 60" and c: "tc_has_conn (app w)"
  shows "\<exists>w'. send tc_base (Some m) w = Inr w' \<and> conn_inv w' \<and> owed_cells w' = owed_cells w @ map Some m \<and> tc_has_conn (app w')"
proof -
  from inv st have "is_up w" using open_channelI [OF conn_invD(1) [OF inv]] by (auto simp: is_up_def open_channel_def)
  with inv have "owed_cells w = sent_cells w @ out_cells w" by (simp add: conn_inv_def stream_inv_def)
  then have "length (out_cells w) \<le> length (owed_cells w)" by simp
  with room have r: "has_room m w" by (simp add: has_room_def)
  let ?I = "\<lambda>s (_ :: bool) l. snd (stream l) = owed_cells w @ map Some m \<and> tc_has_conn s"
  have P: "closing_program tc_base ?I tc_stop tc_stop"
    by unfold_locales (auto simp: tc_base_def tc_stop_def owed_inert owed_close)
  have "snd (stream (log w @ [Ev_queued m])) = owed_cells w @ map Some m" by (simp add: stream_step_owed owed_cells_def)
  with closing_program.send_keeps [OF P inv st r] c show ?thesis by (auto simp: owed_cells_def)
qed

lemma flush_loop_ok:
  assumes "conn_inv w" and "tc_has_conn (app w)" and "length (owed_cells w) + length (concat ms) \<le> 2 ^ 60"
  shows "\<exists>w' k. flush_loop ms w = Inr w' \<and> conn_inv w' \<and> k \<le> length ms \<and>
           owed_cells w' = owed_cells w @ map Some (concat (take k ms)) \<and> (live w' \<longrightarrow> k = length ms)"
  using assms
proof (induction ms arbitrary: w)
  case Nil
  then show ?case by auto
next
  case (Cons m ms)
  show ?case
  proof (cases "live w")
    case True
    from tc_send_one [OF Cons.prems(1) True _ Cons.prems(2), of m] Cons.prems(3) obtain w1 where
      1: "send tc_base (Some m) w = Inr w1" "conn_inv w1" "owed_cells w1 = owed_cells w @ map Some m" "tc_has_conn (app w1)" by auto
    from Cons.IH [OF 1(2,4)] 1(3) Cons.prems(3) obtain w' k where
      "flush_loop ms w1 = Inr w'" "conn_inv w'" "k \<le> length ms" "owed_cells w' = owed_cells w1 @ map Some (concat (take k ms))"
      "live w' \<longrightarrow> k = length ms" by auto
    with 1 True Cons.prems(2) show ?thesis by (intro exI [of _ w'] exI [of _ "Suc k"]) simp
  next
    case False
    have "flush_loop ms w = Inr w" for ms using False by (induction ms) simp_all
    with False Cons.prems(1) show ?thesis by (intro exI [of _ w] exI [of _ 0]) simp
  qed
qed

text \<open>
  A call of \<open>send\<close> adds one message: to the poll's queue when the connection is up, to the pending
  messages otherwise. Taking these over leaves none pending.
\<close>

lemma tc_send_adds:
  assumes "msg \<noteq> []"
  shows "tc_send msg w = Inr (if tc_has_conn (app w) \<and> live w then post (Task_send msg) w
     else with_app (\<lambda>s. s\<lparr>tc_pending := tc_pending s @ [msg]\<rparr>) w)"
  using assms remote_send [of w msg tc_base] by (simp add: tc_send_def)

section \<open>Two threads\<close>

text \<open>
  Where the main thread is in \<open>send\<close>: waiting for the mutex, holding it before and after the test of
  \<open>connected()\<close>, about to release it. Where the poll thread is: the connection attempt is under way; the
  connected callback is before its critical section, or sends what it took over; the loop runs
  the closures; the connection is closed.
\<close>

datatype main_pc = M_idle | M_lock "byte list" | M_test "byte list" | M_tested "byte list" bool | M_unlock

datatype poll_pc = P_dialing | P_swap | P_flush | P_loop | P_closed

text \<open>
  \<open>posted\<close> are the sends in the poll's queue, \<open>wire\<close> the messages the connection accepted for output,
  \<open>said\<close> the messages \<open>send\<close> was called with.
\<close>

record talk =
  main_at :: main_pc
  poll_at :: poll_pc
  held :: bool
  up :: bool
  pending :: "byte list list"
  taken :: "byte list list"
  posted :: "byte list list"
  wire :: "byte list list"
  said :: "byte list list"

definition talk_init :: talk where
  "talk_init = \<lparr>main_at = M_idle, poll_at = P_dialing, held = False, up = False, pending = [], taken = [],
     posted = [], wire = [], said = []\<rparr>"

inductive talk_step :: "talk \<Rightarrow> talk \<Rightarrow> bool" where
  call: "main_at s = M_idle \<Longrightarrow> talk_step s (s\<lparr>main_at := M_lock m, said := said s @ [m]\<rparr>)"
| lock: "main_at s = M_lock m \<Longrightarrow> \<not> held s \<Longrightarrow> talk_step s (s\<lparr>main_at := M_test m, held := True\<rparr>)"
| test: "main_at s = M_test m \<Longrightarrow> talk_step s (s\<lparr>main_at := M_tested m (up s)\<rparr>)"
| post: "main_at s = M_tested m True \<Longrightarrow>
    talk_step s (s\<lparr>main_at := M_unlock, posted := (if up s then posted s @ [m] else posted s)\<rparr>)"
| push: "main_at s = M_tested m False \<Longrightarrow> talk_step s (s\<lparr>main_at := M_unlock, pending := pending s @ [m]\<rparr>)"
| unlock: "main_at s = M_unlock \<Longrightarrow> talk_step s (s\<lparr>main_at := M_idle, held := False\<rparr>)"
| connected: "poll_at s = P_dialing \<Longrightarrow> talk_step s (s\<lparr>poll_at := P_swap, up := True\<rparr>)"
| swap: "poll_at s = P_swap \<Longrightarrow> \<not> held s \<Longrightarrow> talk_step s (s\<lparr>poll_at := P_flush, taken := pending s, pending := []\<rparr>)"
| flush: "poll_at s = P_flush \<Longrightarrow> taken s = m # ms \<Longrightarrow>
    talk_step s (s\<lparr>taken := ms, wire := (if up s then wire s @ [m] else wire s)\<rparr>)"
| flushed: "poll_at s = P_flush \<Longrightarrow> taken s = [] \<Longrightarrow> talk_step s (s\<lparr>poll_at := P_loop\<rparr>)"
| run_posted: "poll_at s = P_loop \<Longrightarrow> posted s = m # ms \<Longrightarrow>
    talk_step s (s\<lparr>posted := ms, wire := (if up s then wire s @ [m] else wire s)\<rparr>)"
| closed: "poll_at s \<in> {P_flush, P_loop} \<Longrightarrow> talk_step s (s\<lparr>poll_at := P_closed, up := False\<rparr>)"
| refused: "poll_at s = P_dialing \<Longrightarrow> talk_step s (s\<lparr>poll_at := P_closed\<rparr>)"

inductive_cases talk_stepE: "talk_step s s'"

definition in_flight :: "talk \<Rightarrow> byte list list" where
  "in_flight s = (case main_at s of M_lock m \<Rightarrow> [m] | M_test m \<Rightarrow> [m] | M_tested m b \<Rightarrow> [m] | _ \<Rightarrow> [])"

text \<open>
  The state is consistent: the mutex is held inside \<open>send\<close> only; the flag \<open>up\<close> follows the poll
  thread; nothing is posted before the connection is up, nothing is pending once the pending messages were taken
  over. And every message is in exactly one place, the places in the order of the messages.
\<close>

definition talk_inv :: "talk \<Rightarrow> bool" where
  "talk_inv s \<longleftrightarrow>
     (held s \<longleftrightarrow> (case main_at s of M_idle \<Rightarrow> False | M_lock m \<Rightarrow> False | _ \<Rightarrow> True)) \<and>
     (up s \<longleftrightarrow> poll_at s \<in> {P_swap, P_flush, P_loop}) \<and>
     (poll_at s = P_dialing \<longrightarrow> posted s = [] \<and> (\<forall>m. main_at s \<noteq> M_tested m True)) \<and>
     (poll_at s \<in> {P_dialing, P_swap} \<longrightarrow> taken s = [] \<and> wire s = []) \<and>
     (poll_at s = P_swap \<longrightarrow> (\<exists>m. main_at s = M_tested m False) \<longrightarrow> posted s = []) \<and>
     (poll_at s \<in> {P_flush, P_loop} \<longrightarrow> pending s = [] \<and> (\<forall>m. main_at s \<noteq> M_tested m False)) \<and>
     (poll_at s = P_loop \<longrightarrow> taken s = []) \<and>
     (poll_at s \<noteq> P_closed \<longrightarrow> said s = wire s @ taken s @ pending s @ posted s @ in_flight s)"

inductive talk_reachable :: "talk \<Rightarrow> bool" where
  init: "talk_reachable talk_init"
| step: "talk_reachable s \<Longrightarrow> talk_step s s' \<Longrightarrow> talk_reachable s'"

lemma talk_inv_init: "talk_inv talk_init"
  by (simp add: talk_inv_def talk_init_def in_flight_def)

lemma talk_inv_step:
  assumes inv: "talk_inv s" and "talk_step s s'"
  shows "talk_inv s'"
  using assms(2)
proof cases
  case (test m)
  then show ?thesis using inv by (cases "poll_at s") (simp_all add: talk_inv_def in_flight_def)
next
  case (post m)
  then show ?thesis using inv by (cases "poll_at s") (simp_all add: talk_inv_def in_flight_def)
next
  case (push m)
  then show ?thesis using inv by (cases "poll_at s") (simp_all add: talk_inv_def in_flight_def)
next
  case swap
  then show ?thesis using inv by (cases "main_at s") (simp_all add: talk_inv_def in_flight_def)
qed (use inv in \<open>simp_all add: talk_inv_def in_flight_def\<close>)

lemma talk_reachable_inv: "talk_reachable s \<Longrightarrow> talk_inv s"
  by (induction rule: talk_reachable.induct) (auto intro: talk_inv_init talk_inv_step)

text \<open>What is left to do until every message is on the wire.\<close>

definition talk_work :: "talk \<Rightarrow> nat" where
  "talk_work s = (case main_at s of M_idle \<Rightarrow> 0 | M_unlock \<Rightarrow> 1 | M_tested m b \<Rightarrow> 6 | M_test m \<Rightarrow> 7 | M_lock m \<Rightarrow> 8) +
     (case poll_at s of P_dialing \<Rightarrow> 6 | P_swap \<Rightarrow> 4 | P_flush \<Rightarrow> 2 | _ \<Rightarrow> 0) +
     4 * length (pending s) + 2 * length (taken s) + 2 * length (posted s)"

definition settled_talk :: "talk \<Rightarrow> bool" where
  "settled_talk s \<longleftrightarrow> main_at s = M_idle \<and> poll_at s = P_loop \<and> posted s = []"

definition progresses :: "talk \<Rightarrow> bool" where
  "progresses s \<longleftrightarrow> (\<exists>s'. talk_step s s' \<and> said s' = said s \<and> poll_at s' \<noteq> P_closed \<and> talk_work s' < talk_work s)"

lemma progressesI:
  "talk_step s s' \<Longrightarrow> said s' = said s \<Longrightarrow> poll_at s' \<noteq> P_closed \<Longrightarrow> talk_work s' < talk_work s \<Longrightarrow> progresses s"
  unfolding progresses_def by blast

lemma main_progress:
  assumes inv: "talk_inv s" and busy: "main_at s \<noteq> M_idle" and alive: "poll_at s \<noteq> P_closed"
  shows "progresses s"
proof (cases "main_at s")
  case (M_lock m)
  then have "\<not> held s" using inv by (simp add: talk_inv_def)
  from progressesI [OF talk_step.lock [OF M_lock this]] M_lock alive show ?thesis by (simp add: talk_work_def)
next
  case (M_test m)
  from progressesI [OF talk_step.test [OF M_test]] M_test alive show ?thesis by (simp add: talk_work_def)
next
  case (M_tested m b)
  show ?thesis
  proof (cases b)
    case True
    from progressesI [OF talk_step.post] M_tested True alive show ?thesis by (simp add: talk_work_def)
  next
    case False
    from progressesI [OF talk_step.push] M_tested False alive show ?thesis by (simp add: talk_work_def)
  qed
next
  case M_unlock
  from progressesI [OF talk_step.unlock [OF M_unlock]] M_unlock alive show ?thesis by (simp add: talk_work_def)
qed (use busy in simp)

lemma poll_progress:
  assumes inv: "talk_inv s" and idle: "main_at s = M_idle" and alive: "poll_at s \<noteq> P_closed" and busy: "\<not> settled_talk s"
  shows "progresses s"
proof (cases "poll_at s")
  case P_dialing
  from progressesI [OF talk_step.connected [OF P_dialing]] P_dialing show ?thesis by (simp add: talk_work_def)
next
  case P_swap
  have "\<not> held s" "taken s = []" using inv idle P_swap by (simp_all add: talk_inv_def)
  with progressesI [OF talk_step.swap [OF P_swap]] P_swap show ?thesis by (simp add: talk_work_def)
next
  case P_flush
  show ?thesis
  proof (cases "taken s")
    case Nil
    from progressesI [OF talk_step.flushed [OF P_flush Nil]] P_flush Nil show ?thesis by (simp add: talk_work_def)
  next
    case (Cons m ms)
    from progressesI [OF talk_step.flush [OF P_flush Cons]] P_flush Cons show ?thesis by (simp add: talk_work_def)
  qed
next
  case P_loop
  with busy idle obtain m ms where p: "posted s = m # ms" by (cases "posted s") (auto simp: settled_talk_def)
  from progressesI [OF talk_step.run_posted [OF P_loop p]] P_loop p show ?thesis by (simp add: talk_work_def)
qed (use alive in simp)

lemma talk_settles:
  assumes "talk_inv s" and "poll_at s \<noteq> P_closed"
  shows "\<exists>s'. talk_step\<^sup>*\<^sup>* s s' \<and> said s' = said s \<and> settled_talk s' \<and> talk_inv s'"
  using assms
proof (induction "talk_work s" arbitrary: s rule: less_induct)
  case less
  show ?case
  proof (cases "settled_talk s")
    case False
    have "progresses s"
      using main_progress [OF less.prems(1) _ less.prems(2)] poll_progress [OF less.prems(1) _ less.prems(2) False] by blast
    then obtain s1 where
      1: "talk_step s s1" "said s1 = said s" "poll_at s1 \<noteq> P_closed" "talk_work s1 < talk_work s" by (auto simp: progresses_def)
    from less.hyps [OF 1(4) talk_inv_step [OF less.prems(1) 1(1)] 1(3)] obtain s' where
      s': "talk_step\<^sup>*\<^sup>* s1 s'" "said s' = said s1" "settled_talk s'" "talk_inv s'" by (elim exE conjE)
    have "talk_step\<^sup>*\<^sup>* s s'" by (rule converse_rtranclp_into_rtranclp [of talk_step, OF 1(1) s'(1)])
    moreover have "said s' = said s" using s'(2) 1(2) by (rule trans)
    ultimately show ?thesis using s'(3,4) by (intro exI [of _ s'] conjI)
  next
    case True
    then show ?thesis using less.prems(1) by (intro exI [of _ s] conjI) (rule rtranclp.rtrancl_refl refl | assumption)+
  qed
qed

text \<open>
  C15. Messages sent from another thread are neither lost nor reordered. However the calls of \<open>send\<close>
  interleave with the connection being established and with the connected callback taking over
  the pending messages: as long as the connection has not been closed, every message is in exactly
  one place and the places follow the order of the calls, so that what the connection has accepted
  is a prefix of what was said; and there is no deadlock: without further calls all of it is
  accepted.
\<close>

theorem messages_keep_their_order:
  assumes "talk_reachable s" and "poll_at s \<noteq> P_closed"
  shows "said s = wire s @ taken s @ pending s @ posted s @ in_flight s \<and>
     (\<exists>s'. talk_step\<^sup>*\<^sup>* s s' \<and> said s' = said s \<and> wire s' = said s)"
proof -
  note inv = talk_reachable_inv [OF assms(1)]
  from talk_settles [OF inv assms(2)] obtain s' where
    s': "talk_step\<^sup>*\<^sup>* s s'" "said s' = said s" "settled_talk s'" "talk_inv s'" by blast
  from s'(3,4) have w: "wire s' = said s'" by (simp add: settled_talk_def talk_inv_def in_flight_def)
  show ?thesis
  proof (intro conjI exI [of _ s'])
    show "said s = wire s @ taken s @ pending s @ posted s @ in_flight s" using inv assms(2) by (simp add: talk_inv_def)
  qed (use s' w in simp_all)
qed

theorem messages_keep_their_order_witness:
  "\<exists>s. talk_reachable s \<and> said s = [[72, 105]] \<and> poll_at s = P_swap \<and> wire s @ taken s @ pending s @ posted s @ in_flight s = [[72, 105]]"
proof -
  let ?s1 = "talk_init\<lparr>main_at := M_lock [72, 105], said := said talk_init @ [[72, 105]]\<rparr>"
  let ?s2 = "?s1\<lparr>poll_at := P_swap, up := True\<rparr>"
  have "talk_reachable ?s1" by (rule talk_reachable.step [OF talk_reachable.init talk_step.call]) (simp add: talk_init_def)
  then have r: "talk_reachable ?s2" by (rule talk_reachable.step) (rule talk_step.connected, simp add: talk_init_def)
  from messages_keep_their_order [OF r] r show ?thesis by (intro exI [of _ ?s2]) (simp add: talk_init_def)
qed

text \<open>
  The connected callback on the world of the connection: the pending messages are all accepted for
  output, in order, if the connection is still live afterwards, and a prefix of them otherwise.
\<close>

lemma tc_connected_flushes:
  assumes d: "dialing w0" "0 \<le> fst (so_answer w0)" "snd (so_answer w0) = 0" and c: "tc_has_conn (app w0)"
    and len: "length (concat (tc_pending (app w0))) \<le> 2 ^ 60"
  shows "\<exists>w1 k. handle_connect_event tc_cb w0 = Inr w1 \<and> conn_inv w1 \<and> k \<le> length (tc_pending (app w0)) \<and>
     owed_cells w1 = map Some (concat (take k (tc_pending (app w0)))) \<and> (live w1 \<longrightarrow> k = length (tc_pending (app w0)))"
proof -
  from connect_event_starts [OF d, of tc_cb] obtain v where
    v: "just_started w0 v" "handle_connect_event tc_cb w0 = tc_on_connected (emit Ev_connected v)" by (auto simp: tc_cb_def)
  let ?v = "with_app (\<lambda>s. s\<lparr>tc_pending := []\<rparr>) (install_callbacks (emit Ev_connected v))"
  have n: "neutral Ev_connected" by simp
  have "alike v ?v" by (rule alike_trans [OF alike_emit [OF n] alike_trans [OF alike_install alike_with_app]])
  note A = alike_inv(2) [OF this] alike_cells(2) [OF this]
  have o: "owed_cells v = []" using v(1) by (cases "stream (log w0)") (simp add: just_started_def owed_cells_def)
  have "conn_inv ?v" "tc_has_conn (app ?v)" "length (owed_cells ?v) + length (concat (tc_pending (app w0))) \<le> 2 ^ 60"
    using A v(1) c len o by (simp_all add: just_started_def)
  from flush_loop_ok [OF this] A o v show ?thesis by (simp add: tc_on_connected_def tc_flush_pending_def just_started_def)
qed

section \<open>Connecting while the loop starts\<close>

text \<open>
  \<open>IOEventPoll\<close> takes the thread that made it for its own until \<open>run()\<close> is called on another. The main thread of
  the client starts a thread that calls \<open>run()\<close> and goes on to call \<open>connect()\<close>, which first tests whether it is
  on the poll's thread, to run the attempt in place or to post it; run in place, the attempt
  begins with an assertion that it is on the poll's thread.
\<close>

datatype thread_name = Main_thread | Loop_thread

datatype dial_pc = D_start | D_inline | D_inside | D_posted | D_failed

record race =
  poll_thread :: thread_name
  loop_runs :: bool
  dial_at :: dial_pc

definition race_init :: race where
  "race_init = \<lparr>poll_thread = Main_thread, loop_runs = False, dial_at = D_start\<rparr>"

inductive race_step :: "race \<Rightarrow> race \<Rightarrow> bool" where
  run: "\<not> loop_runs s \<Longrightarrow> race_step s (s\<lparr>poll_thread := Loop_thread, loop_runs := True\<rparr>)"
| test: "dial_at s = D_start \<Longrightarrow>
    race_step s (s\<lparr>dial_at := (if poll_thread s = Main_thread then D_inline else D_posted)\<rparr>)"
| enter: "dial_at s = D_inline \<Longrightarrow>
    race_step s (s\<lparr>dial_at := (if poll_thread s = Main_thread then D_inside else D_failed)\<rparr>)"

lemma race_after_run:
  "race_step\<^sup>*\<^sup>* s s' \<Longrightarrow> loop_runs s \<Longrightarrow> poll_thread s = Loop_thread \<Longrightarrow> dial_at s \<in> {D_start, D_posted} \<Longrightarrow>
   loop_runs s' \<and> poll_thread s' = Loop_thread \<and> dial_at s' \<in> {D_start, D_posted}"
  by (induction rule: rtranclp_induct) (auto elim!: race_step.cases)

text \<open>
  Connecting races with the start of the loop. As tcp_client, chat_client and echo_client do it,
  the assertion can fail, and it can hold with the main thread working on the poller while the
  loop runs in its own thread. When \<open>connect()\<close> is called after the loop has started, as http_client and
  file_client see to by waiting, the attempt is always posted.
\<close>

lemma connect_races_with_run:
  "(\<exists>s. race_step\<^sup>*\<^sup>* race_init s \<and> dial_at s = D_failed) \<and>
   (\<exists>s. race_step\<^sup>*\<^sup>* race_init s \<and> dial_at s = D_inside \<and> loop_runs s) \<and>
   (\<forall>s. race_step\<^sup>*\<^sup>* (race_init\<lparr>poll_thread := Loop_thread, loop_runs := True\<rparr>) s \<longrightarrow> dial_at s \<in> {D_start, D_posted})"
proof (intro conjI allI impI)
  let ?s1 = "race_init\<lparr>dial_at := D_inline\<rparr>"
  have 1: "race_step race_init ?s1" using race_step.test [of race_init] by (simp add: race_init_def)
  have "race_step ?s1 (?s1\<lparr>poll_thread := Loop_thread, loop_runs := True\<rparr>)" by (rule race_step.run) (simp add: race_init_def)
  moreover have "race_step (?s1\<lparr>poll_thread := Loop_thread, loop_runs := True\<rparr>)
      (?s1\<lparr>poll_thread := Loop_thread, loop_runs := True, dial_at := D_failed\<rparr>)"
    using race_step.enter [of "?s1\<lparr>poll_thread := Loop_thread, loop_runs := True\<rparr>"] by simp
  ultimately have "race_step\<^sup>*\<^sup>* race_init (?s1\<lparr>poll_thread := Loop_thread, loop_runs := True, dial_at := D_failed\<rparr>)"
    using 1 by (meson converse_rtranclp_into_rtranclp rtranclp.rtrancl_refl)
  then show "\<exists>s. race_step\<^sup>*\<^sup>* race_init s \<and> dial_at s = D_failed" by force
  let ?s2 = "?s1\<lparr>dial_at := D_inside\<rparr>"
  have "race_step ?s1 ?s2" using race_step.enter [of ?s1] by (simp add: race_init_def)
  moreover have "race_step ?s2 (?s2\<lparr>poll_thread := Loop_thread, loop_runs := True\<rparr>)" by (rule race_step.run) (simp add: race_init_def)
  ultimately have "race_step\<^sup>*\<^sup>* race_init (?s2\<lparr>poll_thread := Loop_thread, loop_runs := True\<rparr>)"
    using 1 by (meson converse_rtranclp_into_rtranclp rtranclp.rtrancl_refl)
  then show "\<exists>s. race_step\<^sup>*\<^sup>* race_init s \<and> dial_at s = D_inside \<and> loop_runs s" by force
next
  fix s assume "race_step\<^sup>*\<^sup>* (race_init\<lparr>poll_thread := Loop_thread, loop_runs := True\<rparr>) s"
  from race_after_run [OF this] show "dial_at s \<in> {D_start, D_posted}" by (simp add: race_init_def)
qed

end
