(* ===== verification/App_Async.thy ===== *)
theory App_Async
  imports App_Clients
begin

text \<open>
  The client async_client under src/examples. It makes a new connection object whenever its attempt
  to connect fails or its connection is closed, from inside the callback of the old one. The world of a connection holds one object; the
  other object that \<open>conn_\<close> may refer to is kept in the state of the program, and the world changes
  from one to the other where the code does. The poll, the timers and the rest of the environment are
  common to both.
\<close>

section \<open>The client that reconnects\<close>

text \<open>What \<open>conn_\<close> refers to, seen from the object whose method is running.\<close>

datatype conn_ref = No_conn | This_conn | Other_conn conn

record async_client =
  ac_addr :: string
  ac_port :: uint16
  ac_conn :: conn_ref

definition refer :: "conn_ref \<Rightarrow> async_client cw \<Rightarrow> async_client cw" where
  "refer r w = with_app (\<lambda>s. s\<lparr>ac_conn := r\<rparr>) w"

text \<open>Going over to the object \<open>c\<close>, to which \<open>conn_\<close> refers, and coming back to the object of \<open>w\<close>.\<close>

definition enter_conn :: "conn \<Rightarrow> async_client cw \<Rightarrow> async_client cw" where
  "enter_conn c w = refer This_conn (conn.extend c (conn.more w))"

definition leave_conn :: "async_client cw \<Rightarrow> async_client cw \<Rightarrow> async_client cw" where
  "leave_conn w v = refer (case ac_conn (app v) of This_conn \<Rightarrow> Other_conn (conn.truncate v) | r \<Rightarrow> r)
     (conn.extend (conn.truncate w) (conn.more v))"

definition ac_on_message :: "async_client cw \<Rightarrow> async_client cw result" where
  "ac_on_message w = (case read_buffer w of None \<Rightarrow> Inl Null_deref
     | Some b \<Rightarrow> if readable_size b > 0 then andthen (message_text w) (\<lambda>msg. consume w) else Inr w)"

text \<open>Both the close callback and the error callback call \<open>connect()\<close>, here \<open>again\<close>.\<close>

definition ac_base :: "(async_client cw \<Rightarrow> async_client cw result) \<Rightarrow> async_client user_cb" where
  "ac_base again = quiet_user\<lparr>u_close := (\<lambda>err. again), u_connect_error := (\<lambda>err. again)\<rparr>"

definition ac_on_connection :: "(async_client cw \<Rightarrow> async_client cw result) \<Rightarrow> async_client cw \<Rightarrow> async_client cw result" where
  "ac_on_connection again w =
     send (ac_base again) (Some (bytes ''Hello, I'm client.'')) (install_callbacks (refer This_conn w))"

definition ac_cb :: "(async_client cw \<Rightarrow> async_client cw result) \<Rightarrow> async_client user_cb" where
  "ac_cb again = (ac_base again)\<lparr>u_message := ac_on_message, u_connected := ac_on_connection again\<rparr>"

text \<open>\<open>connect()\<close>, which the callbacks call again: the recursion is on fuel.\<close>

fun ac_connect :: "nat \<Rightarrow> async_client cw \<Rightarrow> async_client cw result" where
  "ac_connect 0 w = Inl Never_returns"
| "ac_connect (Suc fuel) w =
     andthen (Conn_connect (ac_cb (ac_connect fuel)) (ac_addr (app w)) (ac_port (app w)) True True
                (enter_conn (Conn_new invalid_socket) w)) (\<lambda>v. Inr (leave_conn w v))"

text \<open>Methods that use \<open>conn_\<close>, and the events of the connection it refers to.\<close>

definition ac_on_conn :: "(async_client cw \<Rightarrow> async_client cw result) \<Rightarrow> async_client cw \<Rightarrow> async_client cw result" where
  "ac_on_conn f w = (case ac_conn (app w) of
       No_conn \<Rightarrow> Inl Null_deref
     | This_conn \<Rightarrow> f w
     | Other_conn c \<Rightarrow> andthen (f (enter_conn c w)) (\<lambda>v. Inr (leave_conn w v)))"

definition ac_disconnect :: "async_client cw \<Rightarrow> async_client cw result" where
  "ac_disconnect w = (if ac_conn (app w) = No_conn then Inr w else ac_on_conn shutdown w)"

definition ac_send :: "nat \<Rightarrow> byte list \<Rightarrow> async_client cw \<Rightarrow> async_client cw result" where
  "ac_send fuel msg w = ac_on_conn (send (ac_cb (ac_connect fuel)) (Some msg)) w"

text \<open>\<open>main\<close> up to the loop, and an event in a round of the loop.\<close>

definition AsyncClient_new :: "string \<Rightarrow> uint16 \<Rightarrow> async_client" where
  "AsyncClient_new addr port = \<lparr>ac_addr = addr, ac_port = port, ac_conn = No_conn\<rparr>"

definition ac_main :: "nat \<Rightarrow> async_client cw \<Rightarrow> async_client cw result" where
  "ac_main fuel w = ac_connect fuel (with_app (\<lambda>_. AsyncClient_new ''127.0.0.1'' 9090) w)"

definition ac_event :: "nat \<Rightarrow> cflags \<Rightarrow> int \<Rightarrow> async_client cw \<Rightarrow> async_client cw result" where
  "ac_event fuel ev err w = ac_on_conn (on_event (ac_cb (ac_connect fuel)) ev err) w"

section \<open>Attempts that fail at once\<close>

text \<open>A bad address, or a \<open>connect\<close> that fails other than by being in progress.\<close>

definition fails_at_once :: "string \<Rightarrow> uint16 \<Rightarrow> 'a cw \<Rightarrow> bool" where
  "fails_at_once addr port w \<longleftrightarrow>
     (let ip_type = ip_address_type (pton w) addr;
          addr_storage = get_sockaddr (pton w) addr port (if ip_type = IP_v4 then kIPv4Only else kIPv6Only)
      in ip_type = IP_Invalid \<or> ss_family addr_storage = 0 \<or>
         (case connect (conn_os w) addr_storage True of Inl e \<Rightarrow> False | Inr (handle, tr) \<Rightarrow> handle < 0))"

lemma attempt_reports:
  assumes "in_poll w" and "fails_at_once addr port w"
  shows "\<exists>err w'. start_connect_in_poll u addr port w = connect_error u err w' \<and> in_poll w' \<and> pton w' = pton w \<and>
           conn_os w' = conn_os w \<and> has_connect_error w' = has_connect_error w \<and> app w' = app w \<and> alike w w'"
proof -
  let ?ip = "ip_address_type (pton w) addr"
  let ?sa = "get_sockaddr (pton w) addr port (if ?ip = IP_v4 then kIPv4Only else kIPv6Only)"
  from assms(2) consider (bad) "?ip = IP_Invalid \<or> ss_family ?sa = 0"
    | (refused) h tr where "?ip \<noteq> IP_Invalid" "ss_family ?sa \<noteq> 0" "connect (conn_os w) ?sa True = Inr (h, tr)" "h < 0"
    by (auto simp: fails_at_once_def Let_def split: sum.splits prod.splits)
  then show ?thesis
  proof cases
    case bad
    with assms(1) show ?thesis by (intro exI [of _ EINVAL] exI [of _ w]) (auto simp: start_connect_in_poll_def alike_def Let_def)
  next
    case refused
    with assms(1) show ?thesis
      by (intro exI [of _ "co_last_error (conn_os w)"] exI [of _ "w\<lparr>log := log w @ map Ev_sys tr\<rparr>"])
         (simp add: start_connect_in_poll_def alike_def Let_def)
  qed
qed

lemma enter_conn_fields [simp]:
  "in_poll (enter_conn c w) = in_poll w" "pton (enter_conn c w) = pton w" "conn_os (enter_conn c w) = conn_os w"
  "poller (enter_conn c w) = poller w" "recvs (enter_conn c w) = recvs w" "log (enter_conn c w) = log w"
  "app (enter_conn c w) = (app w)\<lparr>ac_conn := This_conn\<rparr>" "conn.truncate (enter_conn c w) = c"
  "c_state (enter_conn c w) = c_state c" "cleanup_done (enter_conn c w) = cleanup_done c" "c_channel (enter_conn c w) = c_channel c"
  "read_buffer (enter_conn c w) = read_buffer c" "write_buffer (enter_conn c w) = write_buffer c" "tasks (enter_conn c w) = tasks w"
  by (cases w; cases c; simp add: enter_conn_def refer_def with_app_def conn.defs)+

definition keeps_failing :: "async_client cw \<Rightarrow> bool" where
  "keeps_failing w \<longleftrightarrow> fails_at_once (ac_addr (app w)) (ac_port (app w)) w"

lemma keeps_failing_env: "pton v = pton w \<Longrightarrow> conn_os v = conn_os w \<Longrightarrow> app v = app w \<Longrightarrow> keeps_failing v = keeps_failing w"
  by (simp add: keeps_failing_def fails_at_once_def)

lemma failing_connect:
  assumes "in_poll w" and "keeps_failing w"
  shows "ac_connect fuel w = Inl Never_returns"
  using assms
proof (induction fuel arbitrary: w)
  case (Suc fuel)
  let ?u = "ac_cb (ac_connect fuel)" and ?a = "ac_addr (app w)" and ?p = "ac_port (app w)"
  let ?v = "(enter_conn (Conn_new invalid_socket) w)\<lparr>cleanup_done := False, has_connected_func := True, has_connect_error := True,
              c_addr := take 45 ?a, c_port := ?p\<rparr>"
  have v: "in_poll ?v" "fails_at_once ?a ?p ?v" using Suc.prems by (simp_all add: fails_at_once_def keeps_failing_def)
  from attempt_reports [OF v, of ?u] obtain err w' where
    1: "start_connect_in_poll ?u ?a ?p ?v = connect_error ?u err w'" and
    2: "in_poll w'" "pton w' = pton ?v" "conn_os w' = conn_os ?v" "has_connect_error w'" "app w' = app ?v" by auto
  have "Conn_connect ?u ?a ?p True True (enter_conn (Conn_new invalid_socket) w) = start_connect_in_poll ?u ?a ?p ?v"
    using Suc.prems(1) by (simp add: Conn_connect_def Conn_new_def)
  also have "\<dots> = ac_connect fuel (emit (Ev_connect_error err) w')"
    using 1 2(4) by (simp add: connect_error_def call_if_def ac_cb_def ac_base_def)
  also have "\<dots> = Inl Never_returns"
    by (rule Suc.IH) (use 2 v in \<open>simp_all add: fails_at_once_def keeps_failing_def\<close>)
  finally show ?case by simp
qed simp

text \<open>
  C28. The client that reconnects at once never returns. When an attempt fails at once, the error
  callback makes the next attempt before the first has returned; with an address or a network that
  keeps failing the calls nest without end, whatever the fuel.
\<close>

theorem reconnect_never_returns:
  assumes "in_poll w" and "keeps_failing w"
  shows "ac_connect fuel w = Inl Never_returns"
  using assms by (rule failing_connect)

theorem reconnect_never_returns_witness:
  "ac_connect 1000000 (busy_with \<lparr>ac_addr = ''nowhere'', ac_port = 9090, ac_conn = No_conn\<rparr>) = Inl Never_returns"
  by (rule reconnect_never_returns)
     (simp_all add: keeps_failing_def fails_at_once_def busy_with_def conn.defs cw.defs ip_address_type_def)

section \<open>Attempts that are under way\<close>

lemma attempt_starts:
  assumes inv: "conn_inv w" and st: "c_state w = kDisconnected" "\<not> cleanup_done w" "out_cells w = []"
    and ok: "\<not> fails_at_once addr port w" and h: "fresh_handle (poller w) (co_socket (conn_os w))"
  shows "\<exists>w'. start_connect_in_poll u addr port w = Inr w' \<and> conn_inv w' \<and> c_state w' = kConnecting \<and>
     c_handle w' = co_socket (conn_os w) \<and> app w' = app w \<and> epoll_watched (poller w') (c_handle w') = kWrite \<and>
     epoll_touches (c_handle w') (poller w) (poller w') \<and> recvs w' = recvs w \<and> pton w' = pton w \<and>
     (\<exists>tr. log w' = log w @ map Ev_sys tr)"
proof -
  let ?ip = "ip_address_type (pton w) addr"
  let ?sa = "get_sockaddr (pton w) addr port (if ?ip = IP_v4 then kIPv4Only else kIPv6Only)"
  have io: "in_poll w" "epoll_ok (poller w)" using inv by (simp_all add: conn_inv_def conn_wf_def)
  obtain hd tr where c: "connect (conn_os w) ?sa True = Inr (hd, tr)" "hd < 0 \<or> hd = co_socket (conn_os w)"
    using connect_async [OF refl] by blast
  with ok have hd: "\<not> hd < 0" "?ip \<noteq> IP_Invalid" "ss_family ?sa \<noteq> 0" by (auto simp: fails_at_once_def Let_def)
  then have hs: "hd = co_socket (conn_os w)" using c(2) by simp
  let ?ch = "(Channel_new (next_channel w) hd :: conn_fn channel)\<lparr>ch_on_write := Some Fn_connect_event, ch_tied := True\<rparr>"
  let ?w2 = "w\<lparr>log := log w @ map Ev_sys tr, c_handle := hd, c_state := kConnecting, c_channel := Some ?ch, next_channel := next_channel w + 1\<rparr>"
  have eq: "start_connect_in_poll v addr port w = on_channel (add_write_event update_channel) ?w2" for v :: "'a user_cb"
    using io(1) c(1) hd by (simp add: start_connect_in_poll_def Let_def)
  have "epoll_chan_ok (poller w) (Channel_new (next_channel w) hd :: conn_fn channel)"
    by (rule new_channel_ok) (use io(2) h hs in \<open>simp_all add: fresh_handle_def\<close>)
  then have "epoll_chan_ok (poller w) ?ch" by (simp add: chan_ok_def epoll_synced_def)
  from ep.add_write_event_ok [OF this] obtain p ch where
    p: "add_write_event update_channel (poller w) ?ch = Inr (p, ch)" "epoll_chan_ok p ch"
       "ch = ?ch\<lparr>ch_events := ch_events ?ch OR kWrite, ch_registered := True\<rparr>" "epoll_touches (ch_handle ?ch) (poller w) p" by blast
  have "epoll_watched p hd = kWrite" using p(2) by (simp add: chan_ok_def p(3) Channel_new_def)
  moreover have run: "start_connect_in_poll v addr port w = Inr (?w2\<lparr>poller := p, c_channel := Some ch\<rparr>)" for v :: "'a user_cb"
    using eq [of v] p(1) by (simp add: on_channel_def)
  moreover have "conn_inv (?w2\<lparr>poller := p, c_channel := Some ch\<rparr>)"
    using start_connect_in_poll_ok [OF quiet_user_ok inv st, of addr port] h run [of quiet_user] by (auto simp: after_def)
  moreover have "epoll_touches hd (poller w) p" using p(4) by (simp add: Channel_new_def)
  ultimately show ?thesis using hs by (intro exI [of _ "?w2\<lparr>poller := p, c_channel := Some ch\<rparr>"]) auto
qed

lemma leave_conn_fields [simp]:
  "c_state (leave_conn w v) = c_state w" "c_handle (leave_conn w v) = c_handle w" "c_channel (leave_conn w v) = c_channel w"
  "poller (leave_conn w v) = poller v" "log (leave_conn w v) = log v" "in_poll (leave_conn w v) = in_poll v"
  "conn.truncate (leave_conn w v) = conn.truncate w"
  "ac_conn (app (leave_conn w v)) = (case ac_conn (app v) of This_conn \<Rightarrow> Other_conn (conn.truncate v) | r \<Rightarrow> r)"
  by (cases w; cases v; simp add: leave_conn_def refer_def with_app_def conn.defs split: conn_ref.split)+

lemma enter_conn_env [simp]:
  "enter_conn c (w\<lparr>c_channel := x\<rparr>) = enter_conn c w" "enter_conn c (post t w) = post t (enter_conn c w)"
  by (cases w; cases c; simp add: enter_conn_def refer_def with_app_def post_def conn.defs)+

text \<open>Coming back and going over again finds the object as it was left.\<close>

lemma leave_enter:
  "ac_conn (app v) = This_conn \<Longrightarrow> enter_conn (conn.truncate v) (leave_conn w v) = v"
  by (cases w; cases v; simp add: leave_conn_def enter_conn_def refer_def with_app_def conn.defs)

text \<open>A new connection object in an environment that is in order.\<close>

lemma new_conn_inv:
  assumes "in_poll w" "epoll_ok (poller w)" "incoming (recvs w) \<le> 2 ^ 59" "prefix (sent_cells w) (owed_cells w)"
  shows "conn_inv ((enter_conn (Conn_new h) w)\<lparr>cleanup_done := False, has_connected_func := x, has_connect_error := y,
      c_addr := a, c_port := p\<rparr>)"
  using assms by (simp add: cw_defs Conn_new_def)

lemma connect_starts:
  assumes w: "in_poll w" "epoll_ok (poller w)" "incoming (recvs w) \<le> 2 ^ 59" "prefix (sent_cells w) (owed_cells w)"
    and ok: "\<not> keeps_failing w" and h: "fresh_handle (poller w) (co_socket (conn_os w))"
  shows "\<exists>v. ac_connect (Suc fuel) w = Inr (leave_conn w v) \<and> conn_inv v \<and> c_state v = kConnecting \<and>
     c_handle v = co_socket (conn_os w) \<and> app v = (app w)\<lparr>ac_conn := This_conn\<rparr> \<and>
     epoll_watched (poller v) (c_handle v) = kWrite"
proof -
  let ?a = "ac_addr (app w)" and ?p = "ac_port (app w)"
  let ?v = "(enter_conn (Conn_new invalid_socket) w)\<lparr>cleanup_done := False, has_connected_func := True, has_connect_error := True,
              c_addr := take 45 ?a, c_port := ?p\<rparr>"
  have "\<not> fails_at_once ?a ?p ?v" "fresh_handle (poller ?v) (co_socket (conn_os ?v))" "c_state ?v = kDisconnected"
    "out_cells ?v = []" using ok h by (simp_all add: keeps_failing_def fails_at_once_def Conn_new_def out_cells_def)
  moreover have "conn_inv ?v" by (rule new_conn_inv [OF w])
  ultimately obtain v where v: "start_connect_in_poll (ac_cb (ac_connect fuel)) ?a ?p ?v = Inr v" "conn_inv v" "c_state v = kConnecting"
      "c_handle v = co_socket (conn_os w)" "app v = app ?v" "epoll_watched (poller v) (c_handle v) = kWrite"
    using attempt_starts [of ?v ?a ?p "ac_cb (ac_connect fuel)"] by auto
  moreover have "ac_connect (Suc fuel) w = Inr (leave_conn w v)"
    using v(1) w(1) by (simp add: Conn_connect_def Conn_new_def)
  ultimately show ?thesis by (intro exI [of _ v]) simp
qed

text \<open>The descriptor the kernel gives out next: one nobody uses, or the one that is being closed.\<close>

lemma released_fresh:
  assumes rel: "released w w1" and ch: "c_channel w = Some ch" "ch_handle ch = c_handle w" "c_handle w \<noteq> invalid_socket"
    and h: "h = c_handle w \<or> fresh_handle (poller w) h"
  shows "fresh_handle (poller w1) h"
proof (cases "h = c_handle w")
  case True
  then show ?thesis using rel ch by (simp add: released_def fresh_handle_def)
next
  case False
  then show ?thesis using rel ch h by (auto simp: released_def fresh_handle_def epoll_touches_def)
qed

text \<open>
  Cleaning up the old object around the new attempt: the callbacks run on the released object, and the
  new object is left alone by what follows them.
\<close>

definition replaced :: "async_client cw \<Rightarrow> async_client cw \<Rightarrow> bool" where
  "replaced w w' \<longleftrightarrow> c_state w' = kDisconnected \<and> c_handle w' = invalid_socket \<and> c_channel w' = None \<and>
     (\<exists>c. ac_conn (app w') = Other_conn c \<and> c_state c = kConnecting \<and> c_handle c = co_socket (conn_os w) \<and>
        conn_inv (enter_conn c w') \<and> epoll_watched (poller w') (c_handle c) = kWrite)"

lemma finish_replaces:
  assumes w1: "c_state w1 = kDisconnected" "c_handle w1 = invalid_socket" "conn_inv w1" and ok: "\<not> keeps_failing w1"
    and h: "fresh_handle (poller w1) (co_socket (conn_os w1))"
  shows "\<exists>w'. finish_cleanup (ac_cb (ac_connect (Suc fuel))) err i True w1 = Inr w' \<and> replaced w1 w'"
proof -
  let ?u = "ac_cb (ac_connect (Suc fuel))"
  define w2 where "w2 = emit (Ev_close err) (if i then emit Ev_internal_close w1 else w1)"
  have n: "neutral (Ev_close err)" "neutral Ev_internal_close" by simp_all
  have "alike w1 w2" unfolding w2_def
    using alike_trans [OF alike_emit [OF n(2), of w1] alike_emit [OF n(1)]] alike_emit [OF n(1), of w1] by simp
  note inv = alike_inv(2) [OF this]
  have e: "conn_os w2 = conn_os w1" "poller w2 = poller w1" "pton w2 = pton w1" "app w2 = app w1" "c_state w2 = c_state w1"
    "c_handle w2 = c_handle w1" by (simp_all add: w2_def)
  have "in_poll w2" "epoll_ok (poller w2)" "incoming (recvs w2) \<le> 2 ^ 59" "prefix (sent_cells w2) (owed_cells w2)"
    using inv w1(3) by (simp_all add: conn_inv_def conn_wf_def bufs_ok_def stream_inv_def)
  moreover have "\<not> keeps_failing w2" "fresh_handle (poller w2) (co_socket (conn_os w2))"
    using ok h by (simp_all add: keeps_failing_def fails_at_once_def e)
  ultimately obtain v where
    v: "ac_connect (Suc fuel) w2 = Inr (leave_conn w2 v)" "conn_inv v" "c_state v = kConnecting" "c_handle v = co_socket (conn_os w2)"
       "app v = (app w2)\<lparr>ac_conn := This_conn\<rparr>" "epoll_watched (poller v) (c_handle v) = kWrite"
    using connect_starts [of w2 fuel] by blast
  let ?w3 = "leave_conn w2 v" and ?c = "conn.truncate v"
  let ?w' = "case c_channel ?w3 of None \<Rightarrow> ?w3 | Some ch \<Rightarrow> post (Task_drop_channel (ch_id ch)) (?w3\<lparr>c_channel := None\<rparr>)"
  have u: "u_internal_close ?u = Inr" "u_close ?u err = ac_connect (Suc fuel)"
    by (simp_all del: ac_connect.simps add: ac_cb_def ac_base_def quiet_user_def)
  have "finish_cleanup ?u err i True w1 = andthen (ac_connect (Suc fuel) w2) (\<lambda>w3.
      case c_channel w3 of None \<Rightarrow> Inr w3 | Some ch \<Rightarrow> Inr (post (Task_drop_channel (ch_id ch)) (w3\<lparr>c_channel := None\<rparr>)))"
    unfolding finish_cleanup_def u call_if_def w2_def by (simp del: ac_connect.simps)
  then have run: "finish_cleanup ?u err i True w1 = Inr ?w'" unfolding v(1) by (simp split: option.split)
  have again: "enter_conn ?c ?w3 = v" using leave_enter [of v w2] v(5) by simp
  have "alike v (enter_conn ?c ?w')"
    using again alike_post [of v] by (cases "c_channel ?w3") (simp_all add: alike_def)
  then have "conn_inv (enter_conn ?c ?w')" using v(2) alike_inv(2) by blast
  moreover have "c_state ?c = kConnecting" "c_handle ?c = co_socket (conn_os w1)" using v(3,4) e by (simp_all add: conn.defs)
  ultimately have "replaced w1 ?w'"
    using w1 v(5,6) e unfolding replaced_def by (cases "c_channel w2") (auto simp: post_def conn.defs)
  with run show ?thesis by blast
qed

lemma finish_fails:
  assumes "in_poll w1" and "keeps_failing w1"
  shows "finish_cleanup (ac_cb (ac_connect fuel)) err i True w1 = Inl Never_returns"
proof -
  have "ac_connect fuel (emit (Ev_close err) v) = Inl Never_returns" if "v = w1 \<or> v = emit Ev_internal_close w1" for v
    by (rule failing_connect) (use assms that keeps_failing_env [of "emit (Ev_close err) v" w1] in auto)
  then show ?thesis by (simp add: finish_cleanup_def call_if_def ac_cb_def ac_base_def quiet_user_def)
qed

text \<open>
  C27. What async_client does when its connection is closed. By the time the close callback runs, the
  old connection has been taken out of the poller and its descriptor is closed, so the kernel may
  hand out the same descriptor for the new connection. If an attempt would fail at once, the call
  never returns. Otherwise there is one new connection object afterwards, to which the program
  refers, connecting on the descriptor the kernel gave, which the poller watches for writing; it is
  in order, and the rest of the cleanup of the old object does not touch it. The old object is
  disconnected and has no descriptor and no channel.
\<close>

theorem close_reconnects:
  assumes inv: "conn_inv w" and st: "c_state w \<noteq> kDisconnected" and cl: "has_close_func w"
    and h: "co_socket (conn_os w) = c_handle w \<or> fresh_handle (poller w) (co_socket (conn_os w))"
  shows "if keeps_failing w then handle_close_event (ac_cb (ac_connect fuel)) err w = Inl Never_returns
     else \<exists>w'. handle_close_event (ac_cb (ac_connect (Suc fuel))) err w = Inr w' \<and> replaced w w'"
proof -
  from open_channelI [OF conn_invD(1) [OF inv] st] obtain ch where ch: "c_channel w = Some ch" "open_channel w ch" by blast
  then have c: "ch_handle ch = c_handle w" "c_handle w \<noteq> invalid_socket" "\<not> cleanup_done w" by (simp_all add: open_channel_def)
  have "\<exists>w1. handle_close_event (ac_cb (ac_connect n)) err w = finish_cleanup (ac_cb (ac_connect n)) err (has_internal_close w) True w1 \<and>
      released w w1" for n
    using cleanup_release [OF conn_invD(1) [OF inv] c(3), of "ac_cb (ac_connect n)" err] st cl by (auto simp: handle_close_event_def)
  moreover have "in_poll w1" "keeps_failing w1 = keeps_failing w" "c_state w1 = kDisconnected" "c_handle w1 = invalid_socket"
    "conn_os w1 = conn_os w" "conn_inv w1" "fresh_handle (poller w1) (co_socket (conn_os w))" if "released w w1" for w1
    using that released_inv(1) [OF conn_invD [OF inv] that] released_fresh [OF that ch(1) c(1,2) h] keeps_failing_env [of w1 w]
    by (simp_all add: released_def)
  ultimately show ?thesis using finish_fails finish_replaces unfolding replaced_def by (metis (no_types, lifting))
qed

text \<open>A connection of the client on descriptor 7, which the kernel gives out again at once.\<close>

definition reconnecting :: "async_client cw" where
  "reconnecting = (busy_with (AsyncClient_new ''127.0.0.1'' 9090))
     \<lparr>pton := (\<lambda>_ _. Some [127, 0, 0, 1]), conn_os := sample_connect_os\<lparr>co_socket := 7\<rparr>\<rparr>"

theorem close_reconnects_witness:
  "\<exists>w'. handle_close_event (ac_cb (ac_connect (Suc 8))) 0 reconnecting = Inr w' \<and> replaced reconnecting w'"
proof -
  note f = reconnecting_def busy_with_def conn.defs cw.defs Conn_new_def sample_connect_os_def
  have "alike (busy_with (AsyncClient_new ''127.0.0.1'' 9090)) reconnecting" by (simp add: alike_def reconnecting_def)
  from alike_inv(2) [OF this] have "conn_inv reconnecting" by (simp add: busy_with_inv)
  moreover have "c_state reconnecting \<noteq> kDisconnected" "has_close_func reconnecting"
    "co_socket (conn_os reconnecting) = c_handle reconnecting" by (simp_all add: f)
  moreover have "\<not> keeps_failing reconnecting"
    by (simp add: keeps_failing_def fails_at_once_def f AsyncClient_new_def ip_address_type_def get_sockaddr_def connect_def Let_def)
  ultimately show ?thesis using close_reconnects [of reconnecting 8 0] by simp
qed

end
