(* ===== verification/Thread_Pool.thy ===== *)
theory Thread_Pool
  imports Prelude "HOL-Library.Multiset"
begin

text \<open>
  The pool of poll threads: cxpnet/poll_thread_pool.h and .cc.

  Polls and threads are numbers. What the pool does to them is an action in the answer of the
  method, in order. The counter \<open>next_\<close> is a \<open>size_t\<close> that wraps.
\<close>

record pool_thread =
  t_id :: nat
  joinable :: bool

record thread_pool =
  polls :: "nat list"
  threads :: "pool_thread list"
  next_counter :: size_t
  pool_shut :: bool

datatype pool_action = Spawn nat nat | Shutdown_poll nat | Join nat | Detach nat

definition PollThreadPool_new :: "nat list \<Rightarrow> thread_pool" where
  "PollThreadPool_new event_polls = \<lparr>polls = event_polls, threads = [], next_counter = 0, pool_shut = False\<rparr>"

text \<open>\<open>start\<close>: one thread per poll, running its loop; \<open>ids\<close> are the ids the new threads get.\<close>

definition pool_start :: "nat list \<Rightarrow> thread_pool \<Rightarrow> pool_action list \<times> thread_pool" where
  "pool_start ids p =
     (if polls p = [] then ([], p)
      else let new = zip ids (polls p)
           in (map (\<lambda>(i, poll). Spawn i poll) new,
               p\<lparr>threads := threads p @ map (\<lambda>(i, poll). \<lparr>t_id = i, joinable = True\<rparr>) new\<rparr>))"

definition join_action :: "nat \<Rightarrow> pool_thread \<Rightarrow> pool_action list" where
  "join_action current t =
     (if \<not> joinable t then [] else if t_id t = current then [Detach (t_id t)] else [Join (t_id t)])"

definition pool_shutdown :: "nat \<Rightarrow> thread_pool \<Rightarrow> pool_action list \<times> thread_pool" where
  "pool_shutdown current p =
     (if pool_shut p then ([], p)
      else (map Shutdown_poll (polls p) @ concat (map (join_action current) (threads p)),
            p\<lparr>pool_shut := True, threads := map (\<lambda>t. t\<lparr>joinable := False\<rparr>) (threads p)\<rparr>))"

definition PollThreadPool_delete :: "nat \<Rightarrow> thread_pool \<Rightarrow> pool_action list" where
  "PollThreadPool_delete current p = (if \<not> pool_shut p then fst (pool_shutdown current p) else [])"

text \<open>\<open>next_poll\<close>; \<open>None\<close> is the null pointer.\<close>

definition next_poll :: "thread_pool \<Rightarrow> nat option \<times> thread_pool" where
  "next_poll p =
     (if polls p = [] then (None, p)
      else (Some (polls p ! unat (next_counter p mod of_nat (length (polls p)))),
            p\<lparr>next_counter := next_counter p + 1\<rparr>))"

fun picks :: "nat \<Rightarrow> thread_pool \<Rightarrow> nat option list" where
  "picks 0 p = []"
| "picks (Suc k) p = (case next_poll p of (q, p') \<Rightarrow> q # picks k p')"

lemma next_poll_index:
  assumes "polls p \<noteq> []" and "length (polls p) < 2 ^ 64"
  shows "next_poll p = (Some (polls p ! (unat (next_counter p) mod length (polls p))),
           p\<lparr>next_counter := next_counter p + 1\<rparr>)"
  using assms by (simp add: next_poll_def unat_mod unat_of_nat_lt)

lemma picks_index:
  assumes "polls p \<noteq> []" and "length (polls p) < 2 ^ 64" and "unat (next_counter p) + k < 2 ^ 64"
  shows "picks k p = map (\<lambda>j. Some (polls p ! ((unat (next_counter p) + j) mod length (polls p)))) [0..<k]"
  using assms
proof (induction k arbitrary: p)
  case (Suc k)
  let ?p = "p\<lparr>next_counter := next_counter p + 1\<rparr>"
  have n: "unat (next_counter ?p) = unat (next_counter p) + 1"
    using Suc.prems(3) by (simp add: unat_add_lt)
  from Suc.IH [of ?p] Suc.prems n have "picks k ?p =
      map (\<lambda>j. Some (polls p ! ((unat (next_counter p) + Suc j) mod length (polls p)))) [0..<k]" by simp
  then show ?case
    using next_poll_index [OF Suc.prems(1,2)] by (simp add: upt_conv_Cons map_Suc_upt [symmetric] del: upt_Suc)
qed simp

lemma shift_mod_inj:
  fixes c i j n :: nat
  assumes "i < n" and "j < n" and "(c + i) mod n = (c + j) mod n" and "i \<le> j"
  shows "i = j"
proof -
  have "n dvd (c + j) - (c + i)" using assms(3,4) by (metis add_le_cancel_left mod_eq_dvd_iff_nat)
  then have "n dvd j - i" by simp
  with assms(2,4) show ?thesis by (metis dvd_imp_le le_antisym less_imp_diff_less not_less zero_less_diff)
qed

lemma rotation_mset:
  assumes "0 < n"
  shows "image_mset (\<lambda>j. (c + j) mod n) (mset [0..<n]) = mset [0..<n]"
proof -
  have inj: "inj_on (\<lambda>j. (c + j) mod n) {0..<n}"
    by (rule inj_onI) (metis atLeastLessThan_iff nat_le_linear shift_mod_inj)
  have "(\<lambda>j. (c + j) mod n) ` {0..<n} \<subseteq> {0..<n}" using assms by auto
  then have "(\<lambda>j. (c + j) mod n) ` {0..<n} = {0..<n}" using inj by (simp add: endo_inj_surj)
  then show ?thesis using image_mset_mset_set [OF inj] by (simp add: mset_upt)
qed

section \<open>Properties\<close>

text \<open>
  Connections are spread evenly. As long as the counter does not wrap, successive calls take
  the polls in turn; any \<open>n\<close> calls in a row on a pool of \<open>n\<close> polls give every poll once.
\<close>

lemma next_poll_round_robin:
  assumes "polls p \<noteq> []" and "length (polls p) < 2 ^ 64" and "unat (next_counter p) + length (polls p) < 2 ^ 64"
  shows "mset (picks (length (polls p)) p) = mset (map Some (polls p)) \<and>
     picks (length (polls p)) p =
       map (\<lambda>j. Some (polls p ! ((unat (next_counter p) + j) mod length (polls p)))) [0..<length (polls p)]"
proof -
  let ?n = "length (polls p)" and ?c = "unat (next_counter p)"
  note P = picks_index [OF assms]
  have "mset (picks ?n p) = image_mset (\<lambda>i. Some (polls p ! i)) (image_mset (\<lambda>j. (?c + j) mod ?n) (mset [0..<?n]))"
    unfolding P by (simp add: multiset.map_comp comp_def)
  also have "\<dots> = image_mset (\<lambda>i. Some (polls p ! i)) (mset [0..<?n])"
    using assms(1) by (simp add: rotation_mset del: mset_upt)
  also have "\<dots> = mset (map Some (map ((!) (polls p)) [0..<?n]))" by (simp add: comp_def del: map_nth)
  also have "\<dots> = mset (map Some (polls p))" by (simp only: map_nth)
  finally show ?thesis using P by simp
qed

text \<open>
  Shutting the pool down. Every poll is told to stop before any thread is waited for; every
  thread that can be joined is joined, once, except the one that calls, which is detached: it never
  waits for itself. A second call does nothing.
\<close>

lemma pool_shutdown_order:
  "pool_shutdown current p = (acts, p') \<longrightarrow> \<not> pool_shut p \<longrightarrow>
     (\<exists>joins. acts = map Shutdown_poll (polls p) @ joins \<and>
        joins = map (\<lambda>t. if t_id t = current then Detach (t_id t) else Join (t_id t)) (filter joinable (threads p))) \<and>
     Join current \<notin> set acts \<and> pool_shutdown current p' = ([], p') \<and> PollThreadPool_delete current p' = []"
proof (intro impI)
  assume p: "pool_shutdown current p = (acts, p')" and open': "\<not> pool_shut p"
  have j: "concat (map (join_action current) ts) =
      map (\<lambda>t. if t_id t = current then Detach (t_id t) else Join (t_id t)) (filter joinable ts)" for ts
    by (induction ts) (auto simp: join_action_def)
  from p open' show "(\<exists>joins. acts = map Shutdown_poll (polls p) @ joins \<and>
        joins = map (\<lambda>t. if t_id t = current then Detach (t_id t) else Join (t_id t)) (filter joinable (threads p))) \<and>
     Join current \<notin> set acts \<and> pool_shutdown current p' = ([], p') \<and> PollThreadPool_delete current p' = []"
    by (auto simp: pool_shutdown_def j PollThreadPool_delete_def split: if_splits)
qed

end
