(* ===== verification/Server.thy ===== *)
theory Server
  imports Conn Acceptor Thread_Pool
begin

text \<open>
  The server: cxpnet/server.h and cxpnet/server.cc.

  The record \<open>server\<close> has the fields of the class; \<open>conns_\<close> is an association list from descriptors
  to the numbers of connection objects. The record \<open>sw\<close> adds what the methods act on: the acceptor,
  the connection objects made so far with the poll they belong to, the poll whose thread is
  running (poll 0 is the main poll), the polls whose loops run closures, the clock, and a log of
  effects. What a connection does when it is shut down or cleaned up belongs to the connection;
  here the order is logged. \<open>inet_ntop\<close> belongs to the C library and is a parameter. The shutdown
  flag of the main poll is the field \<open>poll_shut\<close> of the acceptor's world. \<open>conns_\<close> is iterated in the
  order of the list; the source's hash map has some order.

  The user's error callback is data: it returns at once, or calls \<open>connection_count()\<close>. The mutex
  \<open>conns_mutex_\<close> is not recursive, so that call never returns while the caller holds it.
\<close>

section \<open>State\<close>

type_synonym inet_ntop = "int \<Rightarrow> byte list \<Rightarrow> string option"

datatype error_fn = Err_return | Err_count

record server =
  started :: bool
  shutting_down :: bool
  mode :: running_mode
  thread_num :: int
  shutdown_deadline :: "time option"
  conns :: "(fd \<times> nat) list"
  has_on_conn :: bool
  on_error_func :: "error_fn option"
  max_connections :: size_t
  shutdown_timeout_ms :: uint32
  pool :: "thread_pool option"
  sub_polls :: "nat list"

datatype exit_job = Exit_shutdown | Exit_close

datatype exit_state = No_thread | Running exit_job | Finished

datatype server_event =
    S_sys syscall
  | S_error int
  | S_start_conn nat nat bool
  | S_conn_shutdown nat
  | S_conn_cleanup nat
  | S_acceptor_shutdown
  | S_pool "pool_action list"
  | S_main_shutdown

record sw = server +
  sv_acceptor :: aw
  objs :: "(nat \<times> conn) list"
  on_poll :: "nat option"
  thread_self :: nat
  loops :: "nat \<Rightarrow> bool"
  sv_now :: time
  exit_thread :: exit_state
  ntop :: inet_ntop
  sv_log :: "server_event list"

definition s_emit :: "server_event list \<Rightarrow> sw \<Rightarrow> sw" where
  "s_emit es w = w\<lparr>sv_log := sv_log w @ es\<rparr>"

text \<open>\<open>conns_[handle] = conn\<close>, \<open>conns_.erase(handle)\<close>, \<open>connection_count()\<close>.\<close>

definition conns_put :: "fd \<Rightarrow> nat \<Rightarrow> (fd \<times> nat) list \<Rightarrow> (fd \<times> nat) list" where
  "conns_put h i cs = (h, i) # filter (\<lambda>e. fst e \<noteq> h) cs"

definition conns_erase :: "fd \<Rightarrow> (fd \<times> nat) list \<Rightarrow> (fd \<times> nat) list" where
  "conns_erase h cs = filter (\<lambda>e. fst e \<noteq> h) cs"

definition connection_count :: "sw \<Rightarrow> size_t" where
  "connection_count w = of_nat (length (conns w))"

text \<open>Settings.\<close>

definition set_max_connections :: "size_t \<Rightarrow> sw \<Rightarrow> sw" where
  "set_max_connections n w = w\<lparr>max_connections := n\<rparr>"

definition set_shutdown_timeout :: "uint32 \<Rightarrow> sw \<Rightarrow> sw" where
  "set_shutdown_timeout ms w = w\<lparr>shutdown_timeout_ms := ms\<rparr>"

section \<open>Callbacks\<close>

text \<open>A call of the user's error callback; \<open>held\<close> tells whether the caller holds \<open>conns_mutex_\<close>.\<close>

definition call_on_error :: "bool \<Rightarrow> int \<Rightarrow> sw \<Rightarrow> sw result" where
  "call_on_error held err w =
     (case on_error_func w of None \<Rightarrow> Inr w
      | Some f \<Rightarrow> if f = Err_count \<and> held then Inl Never_returns else Inr (s_emit [S_error err] w))"

definition on_acceptor_error :: "int \<Rightarrow> sw \<Rightarrow> sw result" where
  "on_acceptor_error err w = (if err = ECANCELED \<or> err = EBADF then Inr w else call_on_error False err w)"

definition on_poll_error :: "nat \<Rightarrow> int \<Rightarrow> sw \<Rightarrow> sw result" where
  "on_poll_error event_poll err w = call_on_error False err w"

definition on_conn_close :: "fd \<Rightarrow> sw \<Rightarrow> sw" where
  "on_conn_close h w = w\<lparr>conns := conns_erase h (conns w)\<rparr>"

text \<open>The peer's address as text, empty where there is none, and its port.\<close>

definition client_address :: "inet_ntop \<Rightarrow> sockaddr_storage \<Rightarrow> string \<times> uint16" where
  "client_address f addr =
     (if ss_family addr = AF_INET \<or> ss_family addr = AF_INET6
      then (case f (ss_family addr) (sin_addr addr) of None \<Rightarrow> [] | Some s \<Rightarrow> s, ntohs (sin_port addr))
      else ([], 0))"

definition choose_poll :: "sw \<Rightarrow> (nat \<times> sw) result" where
  "choose_poll w =
     (if mode w = kOnePollPerThread then
        (case pool w of None \<Rightarrow> Inl Null_deref
         | Some p \<Rightarrow>
             (case next_poll p of
                (None, p') \<Rightarrow> Inl (Ensure_failed ''event_poll != nullptr'')
              | (Some i, p') \<Rightarrow> Inr (i, w\<lparr>pool := Some p'\<rparr>)))
      else Inr (0, w))"

definition on_new_connection :: "fd \<Rightarrow> sockaddr_storage \<Rightarrow> sw \<Rightarrow> sw result" where
  "on_new_connection h addr w =
     (if h = invalid_socket then Inr w
      else if max_connections w > 0 \<and> connection_count w \<ge> max_connections w
      then call_on_error True EMFILE (s_emit [S_sys (Sys_close h)] w)
      else
        case client_address (ntop w) addr of (ip, port) \<Rightarrow>
          if port = 0 \<or> ip = [] then Inr (s_emit [S_sys (Sys_close h)] w)
          else
            andthen (choose_poll w) (\<lambda>(poll, w1).
              let i = length (objs w1);
                  c = (Conn_new h)\<lparr>c_addr := ip, c_port := port, has_internal_close := True\<rparr>
              in Inr (s_emit [S_start_conn poll i (has_on_conn w1)]
                       (w1\<lparr>objs := objs w1 @ [(poll, c)], conns := conns_put h i (conns w1)\<rparr>))))"

text \<open>
  The acceptor's read event with the server behind its two callbacks: what \<open>Acceptor::handle_read_\<close>
  logs is what the server is called with, in that order.
\<close>

fun run_acceptor_events :: "acc_event list \<Rightarrow> sw \<Rightarrow> sw result" where
  "run_acceptor_events [] w = Inr w"
| "run_acceptor_events (A_sys c # es) w = run_acceptor_events es (s_emit [S_sys c] w)"
| "run_acceptor_events (A_conn h addr # es) w = andthen (on_new_connection h addr w) (run_acceptor_events es)"
| "run_acceptor_events (A_error err # es) w = andthen (on_acceptor_error err w) (run_acceptor_events es)"

definition server_accept :: "accept_answer list \<Rightarrow> sw \<Rightarrow> sw result" where
  "server_accept as w =
     andthen (handle_read as ((sv_acceptor w)\<lparr>a_log := []\<rparr>)) (\<lambda>a.
       run_acceptor_events (a_log a) (w\<lparr>sv_acceptor := a\<lparr>a_log := a_log (sv_acceptor w) @ a_log a\<rparr>\<rparr>))"

section \<open>Starting\<close>

text \<open>
  \<open>shutdown_polls_\<close>. \<open>thread_self\<close> is the thread that calls it. The threads of the pool end; the main
  poll's shutdown flag stays set for good, and its loop ends.
\<close>

definition shutdown_polls :: "sw \<Rightarrow> sw" where
  "shutdown_polls w =
     (let w1 = (case pool w of None \<Rightarrow> w
                | Some p \<Rightarrow> (case pool_shutdown (thread_self w) p of
                     (acts, p') \<Rightarrow> (s_emit [S_pool acts] w)\<lparr>pool := Some p', loops := (\<lambda>i. loops w i \<and> i \<notin> set (polls p))\<rparr>))
      in (s_emit [S_main_shutdown] w1)
           \<lparr>sv_acceptor := (sv_acceptor w1)\<lparr>poll_shut := True\<rparr>, loops := (loops w1)(0 := False)\<rparr>)"

definition kMaxThreadNum :: int where
  "kMaxThreadNum = 1024"

text \<open>The sub polls and the pool that runs them; a pool of an earlier start is destroyed. \<open>ids\<close> are the ids of the new threads.\<close>

definition start_polls :: "nat list \<Rightarrow> sw \<Rightarrow> sw" where
  "start_polls ids w =
     (if mode w = kOnePollPerThread then
        let new = map (\<lambda>k. length (sub_polls w) + k + 1) [0..<nat (thread_num w)];
            (acts, p) = pool_start ids (PollThreadPool_new new);
            old = (case pool w of None \<Rightarrow> [] | Some q \<Rightarrow> PollThreadPool_delete (thread_self w) q)
        in (s_emit [S_pool (old @ acts)] w)
             \<lparr>sub_polls := sub_polls w @ new, pool := Some p, loops := (\<lambda>i. loops w i \<or> i \<in> set new)\<rparr>
      else w)"

text \<open>\<open>os\<close> answers the system calls of \<open>listen\<close>.\<close>

definition server_start :: "running_mode \<Rightarrow> nat list \<Rightarrow> listen_os \<Rightarrow> sw \<Rightarrow> (bool \<times> sw) result" where
  "server_start m ids os w =
     (if thread_num w \<le> 0 then Inr (False, w)
      else if started w then Inr (False, w)
      else
        let w1 = w\<lparr>started := True\<rparr> in
        if thread_num w1 > kMaxThreadNum then Inr (False, w1\<lparr>started := False\<rparr>)
        else
          let w2 = start_polls ids (w1\<lparr>mode := m\<rparr>) in
          andthen (acceptor_listen os (sv_acceptor w2)) (\<lambda>(ok, a).
            let w3 = w2\<lparr>sv_acceptor := a\<rparr> in
            if \<not> ok then Inr (False, (shutdown_polls w3)\<lparr>started := False\<rparr>) else Inr (True, w3)))"

section \<open>Stopping\<close>

definition is_in_managed_poll_thread :: "sw \<Rightarrow> bool" where
  "is_in_managed_poll_thread w = (case on_poll w of None \<Rightarrow> False | Some i \<Rightarrow> i = 0 \<or> i \<in> set (sub_polls w))"

text \<open>A closure run on a poll's thread, waiting for it: it returns if that poll's loop runs it.\<close>

definition run_in_poll_and_wait :: "nat \<Rightarrow> server_event \<Rightarrow> sw \<Rightarrow> sw result" where
  "run_in_poll_and_wait poll e w =
     (if on_poll w = Some poll \<or> loops w poll then Inr (s_emit [e] w) else Inl Never_returns)"

fun for_conns :: "(nat \<Rightarrow> server_event) \<Rightarrow> nat list \<Rightarrow> sw \<Rightarrow> sw result" where
  "for_conns e [] w = Inr w"
| "for_conns e (i # is) w = andthen (run_in_poll_and_wait (fst (objs w ! i)) (e i) w) (for_conns e is)"

definition stop_acceptor :: "sw \<Rightarrow> sw result" where
  "stop_acceptor w =
     andthen (acceptor_shutdown ((sv_acceptor w)\<lparr>a_in_poll := (on_poll w = Some 0), loop_alive := loops w 0\<rparr>)) (\<lambda>a. Inr (s_emit [S_acceptor_shutdown] (w\<lparr>sv_acceptor := a\<rparr>)))"

text \<open>
  The wait of \<open>shutdown_impl_\<close> for the connections to go, in steps of 100 milliseconds. \<open>env\<close> tells
  which descriptors' connections report their end during each step.
\<close>

definition sleep_step :: "fd list \<Rightarrow> sw \<Rightarrow> sw" where
  "sleep_step hs w = (fold on_conn_close hs w)\<lparr>sv_now := sv_now w + 100000000\<rparr>"

lemma fold_on_conn_close_now [simp]: "sv_now (fold on_conn_close hs w) = sv_now w"
  by (induction hs arbitrary: w) (simp_all add: on_conn_close_def)

function wait_for_conns :: "time \<Rightarrow> fd list list \<Rightarrow> sw \<Rightarrow> sw" where
  "wait_for_conns deadline env w =
     (if sv_now w < deadline \<and> connection_count w \<noteq> 0
      then wait_for_conns deadline (tl env) (sleep_step (case env of [] \<Rightarrow> [] | hs # _ \<Rightarrow> hs) w)
      else w)"
  by pat_completeness auto
termination
  by (relation "measure (\<lambda>(deadline, _, w). nat (deadline - sv_now w))") (auto simp: sleep_step_def)

declare wait_for_conns.simps [simp del]

definition cleanup_all :: "sw \<Rightarrow> sw result" where
  "cleanup_all w = (let snapshot = map snd (conns w) in for_conns S_conn_cleanup snapshot (w\<lparr>conns := []\<rparr>))"

definition shutdown_impl :: "fd list list \<Rightarrow> sw \<Rightarrow> sw result" where
  "shutdown_impl env w =
     andthen (stop_acceptor w) (\<lambda>w1.
     andthen (for_conns S_conn_shutdown (map snd (conns w1)) w1) (\<lambda>w2.
     let w3 = (if shutdown_timeout_ms w2 > 0
               then wait_for_conns (sv_now w2 + 1000000 * uint (shutdown_timeout_ms w2)) env w2 else w2)
     in andthen (cleanup_all w3) (\<lambda>w4. Inr ((shutdown_polls w4)\<lparr>shutting_down := False\<rparr>))))"

definition close_impl :: "sw \<Rightarrow> sw result" where
  "close_impl w =
     andthen (stop_acceptor w) (\<lambda>w1.
     andthen (cleanup_all w1) (\<lambda>w2. Inr ((shutdown_polls w2)\<lparr>shutting_down := False\<rparr>)))"

text \<open>In one-thread mode the connections are cleaned up directly on the caller's thread.\<close>

definition deadline_passed :: "sw \<Rightarrow> bool" where
  "deadline_passed w = (case shutdown_deadline w of None \<Rightarrow> False | Some d \<Rightarrow> d \<le> sv_now w)"

definition finish_shutdown_all_one_thread :: "sw \<Rightarrow> sw" where
  "finish_shutdown_all_one_thread w =
     (if mode w \<noteq> kAllOneThread then w
      else if \<not> shutting_down w then w
      else if connection_count w \<noteq> 0 \<and> \<not> deadline_passed w then w
      else
        let w1 = s_emit (map (S_conn_cleanup \<circ> snd) (conns w)) (w\<lparr>conns := []\<rparr>)
        in (shutdown_polls w1)\<lparr>shutting_down := False, started := False\<rparr>)"

definition shutdown_all_one_thread :: "sw \<Rightarrow> sw result" where
  "shutdown_all_one_thread w =
     (if \<not> started w then Inr w
      else if shutting_down w then Inr w
      else
        let w1 = w\<lparr>shutting_down := True\<rparr> in
        ensure (on_poll w1 = Some 0) ''kAllOneThread shutdown must be called on the poll thread''
        (let w2 = w1\<lparr>shutdown_deadline := (if shutdown_timeout_ms w1 > 0
                       then Some (sv_now w1 + 1000000 * uint (shutdown_timeout_ms w1)) else None)\<rparr>
         in andthen (stop_acceptor w2) (\<lambda>w3.
              Inr (finish_shutdown_all_one_thread
                     (s_emit (map (S_conn_shutdown \<circ> snd) (conns w3)) w3)))))"

text \<open>
  The exit thread, which is none of the poll threads, runs its job and ends. Joining it waits for
  that, with the caller's own loop blocked meanwhile.
\<close>

definition run_exit_thread :: "nat \<Rightarrow> fd list list \<Rightarrow> sw \<Rightarrow> sw result" where
  "run_exit_thread self env w =
     (let w1 = w\<lparr>on_poll := None, thread_self := self\<rparr>;
          back = (\<lambda>w2. Inr (w2\<lparr>exit_thread := Finished, on_poll := on_poll w, thread_self := thread_self w\<rparr>)) in
      case exit_thread w of
        Running Exit_shutdown \<Rightarrow> andthen (shutdown_impl env w1) back
      | Running Exit_close \<Rightarrow> andthen (close_impl w1) back
      | _ \<Rightarrow> Inr w)"

definition blocked_loops :: "sw \<Rightarrow> nat \<Rightarrow> bool" where
  "blocked_loops w = (case on_poll w of None \<Rightarrow> loops w | Some i \<Rightarrow> (loops w)(i := False))"

definition wait_exit_thread :: "nat \<Rightarrow> fd list list \<Rightarrow> sw \<Rightarrow> sw result" where
  "wait_exit_thread tid env w =
     andthen (run_exit_thread tid env (w\<lparr>loops := blocked_loops w\<rparr>)) (\<lambda>w1. Inr (w1\<lparr>exit_thread := No_thread\<rparr>))"

text \<open>\<open>tid\<close> is the id of the exit thread; called on that thread, \<open>join_exit_thread_\<close> detaches it.\<close>

definition join_exit_thread :: "nat \<Rightarrow> fd list list \<Rightarrow> sw \<Rightarrow> sw result" where
  "join_exit_thread tid env w =
     (if exit_thread w = No_thread then Inr w
      else if tid = thread_self w then Inr (w\<lparr>exit_thread := No_thread\<rparr>)
      else wait_exit_thread tid env w)"

definition start_exit_thread :: "nat \<Rightarrow> fd list list \<Rightarrow> exit_job \<Rightarrow> sw \<Rightarrow> sw result" where
  "start_exit_thread tid env job w =
     andthen (if exit_thread w \<noteq> No_thread then wait_exit_thread tid env w else Inr w)
       (\<lambda>w1. Inr (w1\<lparr>exit_thread := Running job\<rparr>))"

definition server_shutdown :: "nat \<Rightarrow> fd list list \<Rightarrow> sw \<Rightarrow> sw result" where
  "server_shutdown tid env w =
     (if \<not> started w \<and> \<not> shutting_down w then Inr w
      else if mode w = kAllOneThread then shutdown_all_one_thread w
      else if \<not> started w then Inr w
      else
        let w1 = w\<lparr>started := False\<rparr> in
        if is_in_managed_poll_thread w1 then start_exit_thread tid env Exit_shutdown w1
        else shutdown_impl env w1)"

definition server_close :: "nat \<Rightarrow> fd list list \<Rightarrow> sw \<Rightarrow> sw result" where
  "server_close tid env w =
     (let was_started = started w; w1 = w\<lparr>started := False\<rparr> in
      if \<not> was_started \<and> \<not> shutting_down w1 then Inr w1
      else
        let w2 = (if was_started then w1 else w1\<lparr>shutting_down := False\<rparr>) in
        if mode w2 = kOnePollPerThread \<and> is_in_managed_poll_thread w2 then start_exit_thread tid env Exit_close w2
        else close_impl w2)"

text \<open>
  \<open>Server::poll\<close>; \<open>round\<close> is what a round of the main poll does (accepting, closing, closures).
  \<open>IOEventPoll::poll\<close> does nothing once the poll is shut down. \<open>Server::run\<close> has the same guard.
\<close>

definition main_poll_round :: "(sw \<Rightarrow> sw result) \<Rightarrow> sw \<Rightarrow> sw result" where
  "main_poll_round round w = (if poll_shut (sv_acceptor w) then Inr w else round w)"

definition server_poll :: "(sw \<Rightarrow> sw result) \<Rightarrow> sw \<Rightarrow> sw result" where
  "server_poll round w =
     (if \<not> started w \<and> \<not> shutting_down w then Inr w
      else andthen (main_poll_round round w) (\<lambda>w1. Inr (finish_shutdown_all_one_thread w1)))"

definition Server_delete :: "nat \<Rightarrow> fd list list \<Rightarrow> sw \<Rightarrow> sw result" where
  "Server_delete tid env w = andthen (server_shutdown tid env w) (join_exit_thread tid env)"

end
