(* ===== verification/App_Chat.thy ===== *)
theory App_Chat
  imports App_Clients Server
begin

text \<open>
  The chat server: src/examples/chat_server.

  The map \<open>connections_\<close> from descriptors to connections is an association list to the numbers of the
  connection objects, as for the server's own registry; the hash map is iterated in the order of
  the list. The callbacks of one connection are defined on its world, with the map as the state of
  the program. The server is the map and the worlds of all its connections: an operation on one
  of them runs in its world with the common map put in, so that a close callback that runs inside of
  a broadcast changes the map the others see. Each connection belongs to a poll; a broadcast runs on
  the poll thread of the sender.
\<close>

section \<open>Callbacks\<close>

type_synonym chat_map = "(fd \<times> nat) list"

text \<open>\<open>me\<close> is the number of the connection the callback belongs to.\<close>

definition chat_on_connection :: "nat \<Rightarrow> chat_map cw \<Rightarrow> chat_map cw result" where
  "chat_on_connection me w = Inr (install_callbacks (with_app (conns_put (c_handle w) me) w))"

definition chat_on_close :: "int \<Rightarrow> chat_map cw \<Rightarrow> chat_map cw result" where
  "chat_on_close err w = Inr (with_app (conns_erase (c_handle w)) w)"

definition chat_cb :: "chat_map user_cb" where
  "chat_cb = quiet_user\<lparr>u_close := chat_on_close\<rparr>"

section \<open>Broadcasting\<close>

record chat_server =
  cs_map :: chat_map
  cs_conns :: "chat_map cw list"
  cs_polls :: "nat list"
  cs_peers :: "(byte list \<times> nat) list"

definition on_chat_conn :: "nat \<Rightarrow> (chat_map cw \<Rightarrow> chat_map cw result) \<Rightarrow> chat_server \<Rightarrow> chat_server result" where
  "on_chat_conn i f s =
     andthen (f ((cs_conns s ! i)\<lparr>app := cs_map s\<rparr>))
       (\<lambda>w'. Inr (s\<lparr>cs_map := app w', cs_conns := (cs_conns s)[i := w']\<rparr>))"

definition chat_targets :: "chat_server \<Rightarrow> nat list" where
  "chat_targets s = map snd (filter (\<lambda>(handle, i). c_state (cs_conns s ! i) = kConnected) (cs_map s))"

definition chat_send :: "nat \<Rightarrow> byte list \<Rightarrow> nat \<Rightarrow> chat_server \<Rightarrow> chat_server result" where
  "chat_send p msg i s =
     (if c_state (cs_conns s ! i) = kConnected
      then on_chat_conn i (if cs_polls s ! i = p then send chat_cb (Some msg)
                           else on_other_thread (send chat_cb (Some msg))) s
      else Inr s)"

fun chat_send_all :: "nat \<Rightarrow> byte list \<Rightarrow> nat list \<Rightarrow> chat_server \<Rightarrow> chat_server result" where
  "chat_send_all p msg [] s = Inr s"
| "chat_send_all p msg (i # is) s = andthen (chat_send p msg i s) (chat_send_all p msg is)"

definition broadcast_message :: "nat \<Rightarrow> byte list \<Rightarrow> chat_server \<Rightarrow> chat_server result" where
  "broadcast_message p msg s = chat_send_all p msg (chat_targets s) s"

definition chat_line :: "byte list \<times> nat \<Rightarrow> byte list \<Rightarrow> byte list" where
  "chat_line peer msg = fst peer @ bytes '':'' @ bytes (digits (snd peer)) @ bytes '' '' @ msg"

text \<open>\<open>on_message_\<close> for the connection with number \<open>i\<close>.\<close>

definition chat_on_message :: "nat \<Rightarrow> chat_server \<Rightarrow> chat_server result" where
  "chat_on_message i s =
     andthen (message_text (cs_conns s ! i)) (\<lambda>msg.
     andthen (on_chat_conn i consume s)
       (broadcast_message (cs_polls s ! i) (chat_line (cs_peers s ! i) msg)))"

section \<open>Closing\<close>

text \<open>
  By the time of the close callback the connection has given up its descriptor. So the callback
  always erases the same key, and the closing of a connection is that of a program with a close
  callback that does not look at the connection.
\<close>

definition chat_base :: "chat_map user_cb" where
  "chat_base = closing_user_cb (\<lambda>_. conns_erase invalid_socket) (\<lambda>_ m. m)"

lemma chat_same_cleanup: "same_cleanup chat_cb chat_base"
proof -
  have "do_cleanup chat_cb err w = do_cleanup chat_base err w" for err w
    by (auto simp: do_cleanup_def chat_cb_def chat_base_def quiet_user_def call_if_def chat_on_close_def close_handle_def
          with_app_def Let_def intro: andthen_cong)
  then show ?thesis by (auto simp: same_cleanup_def chat_cb_def chat_base_def closing_user_cb_def)
qed

lemma conns_erase_none: "h \<notin> fst ` set cs \<Longrightarrow> conns_erase h cs = cs"
  by (induction cs) (auto simp: conns_erase_def)

text \<open>What closing and sending do to the map and the output, for a map without that key.\<close>

abbreviation chat_keeps :: "chat_map \<Rightarrow> cell list \<Rightarrow> chat_map \<Rightarrow> bool \<Rightarrow> conn_event list \<Rightarrow> bool" where
  "chat_keeps m out \<equiv> \<lambda>a c l. a = m \<and> snd (stream l) = out"

lemma chat_program:
  assumes "invalid_socket \<notin> fst ` set m"
  shows "closing_program chat_base (chat_keeps m out) (\<lambda>_. conns_erase invalid_socket) (\<lambda>_ m. m)"
  using assms by unfold_locales (auto simp: chat_base_def owed_inert owed_close conns_erase_none)

lemma chat_base_ok: "user_ok chat_base"
  using closing_program.base_ok [OF chat_program [of "[]" "[]"]] by (simp add: user_ok_def chat_base_def)

lemma chat_close_event:
  assumes "conn_inv w" and "invalid_socket \<notin> fst ` set (app w)"
  shows "\<exists>w'. handle_close_event chat_cb err w = Inr w' \<and> conn_inv w' \<and> follows w w' \<and> c_state w' = kDisconnected \<and>
     app w' = app w \<and> owed_cells w' = owed_cells w \<and> queued_work w' = queued_work w"
proof -
  from handle_close_event_ok [OF chat_base_ok conn_invD [OF assms(1)], of err] obtain w' where
    w': "handle_close_event chat_base err w = Inr w'" "conn_inv w'" "follows w w'" "c_state w' = kDisconnected" by blast
  have "calm (chat_keeps (app w) (owed_cells w)) w w'"
    by (rule closing_program.handle_close_event_calm [OF chat_program [OF assms(2)] w'(1)])
  then show ?thesis using w' handle_close_event_base [OF chat_same_cleanup] by (simp add: calm_def owed_cells_def)
qed

lemma chat_send_here:
  assumes inv: "conn_inv w" and st: "live w" and room: "has_room msg w" and m: "invalid_socket \<notin> fst ` set (app w)"
  shows "\<exists>w'. send chat_cb (Some msg) w = Inr w' \<and> conn_inv w' \<and> follows w w' \<and> app w' = app w \<and>
     owed_cells w' = owed_cells w @ map Some msg \<and> queued_work w' = queued_work w"
proof -
  let ?I = "chat_keeps (app w) (owed_cells w @ map Some msg)"
  have "?I (app w) (live w) (log w @ [Ev_queued msg])" by (simp add: stream_step_owed owed_cells_def)
  moreover have "msg = [] \<Longrightarrow> ?I (app w) (live w) (log w)" by (simp add: owed_cells_def)
  ultimately show ?thesis
    using closing_program.send_keeps [OF chat_program [OF m, of "owed_cells w @ map Some msg"] inv st room]
    by (auto simp: send_base [OF chat_same_cleanup] owed_cells_def)
qed

section \<open>The map and the connections\<close>

text \<open>
  Every connection that is up is in the map, under its own descriptor; an object is in the map
  once, and no key is the invalid descriptor.
\<close>

definition chat_ok :: "chat_server \<Rightarrow> bool" where
  "chat_ok s \<longleftrightarrow> distinct (map snd (cs_map s)) \<and> invalid_socket \<notin> fst ` set (cs_map s) \<and>
     (\<forall>e \<in> set (cs_map s). snd e < length (cs_conns s)) \<and>
     (\<forall>i < length (cs_conns s). conn_inv (cs_conns s ! i) \<and>
        (live (cs_conns s ! i) \<longrightarrow> (c_handle (cs_conns s ! i), i) \<in> set (cs_map s)))"

lemma alike_app: "alike w (w\<lparr>app := a\<rparr>)"
  by (simp add: alike_def)

lemma app_put [simp]:
  "conn_inv (w\<lparr>app := a\<rparr>) = conn_inv w" "owed_cells (w\<lparr>app := a\<rparr>) = owed_cells w"
  "out_cells (w\<lparr>app := a\<rparr>) = out_cells w" "in_cells (w\<lparr>app := a\<rparr>) = in_cells w"
  "queued_work (w\<lparr>app := a\<rparr>) = queued_work w" "has_room d (w\<lparr>app := a\<rparr>) = has_room d w"
  using alike_inv(2) [OF alike_app [of w a]] alike_cells [OF alike_app [of w a]]
  by (simp_all add: queued_work_def has_room_def)

text \<open>An operation on one connection that leaves the map alone.\<close>

lemma chat_ok_update:
  assumes ok: "chat_ok s" and i: "i < length (cs_conns s)" and w': "conn_inv w'"
    and up: "live w' \<Longrightarrow> live (cs_conns s ! i) \<and> c_handle w' = c_handle (cs_conns s ! i)"
  shows "chat_ok (s\<lparr>cs_conns := (cs_conns s)[i := w']\<rparr>)"
  using assms by (auto simp: chat_ok_def nth_list_update)

text \<open>
  What a connection gets of a broadcast: on the sender's own poll the line is accepted for output at
  once, on another poll a task that sends it is posted there.
\<close>

definition got_line :: "bool \<Rightarrow> byte list \<Rightarrow> chat_map cw \<Rightarrow> chat_map cw \<Rightarrow> bool" where
  "got_line here line w w' \<longleftrightarrow>
     owed_cells w' = owed_cells w @ (if here then map Some line else []) \<and>
     queued_work w' = queued_work w @ (if here then [] else [Task_send line])"

definition untouched :: "chat_map cw \<Rightarrow> chat_map cw \<Rightarrow> bool" where
  "untouched w w' \<longleftrightarrow> owed_cells w' = owed_cells w \<and> queued_work w' = queued_work w"

lemma chat_send_ok:
  assumes ok: "chat_ok s" and i: "i < length (cs_conns s)" and st: "live (cs_conns s ! i)"
    and msg: "msg \<noteq> []" "has_room msg (cs_conns s ! i)"
  shows "\<exists>w'. chat_send p msg i s = Inr (s\<lparr>cs_conns := (cs_conns s)[i := w']\<rparr>) \<and>
     chat_ok (s\<lparr>cs_conns := (cs_conns s)[i := w']\<rparr>) \<and> got_line (cs_polls s ! i = p) msg (cs_conns s ! i) w'"
proof -
  let ?w = "(cs_conns s ! i)\<lparr>app := cs_map s\<rparr>"
  let ?f = "if cs_polls s ! i = p then send chat_cb (Some msg) else on_other_thread (send chat_cb (Some msg))"
  have w: "conn_inv ?w" "live ?w" "has_room msg ?w" "invalid_socket \<notin> fst ` set (app ?w)"
    using ok i st msg(2) by (simp_all add: chat_ok_def)
  have "\<exists>w'. ?f ?w = Inr w' \<and> conn_inv w' \<and> follows ?w w' \<and> app w' = cs_map s \<and> got_line (cs_polls s ! i = p) msg ?w w'"
  proof (cases "cs_polls s ! i = p")
    case True
    then show ?thesis using chat_send_here [OF w] by (auto simp: got_line_def)
  next
    case False
    have "got_line False msg ?w (post (Task_send msg) ?w)" by (simp add: got_line_def owed_cells_def post_def queued_work_def)
    moreover have "app (post (Task_send msg) ?w) = cs_map s" by (simp add: post_def)
    moreover have "conn_inv (post (Task_send msg) ?w)" "follows ?w (post (Task_send msg) ?w)"
      using alike_inv(2,3) [OF alike_post [of ?w "Task_send msg"]] w(1) by blast+
    ultimately show ?thesis using False remote_send [OF w(2) msg(1), of chat_cb] by auto
  qed
  then obtain w' where w': "?f ?w = Inr w'" "conn_inv w'" "follows ?w w'" "app w' = cs_map s"
    "got_line (cs_polls s ! i = p) msg ?w w'" by blast
  have "chat_send p msg i s = Inr (s\<lparr>cs_conns := (cs_conns s)[i := w']\<rparr>)"
    using st w'(1,4) by (simp add: chat_send_def on_chat_conn_def)
  moreover have "c_handle w' = c_handle (cs_conns s ! i)" if "live w'" using followsD(10) [OF w'(3)] that by simp
  then have "chat_ok (s\<lparr>cs_conns := (cs_conns s)[i := w']\<rparr>)" using st by (intro chat_ok_update [OF ok i w'(2)]) simp
  ultimately show ?thesis using w'(5) by (auto simp: got_line_def)
qed

text \<open>
  The sending half of a broadcast, in whatever state it is reached: each of the collected
  connections that is still up gets the line once, and nobody else.
\<close>

definition delivered :: "nat \<Rightarrow> byte list \<Rightarrow> nat set \<Rightarrow> chat_server \<Rightarrow> chat_server \<Rightarrow> bool" where
  "delivered p line T s s' \<longleftrightarrow> cs_map s' = cs_map s \<and> cs_polls s' = cs_polls s \<and> cs_peers s' = cs_peers s \<and>
     length (cs_conns s') = length (cs_conns s) \<and>
     (\<forall>j < length (cs_conns s).
        (j \<in> T \<and> live (cs_conns s ! j) \<longrightarrow> got_line (cs_polls s ! j = p) line (cs_conns s ! j) (cs_conns s' ! j)) \<and>
        (j \<notin> T \<or> \<not> live (cs_conns s ! j) \<longrightarrow> untouched (cs_conns s ! j) (cs_conns s' ! j)))"

lemma deliveredD:
  assumes "delivered p line T s s'" and "j < length (cs_conns s)"
  shows "j \<in> T \<Longrightarrow> live (cs_conns s ! j) \<Longrightarrow> got_line (cs_polls s ! j = p) line (cs_conns s ! j) (cs_conns s' ! j)"
    and "j \<notin> T \<or> \<not> live (cs_conns s ! j) \<Longrightarrow> untouched (cs_conns s ! j) (cs_conns s' ! j)"
  using assms by (auto simp: delivered_def)

lemma delivered_insert:
  assumes "i < length (cs_conns s)" and "i \<notin> T" and "live (cs_conns s ! i)"
    and got: "got_line (cs_polls s ! i = p) line (cs_conns s ! i) w'"
    and rest: "delivered p line T (s\<lparr>cs_conns := (cs_conns s)[i := w']\<rparr>) s'"
  shows "delivered p line (insert i T) s s'"
proof -
  let ?s1 = "s\<lparr>cs_conns := (cs_conns s)[i := w']\<rparr>"
  have "(j \<in> insert i T \<and> live (cs_conns s ! j) \<longrightarrow> got_line (cs_polls s ! j = p) line (cs_conns s ! j) (cs_conns s' ! j)) \<and>
        (j \<notin> insert i T \<or> \<not> live (cs_conns s ! j) \<longrightarrow> untouched (cs_conns s ! j) (cs_conns s' ! j))"
    if j: "j < length (cs_conns s)" for j
  proof (cases "j = i")
    case True
    from rest assms(1,2) have "untouched w' (cs_conns s' ! i)" by (auto simp: delivered_def)
    then show ?thesis using True assms(3) got by (simp add: got_line_def untouched_def)
  next
    case False
    then have "cs_conns ?s1 ! j = cs_conns s ! j" "cs_polls ?s1 = cs_polls s" by simp_all
    moreover have "j < length (cs_conns ?s1)" using j by simp
    ultimately show ?thesis using rest False unfolding delivered_def by (metis insert_iff)
  qed
  then show ?thesis using rest by (simp add: delivered_def)
qed

lemma chat_send_all_ok:
  assumes "chat_ok s" and "distinct is" and "\<And>i. i \<in> set is \<Longrightarrow> i < length (cs_conns s)" and "msg \<noteq> []"
    and "\<And>i. i \<in> set is \<Longrightarrow> live (cs_conns s ! i) \<Longrightarrow> has_room msg (cs_conns s ! i)"
  shows "\<exists>s'. chat_send_all p msg is s = Inr s' \<and> chat_ok s' \<and> delivered p msg (set is) s s'"
  using assms
proof (induction "is" arbitrary: s)
  case Nil
  then show ?case by (auto simp: delivered_def untouched_def)
next
  case (Cons i "is")
  show ?case
  proof (cases "live (cs_conns s ! i)")
    case True
    from chat_send_ok [where p = p, OF Cons.prems(1) _ True Cons.prems(4)] Cons.prems(3,5) True obtain w' where
      1: "chat_send p msg i s = Inr (s\<lparr>cs_conns := (cs_conns s)[i := w']\<rparr>)" "chat_ok (s\<lparr>cs_conns := (cs_conns s)[i := w']\<rparr>)"
         "got_line (cs_polls s ! i = p) msg (cs_conns s ! i) w'" by auto
    let ?s1 = "s\<lparr>cs_conns := (cs_conns s)[i := w']\<rparr>"
    have room: "has_room msg (cs_conns ?s1 ! j)" if "j \<in> set is" "live (cs_conns ?s1 ! j)" for j
      using that Cons.prems(2,3,5) by (cases "j = i") auto
    from Cons.IH [OF 1(2) _ _ Cons.prems(4) room] Cons.prems(2,3) obtain s' where
      2: "chat_send_all p msg is ?s1 = Inr s'" "chat_ok s'" "delivered p msg (set is) ?s1 s'" by auto
    have "delivered p msg (set (i # is)) s s'"
      using delivered_insert [OF _ _ True 1(3) 2(3)] Cons.prems(2,3) by simp
    then show ?thesis using 1(1) 2 by auto
  next
    case False
    then have "chat_send p msg i s = Inr s" by (simp add: chat_send_def)
    moreover from Cons.IH [OF Cons.prems(1)] Cons.prems(2-5) obtain s' where
      "chat_send_all p msg is s = Inr s'" "chat_ok s'" "delivered p msg (set is) s s'" by auto
    ultimately show ?thesis using False by (auto simp: delivered_def)
  qed
qed

lemma delivered_from:
  assumes "i < length (cs_conns s)" and v: "live v \<longleftrightarrow> live (cs_conns s ! i)" "owed_cells v = owed_cells (cs_conns s ! i)"
      "queued_work v = queued_work (cs_conns s ! i)"
    and d: "delivered p line T (s\<lparr>cs_conns := (cs_conns s)[i := v]\<rparr>) s'"
    and T: "T = {j. j < length (cs_conns s) \<and> live ((cs_conns s)[i := v] ! j)}"
  shows "delivered p line {0..<length (cs_conns s)} s s'"
proof -
  let ?s1 = "s\<lparr>cs_conns := (cs_conns s)[i := v]\<rparr>"
  have "(live (cs_conns s ! j) \<longrightarrow> got_line (cs_polls s ! j = p) line (cs_conns s ! j) (cs_conns s' ! j)) \<and>
        (\<not> live (cs_conns s ! j) \<longrightarrow> untouched (cs_conns s ! j) (cs_conns s' ! j))" if j: "j < length (cs_conns s)" for j
  proof -
    have "live (cs_conns ?s1 ! j) = live (cs_conns s ! j)" "owed_cells (cs_conns ?s1 ! j) = owed_cells (cs_conns s ! j)"
      "queued_work (cs_conns ?s1 ! j) = queued_work (cs_conns s ! j)" using v j by (cases "j = i"; simp)+
    moreover from this j have "j \<in> T \<longleftrightarrow> live (cs_conns s ! j)" by (simp add: T)
    moreover have "j < length (cs_conns ?s1)" "cs_polls ?s1 = cs_polls s" using j by simp_all
    moreover note deliveredD [OF d, of j]
    ultimately show ?thesis unfolding got_line_def untouched_def by metis
  qed
  then show ?thesis using d by (simp add: delivered_def)
qed

lemma chat_targets_exact:
  assumes "chat_ok s"
  shows "distinct (chat_targets s)" and "set (chat_targets s) = {i. i < length (cs_conns s) \<and> live (cs_conns s ! i)}"
proof -
  let ?up = "\<lambda>(handle :: fd, i). live (cs_conns s ! i)"
  have "distinct (map snd (filter ?up m))" if "distinct (map snd m)" for m
    using that by (induction m) auto
  then show "distinct (chat_targets s)" using assms by (simp add: chat_targets_def chat_ok_def)
  show "set (chat_targets s) = {i. i < length (cs_conns s) \<and> live (cs_conns s ! i)}"
    using assms by (force simp: chat_targets_def chat_ok_def)
qed

text \<open>The whole of \<open>on_message_\<close>.\<close>

definition chat_room :: "byte list \<Rightarrow> chat_server \<Rightarrow> bool" where
  "chat_room line s \<longleftrightarrow> list_all (\<lambda>w. live w \<longrightarrow> has_room line w) (cs_conns s)"

lemma chat_on_message_ok:
  assumes ok: "chat_ok s" and i: "i < length (cs_conns s)" and msg: "in_cells (cs_conns s ! i) = map Some msg" "msg \<noteq> []"
    and room: "chat_room (chat_line (cs_peers s ! i) msg) s"
  shows "\<exists>s'. chat_on_message i s = Inr s' \<and> chat_ok s' \<and>
     delivered (cs_polls s ! i) (chat_line (cs_peers s ! i) msg) {0..<length (cs_conns s)} s s'"
proof -
  let ?w = "(cs_conns s ! i)\<lparr>app := cs_map s\<rparr>" and ?line = "chat_line (cs_peers s ! i) msg" and ?p = "cs_polls s ! i"
  have inv: "conn_inv (cs_conns s ! i)" using ok i by (simp add: chat_ok_def)
  from msg obtain b where b: "read_buffer (cs_conns s ! i) = Some b" by (auto simp: in_cells_def split: option.splits)
  from consume_ok [of ?w b] inv b obtain b' where
    b': "consume ?w = Inr (?w\<lparr>read_buffer := Some b'\<rparr>)" "conn_inv (?w\<lparr>read_buffer := Some b'\<rparr>)" by auto
  let ?v = "?w\<lparr>read_buffer := Some b'\<rparr>"
  let ?s1 = "s\<lparr>cs_conns := (cs_conns s)[i := ?v]\<rparr>"
  have v: "live ?v \<longleftrightarrow> live (cs_conns s ! i)" "has_room ?line ?v \<longleftrightarrow> has_room ?line (cs_conns s ! i)"
    "owed_cells ?v = owed_cells (cs_conns s ! i)" "queued_work ?v = queued_work (cs_conns s ! i)"
    by (simp_all add: has_room_def out_cells_def owed_cells_def queued_work_def)
  have ok1: "chat_ok ?s1" by (rule chat_ok_update [OF ok i b'(2)]) simp
  have "has_room ?line (cs_conns ?s1 ! j)" if "j < length (cs_conns s)" "live (cs_conns ?s1 ! j)" for j
    using that room v(1,2) by (cases "j = i") (simp_all add: chat_room_def list_all_length)
  moreover have "?line \<noteq> []" by (simp add: chat_line_def bytes_def)
  ultimately obtain s' where
    s': "broadcast_message ?p ?line ?s1 = Inr s'" "chat_ok s'" "delivered ?p ?line (set (chat_targets ?s1)) ?s1 s'"
    using chat_send_all_ok [OF ok1 chat_targets_exact(1) [OF ok1], of ?line ?p] chat_targets_exact(2) [OF ok1]
    by (auto simp: broadcast_message_def)
  have "chat_on_message i s = Inr s'"
    using message_text_ok [OF inv msg] b'(1) s'(1) by (simp add: chat_on_message_def on_chat_conn_def)
  moreover have "delivered ?p ?line {0..<length (cs_conns s)} s s'"
    by (rule delivered_from [OF i v(1,3,4) s'(3)]) (simp add: chat_targets_exact(2) [OF ok1])
  ultimately show ?thesis using s'(2) by blast
qed

section \<open>The server at work\<close>

text \<open>
  A connection is accepted under a descriptor no open connection has, set up by \<open>chat_on_connection\<close> on
  its poll thread; a message arrives; a connection is closed, for whatever reason; or something
  happens to one connection that neither opens it nor changes its descriptor: it reads, writes,
  sends what was posted to it, or starts to shut down.
\<close>

inductive chat_step :: "chat_server \<Rightarrow> chat_server \<Rightarrow> bool" where
  accept: "accepted w \<Longrightarrow> c_handle w \<notin> c_handle ` set (cs_conns s) \<Longrightarrow>
     start_accepted (Some (chat_on_connection (length (cs_conns s)))) (w\<lparr>app := cs_map s\<rparr>) = Inr w' \<Longrightarrow>
     chat_step s (s\<lparr>cs_map := app w', cs_conns := cs_conns s @ [w'], cs_polls := cs_polls s @ [p], cs_peers := cs_peers s @ [peer]\<rparr>)"
| message: "i < length (cs_conns s) \<Longrightarrow> in_cells (cs_conns s ! i) = map Some msg \<Longrightarrow> msg \<noteq> [] \<Longrightarrow>
     chat_room (chat_line (cs_peers s ! i) msg) s \<Longrightarrow> chat_on_message i s = Inr s' \<Longrightarrow> chat_step s s'"
| close: "i < length (cs_conns s) \<Longrightarrow> on_chat_conn i (handle_close_event chat_cb err) s = Inr s' \<Longrightarrow> chat_step s s'"
| io: "i < length (cs_conns s) \<Longrightarrow> conn_inv w' \<Longrightarrow> c_handle w' = c_handle (cs_conns s ! i) \<Longrightarrow>
     (live w' \<Longrightarrow> live (cs_conns s ! i)) \<Longrightarrow> chat_step s (s\<lparr>cs_conns := (cs_conns s)[i := w']\<rparr>)"

definition chat_start :: chat_server where
  "chat_start = \<lparr>cs_map = [], cs_conns = [], cs_polls = [], cs_peers = []\<rparr>"

lemma chat_close_ok:
  assumes ok: "chat_ok s" and i: "i < length (cs_conns s)"
  shows "\<exists>w'. on_chat_conn i (handle_close_event chat_cb err) s = Inr (s\<lparr>cs_conns := (cs_conns s)[i := w']\<rparr>) \<and>
     chat_ok (s\<lparr>cs_conns := (cs_conns s)[i := w']\<rparr>) \<and> c_state w' = kDisconnected \<and>
     (live (cs_conns s ! i) \<longrightarrow> c_handle w' = invalid_socket)"
proof -
  let ?w = "(cs_conns s ! i)\<lparr>app := cs_map s\<rparr>"
  have "conn_inv ?w" "invalid_socket \<notin> fst ` set (app ?w)" using ok i by (simp_all add: chat_ok_def)
  from chat_close_event [OF this, of err] obtain w' where
    w': "handle_close_event chat_cb err ?w = Inr w'" "conn_inv w'" "follows ?w w'" "c_state w' = kDisconnected" "app w' = cs_map s"
    by auto
  have "chat_ok (s\<lparr>cs_conns := (cs_conns s)[i := w']\<rparr>)" by (rule chat_ok_update [OF ok i w'(2)]) (simp add: w'(4))
  moreover have "live (cs_conns s ! i) \<longrightarrow> c_handle w' = invalid_socket" using followsD(4) [OF w'(3,4)] by simp
  ultimately show ?thesis using w' by (auto simp: on_chat_conn_def)
qed

lemma chat_accept_ok:
  assumes ok: "chat_ok s" and w: "accepted w" "c_handle w \<notin> c_handle ` set (cs_conns s)"
    and w': "start_accepted (Some (chat_on_connection (length (cs_conns s)))) (w\<lparr>app := cs_map s\<rparr>) = Inr w'"
  shows "chat_ok (s\<lparr>cs_map := app w', cs_conns := cs_conns s @ [w'], cs_polls := ps, cs_peers := qs\<rparr>)"
proof -
  let ?v = "w\<lparr>app := cs_map s\<rparr>" and ?n = "length (cs_conns s)"
  have "in_poll ?v" "epoll_ok (poller ?v)" "bufs_ok ?v" "fresh_handle (poller ?v) (c_handle ?v)" "out_cells ?v = []" "c_channel ?v = None"
    using w(1) by (simp_all add: accepted_def bufs_ok_def in_cells_def out_cells_def)
  from start_ok [OF this(1-5)] this(6) obtain x where
    x: "start ?v = Inr x" "conn_inv x" "is_up x" "c_handle x = c_handle w" "app x = cs_map s" by auto
  then have eq: "w' = install_callbacks (with_app (conns_put (c_handle w) ?n) x)"
    using w' by (simp add: start_accepted_def chat_on_connection_def)
  have h: "c_handle w' = c_handle w" using x(4) by (simp add: eq install_callbacks_def with_app_def)
  have inv: "conn_inv w'"
    using alike_inv(2) [OF alike_trans [OF alike_with_app [of x "conns_put (c_handle w) ?n"] alike_install]] x(2) by (simp add: eq)
  have "c_handle w \<noteq> invalid_socket" using up_has_buffers(3) [OF conn_invD(1) [OF x(2)] x(3)] x(4) by simp
  moreover have m: "app w' = (c_handle w, ?n) # filter (\<lambda>e. fst e \<noteq> c_handle w) (cs_map s)"
    using x(5) by (simp add: eq conns_put_def)
  moreover have "distinct (map snd (filter P m))" if "distinct (map snd m)" for P and m :: chat_map
    using that by (induction m) auto
  moreover have "c_handle (cs_conns s ! i) \<noteq> c_handle w" if "i < ?n" for i using w(2) that by (metis image_eqI nth_mem)
  ultimately show ?thesis using ok inv h
    by (auto simp: chat_ok_def nth_append less_Suc_eq)
qed

lemma chat_step_ok:
  assumes "chat_step s s'" and "chat_ok s"
  shows "chat_ok s'"
  using assms
proof (cases rule: chat_step.cases)
  case (accept w w' p peer)
  then show ?thesis using chat_accept_ok [OF assms(2)] by simp
next
  case (message i msg)
  then show ?thesis using chat_on_message_ok [OF assms(2)] by fastforce
next
  case (close i err)
  then show ?thesis using chat_close_ok [OF assms(2), of i err] by auto
next
  case (io i w')
  then show ?thesis using chat_ok_update [OF assms(2), of i w'] by simp
qed

lemma chat_reachable_ok:
  assumes "chat_step\<^sup>*\<^sup>* chat_start s"
  shows "chat_ok s"
  using assms
proof (induction rule: rtranclp_induct)
  case base
  then show ?case by (simp add: chat_start_def chat_ok_def)
next
  case (step s s')
  then show ?case using chat_step_ok by blast
qed

text \<open>A server that has accepted a connection, which has received a message.\<close>

lemma chat_sample:
  "\<exists>s. chat_step\<^sup>*\<^sup>* chat_start s \<and> length (cs_conns s) = 1 \<and> live (cs_conns s ! 0) \<and> in_cells (cs_conns s ! 0) = map Some [65] \<and>
     cs_peers s = [(bytes ''::1'', 5000)] \<and> out_cells (cs_conns s ! 0) = []"
proof -
  let ?w = "fresh_with [] :: chat_map cw" and ?peer = "(bytes ''::1'', 5000 :: nat)"
  from start_accepted_ok [OF fresh_with_accepted, of "[] :: chat_map"] obtain x where
    x: "start ?w = Inr x" "just_started ?w x" by blast
  let ?v = "install_callbacks (with_app (conns_put (c_handle x) 0) x)"
  let ?s1 = "\<lparr>cs_map = app ?v, cs_conns = [?v], cs_polls = [0], cs_peers = [?peer]\<rparr>"
  have "?w\<lparr>app := cs_map chat_start\<rparr> = ?w" by (simp add: chat_start_def fresh_with_def cw.defs conn.defs)
  then have "start_accepted (Some (chat_on_connection (length (cs_conns chat_start)))) (?w\<lparr>app := cs_map chat_start\<rparr>) = Inr ?v"
    using x(1) by (simp add: start_accepted_def chat_on_connection_def chat_start_def)
  from chat_step.accept [where p = 0 and peer = ?peer, OF fresh_with_accepted _ this] have 1: "chat_step chat_start ?s1" by (simp add: chat_start_def)
  have al: "alike x ?v" by (rule alike_trans [OF alike_with_app alike_install])
  have v: "conn_inv ?v" "live ?v" "out_cells ?v = []"
    using x(2) alike_inv(2) [OF al] alike_cells(3) [OF al] by (simp_all add: just_started_def install_callbacks_def)
  let ?u = "?v\<lparr>read_buffer := Some one_byte, recvs := []\<rparr>"
  have b: "buf_inv one_byte" "contents one_byte = [Some 65]"
    by (simp_all add: buf_inv_def contents_def one_byte_def readable_size_def)
  have "conn_inv ?u" using v(1) b by (auto simp: cw_defs split: option.splits)
  from chat_step.io [of 0 ?s1, OF _ this] have 2: "chat_step ?s1 (?s1\<lparr>cs_conns := [?u]\<rparr>)" using v by simp
  have "chat_step\<^sup>*\<^sup>* chat_start (?s1\<lparr>cs_conns := [?u]\<rparr>)" using 1 2 by (meson converse_rtranclp_into_rtranclp rtranclp.rtrancl_refl)
  moreover have "in_cells ?u = [Some 65]" "out_cells ?u = []" "live ?u" using v b by (simp_all add: in_cells_def out_cells_def)
  ultimately show ?thesis by (intro exI [of _ "?s1\<lparr>cs_conns := [?u]\<rparr>"]) simp
qed

section \<open>Properties\<close>

text \<open>
  C17. The chat server passes every message on to everyone. In any state it can reach, a message is
  taken out of the sender's buffer and sent, with the sender's address in front, to each
  connection that is up, the sender included, exactly once (directly on the sender's poll, by a posted
  task on another), and to no connection that is shutting down or closed; nothing fails, even when
  a send closes a connection and its close callback changes the map meanwhile.
\<close>

theorem chat_broadcast_exact:
  assumes run: "chat_step\<^sup>*\<^sup>* chat_start s" and i: "i < length (cs_conns s)"
    and msg: "in_cells (cs_conns s ! i) = map Some msg" "msg \<noteq> []"
    and room: "chat_room (chat_line (cs_peers s ! i) msg) s"
  shows "\<exists>s'. chat_on_message i s = Inr s' \<and> length (cs_conns s') = length (cs_conns s) \<and>
     (\<forall>j < length (cs_conns s).
        (live (cs_conns s ! j) \<longrightarrow>
           got_line (cs_polls s ! j = cs_polls s ! i) (chat_line (cs_peers s ! i) msg) (cs_conns s ! j) (cs_conns s' ! j)) \<and>
        (\<not> live (cs_conns s ! j) \<longrightarrow> untouched (cs_conns s ! j) (cs_conns s' ! j)))"
proof -
  from chat_on_message_ok [OF chat_reachable_ok [OF run] i msg room] obtain s' where
    s': "chat_on_message i s = Inr s'"
        "delivered (cs_polls s ! i) (chat_line (cs_peers s ! i) msg) {0..<length (cs_conns s)} s s'" by blast
  from s'(2) have "length (cs_conns s') = length (cs_conns s)" by (simp add: delivered_def)
  with s'(1) deliveredD [OF s'(2)] show ?thesis by (intro exI [of _ s']) simp
qed

theorem chat_broadcast_exact_witness:
  "\<exists>s s'. chat_step\<^sup>*\<^sup>* chat_start s \<and> chat_on_message 0 s = Inr s' \<and>
     got_line True (bytes ''::1:5000 A'') (cs_conns s ! 0) (cs_conns s' ! 0)"
proof -
  from chat_sample obtain s where s: "chat_step\<^sup>*\<^sup>* chat_start s" "length (cs_conns s) = 1" "live (cs_conns s ! 0)"
    "in_cells (cs_conns s ! 0) = map Some [65]" "cs_peers s = [(bytes ''::1'', 5000)]" "out_cells (cs_conns s ! 0) = []" by blast
  have line: "chat_line (cs_peers s ! 0) [65] = bytes ''::1:5000 A''"
    using s(5) by (simp add: chat_line_def bytes_def digits.simps char_of_def bit_0)
  have "chat_room (chat_line (cs_peers s ! 0) [65]) s"
    using s(2,6) by (simp add: line chat_room_def list_all_length has_room_def bytes_def)
  from chat_broadcast_exact [OF s(1) _ s(4) _ this] s(1-3) line show ?thesis by auto
qed

text \<open>
  C29. The chat server does not forget a closed connection. The close callback looks the connection
  up by its descriptor, which the connection has given up by then: closing a connection leaves the
  map as it was, and the entry under the descriptor it had keeps the closed connection (until
  another connection is accepted under that number).
\<close>

theorem chat_close_leaks:
  assumes run: "chat_step\<^sup>*\<^sup>* chat_start s" and i: "i < length (cs_conns s)" "live (cs_conns s ! i)"
  shows "\<exists>s'. on_chat_conn i (handle_close_event chat_cb err) s = Inr s' \<and>
     c_state (cs_conns s' ! i) = kDisconnected \<and> c_handle (cs_conns s' ! i) = invalid_socket \<and>
     cs_map s' = cs_map s \<and> (c_handle (cs_conns s ! i), i) \<in> set (cs_map s')"
proof -
  note ok = chat_reachable_ok [OF run]
  then have "(c_handle (cs_conns s ! i), i) \<in> set (cs_map s)" using i by (simp add: chat_ok_def)
  then show ?thesis using chat_close_ok [OF ok i(1), of err] i by auto
qed

theorem chat_close_leaks_witness:
  "\<exists>s s' h. chat_step\<^sup>*\<^sup>* chat_start s \<and> on_chat_conn 0 (handle_close_event chat_cb 0) s = Inr s' \<and>
     c_state (cs_conns s' ! 0) = kDisconnected \<and> (h, 0) \<in> set (cs_map s')"
proof -
  from chat_sample obtain s where s: "chat_step\<^sup>*\<^sup>* chat_start s" "length (cs_conns s) = 1" "live (cs_conns s ! 0)" by blast
  with chat_close_leaks [OF s(1), of 0 0] show ?thesis by auto
qed

end
