(* ===== verification/Server_Registry.thy ===== *)
theory Server_Registry
  imports Server
begin

text \<open>
  The server's registry of connections: which descriptors \<open>conns_\<close> holds while connections are
  accepted and end.

  \<^item> the contract of a map from descriptors to connections as a locale, provided by \<open>conns_put\<close> and
    \<open>conns_erase\<close> of the server;
  \<^item> what \<open>on_new_connection_\<close> and a read event of the acceptor do to it;
  \<^item> a step relation in which the acceptor's thread accepts while connections end on their own
    threads. A connection that ends closes its descriptor first (\<open>do_cleanup_\<close> in conn.cc) and then
    reports the end to the server, which erases the descriptor's entry.
\<close>

section \<open>Contract\<close>

locale handle_registry =
  fixes put :: "fd \<Rightarrow> 'v \<Rightarrow> 'r \<Rightarrow> 'r"
    and erase :: "fd \<Rightarrow> 'r \<Rightarrow> 'r"
    and look :: "'r \<Rightarrow> fd \<Rightarrow> 'v option"
    and entries :: "'r \<Rightarrow> nat"
    and ok :: "'r \<Rightarrow> bool"
  assumes ok_put: "ok r \<Longrightarrow> ok (put h v r)"
    and ok_erase: "ok r \<Longrightarrow> ok (erase h r)"
    and look_put: "look (put h v r) = (look r)(h \<mapsto> v)"
    and look_erase: "look (erase h r) = (look r)(h := None)"
    and entries: "ok r \<Longrightarrow> entries r = card (dom (look r))"
    and finite_look: "finite (dom (look r))"
begin

lemma entries_put: "ok r \<Longrightarrow> look r h = None \<Longrightarrow> entries (put h v r) = Suc (entries r)"
  by (simp add: entries ok_put look_put finite_look card_insert_if domIff)

lemma entries_erase: "ok r \<Longrightarrow> look r h = Some v \<Longrightarrow> Suc (entries (erase h r)) = entries r"
  by (metis card_Suc_Diff1 domI dom_fun_upd entries finite_look look_erase ok_erase)

lemma erase_absent: "ok r \<Longrightarrow> look r h = None \<Longrightarrow> look (erase h r) = look r"
  by (simp add: look_erase fun_upd_idem)

lemma erase_put: "look r h = None \<Longrightarrow> look (erase h (put h v r)) = look r"
  by (simp add: look_put look_erase fun_upd_idem)

lemma entries_bound:
  assumes "ok r" and "dom (look r) \<subseteq> {0..<2 ^ 31}"
  shows "entries r \<le> 2 ^ 31"
proof -
  have "card (dom (look r)) \<le> card {0..<2 ^ 31 :: int}" by (rule card_mono) (use assms(2) in auto)
  then show ?thesis using entries [OF assms(1)] by simp
qed

end

lemma map_of_filter_ne: "map_of (filter (\<lambda>e. fst e \<noteq> h) cs) = (map_of cs)(h := None)"
  by (induction cs) auto

interpretation reg: handle_registry conns_put conns_erase map_of length "\<lambda>cs. distinct (map fst cs)"
proof unfold_locales
  fix r :: "(fd \<times> nat) list"
  assume "distinct (map fst r)"
  then show "length r = card (dom (map_of r))"
    using distinct_card [of "map fst r"] by (simp add: dom_map_of_conv_image_fst)
qed (auto simp: conns_put_def conns_erase_def map_of_filter_ne distinct_map_filter finite_dom_map_of)

section \<open>A new connection\<close>

lemma s_emit_append: "s_emit fs (s_emit es w) = s_emit (es @ fs) w"
  by (simp add: s_emit_def)

definition valid_fd :: "fd \<Rightarrow> bool" where
  "valid_fd h \<longleftrightarrow> 0 \<le> h \<and> h < 2 ^ 31"

text \<open>In the mode with pool threads the pool has a poll to choose.\<close>

definition can_place :: "sw \<Rightarrow> bool" where
  "can_place w \<longleftrightarrow> (mode w = kOnePollPerThread \<longrightarrow> (\<exists>p. pool w = Some p \<and> polls p \<noteq> []))"

definition full :: "sw \<Rightarrow> bool" where
  "full w \<longleftrightarrow> max_connections w > 0 \<and> connection_count w \<ge> max_connections w"

definition has_address :: "sw \<Rightarrow> sockaddr_storage \<Rightarrow> bool" where
  "has_address w addr \<longleftrightarrow> snd (client_address (ntop w) addr) \<noteq> 0 \<and> fst (client_address (ntop w) addr) \<noteq> []"

definition obj_fd :: "sw \<Rightarrow> nat \<Rightarrow> fd" where
  "obj_fd w i = c_handle (snd (objs w ! i))"

lemma on_new_connection_full:
  assumes "full w" and "h \<noteq> invalid_socket"
  shows "on_new_connection h addr w = call_on_error True EMFILE (s_emit [S_sys (Sys_close h)] w)"
  using assms by (simp add: on_new_connection_def full_def)

lemma on_new_connection_no_address:
  assumes "\<not> full w" and "h \<noteq> invalid_socket" and "\<not> has_address w addr"
  shows "on_new_connection h addr w = Inr (s_emit [S_sys (Sys_close h)] w)"
  using assms by (auto simp: on_new_connection_def full_def has_address_def split: prod.splits)

lemma choose_poll_ok:
  assumes "can_place w"
  shows "\<exists>i p. choose_poll w = Inr (i, w\<lparr>pool := p\<rparr>) \<and> can_place (w\<lparr>pool := p\<rparr>)"
proof (cases "mode w = kOnePollPerThread")
  case True
  with assms obtain p where p: "pool w = Some p" "polls p \<noteq> []" by (auto simp: can_place_def)
  then show ?thesis using True
    by (auto simp: choose_poll_def next_poll_def can_place_def intro!: exI [of _ "Some _"])
next
  case False
  then show ?thesis using assms by (auto simp: choose_poll_def intro!: exI [of _ "pool w"])
qed

lemma on_new_connection_register:
  assumes "\<not> full w" and "h \<noteq> invalid_socket" and "has_address w addr" and "can_place w"
  shows "\<exists>poll c p. on_new_connection h addr w =
       Inr (s_emit [S_start_conn poll (length (objs w)) (has_on_conn w)]
         (w\<lparr>pool := p, objs := objs w @ [(poll, c)], conns := conns_put h (length (objs w)) (conns w)\<rparr>)) \<and>
     c_handle c = h \<and> can_place (w\<lparr>pool := p\<rparr>)"
proof -
  from choose_poll_ok [OF assms(4)] obtain i p where
    p: "choose_poll w = Inr (i, w\<lparr>pool := p\<rparr>)" "can_place (w\<lparr>pool := p\<rparr>)" by blast
  obtain ip port where a: "client_address (ntop w) addr = (ip, port)" by fastforce
  let ?c = "(Conn_new h)\<lparr>c_addr := ip, c_port := port, has_internal_close := True\<rparr>"
  have "on_new_connection h addr w = Inr (s_emit [S_start_conn i (length (objs w)) (has_on_conn w)]
         (w\<lparr>pool := p, objs := objs w @ [(i, ?c)], conns := conns_put h (length (objs w)) (conns w)\<rparr>))"
    using assms(1-3) p(1) a by (auto simp: on_new_connection_def full_def has_address_def Let_def)
  moreover have "c_handle ?c = h" by (simp add: Conn_new_def)
  ultimately show ?thesis using p(2) by blast
qed

text \<open>
  The limit is reported with \<open>conns_mutex_\<close> held: an error callback that asks for \<open>connection_count()\<close>,
  which the errors of the acceptor and of the polls permit, never returns here.
\<close>

lemma limit_callback_deadlocks:
  assumes "full w" and "h \<noteq> invalid_socket" and "on_error_func w = Some Err_count"
  shows "on_new_connection h addr w = Inl Never_returns" and "on_poll_error p err w = Inr (s_emit [S_error err] w)"
  using on_new_connection_full [OF assms(1,2)] assms(3) by (simp_all add: call_on_error_def s_emit_def on_poll_error_def)

text \<open>What a new connection leads to: its descriptor is closed again, or it is registered and started.\<close>

fun closed_fds :: "server_event list \<Rightarrow> fd list" where
  "closed_fds [] = []"
| "closed_fds (S_sys (Sys_close h) # es) = h # closed_fds es"
| "closed_fds (_ # es) = closed_fds es"

lemma closed_fds_append [simp]: "closed_fds (es @ fs) = closed_fds es @ closed_fds fs"
  by (induction es rule: closed_fds.induct) auto

definition same_setup :: "sw \<Rightarrow> sw \<Rightarrow> bool" where
  "same_setup w w' \<longleftrightarrow> mode w' = mode w \<and> max_connections w' = max_connections w \<and> on_error_func w' = on_error_func w \<and>
     has_on_conn w' = has_on_conn w \<and> ntop w' = ntop w \<and> sv_acceptor w' = sv_acceptor w"

definition rejected :: "fd \<Rightarrow> sw \<Rightarrow> sw \<Rightarrow> bool" where
  "rejected h w w' \<longleftrightarrow> objs w' = objs w \<and> conns w' = conns w \<and>
     (\<exists>es. sv_log w' = sv_log w @ S_sys (Sys_close h) # es \<and> closed_fds es = [])"

definition registered :: "fd \<Rightarrow> sw \<Rightarrow> sw \<Rightarrow> bool" where
  "registered h w w' \<longleftrightarrow> \<not> full w \<and> (\<exists>poll c. objs w' = objs w @ [(poll, c)] \<and> c_handle c = h \<and>
     conns w' = conns_put h (length (objs w)) (conns w) \<and>
     sv_log w' = sv_log w @ [S_start_conn poll (length (objs w)) (has_on_conn w)])"

lemma on_new_connection_outcome:
  assumes "h \<noteq> invalid_socket" and "can_place w" and "on_error_func w \<noteq> Some Err_count"
  shows "\<exists>w'. on_new_connection h addr w = Inr w' \<and> same_setup w w' \<and> can_place w' \<and>
     (if full w \<or> \<not> has_address w addr then rejected h w w' else registered h w w')"
proof (cases "full w")
  case True
  let ?w = "s_emit [S_sys (Sys_close h)] w"
  have "call_on_error True EMFILE ?w = Inr (s_emit (if on_error_func w = None then [] else [S_error EMFILE]) ?w)"
    using assms(3) by (auto simp: call_on_error_def s_emit_def split: option.split)
  moreover have "rejected h w (s_emit (if b then [] else [S_error EMFILE]) ?w)" for b
    by (simp add: rejected_def s_emit_def)
  moreover have "same_setup w (s_emit es w)" "can_place (s_emit es w)" for es
    using assms(2) by (simp_all add: same_setup_def can_place_def s_emit_def)
  ultimately show ?thesis using on_new_connection_full [OF True assms(1)] True by (auto simp: s_emit_append)
next
  case nfull: False
  show ?thesis
  proof (cases "has_address w addr")
    case True
    from on_new_connection_register [OF nfull assms(1) True assms(2)] obtain poll c p where
      "on_new_connection h addr w = Inr (s_emit [S_start_conn poll (length (objs w)) (has_on_conn w)]
         (w\<lparr>pool := p, objs := objs w @ [(poll, c)], conns := conns_put h (length (objs w)) (conns w)\<rparr>))"
      "c_handle c = h" "can_place (w\<lparr>pool := p\<rparr>)" by blast
    moreover from this have "registered h w (s_emit [S_start_conn poll (length (objs w)) (has_on_conn w)]
         (w\<lparr>pool := p, objs := objs w @ [(poll, c)], conns := conns_put h (length (objs w)) (conns w)\<rparr>))"
      using nfull by (simp add: registered_def s_emit_def)
    ultimately show ?thesis using nfull True by (simp add: same_setup_def can_place_def s_emit_def)
  next
    case False
    then show ?thesis using on_new_connection_no_address [OF nfull assms(1) False] nfull assms(2)
      by (simp add: same_setup_def can_place_def rejected_def s_emit_def)
  qed
qed

section \<open>Invariant\<close>

definition registry_ok :: "sw \<Rightarrow> bool" where
  "registry_ok w \<longleftrightarrow> distinct (map fst (conns w)) \<and>
     (\<forall>h i. map_of (conns w) h = Some i \<longrightarrow> valid_fd h \<and> i < length (objs w) \<and> obj_fd w i = h) \<and>
     (max_connections w > 0 \<longrightarrow> length (conns w) \<le> unat (max_connections w))"

lemma registry_small: "registry_ok w \<Longrightarrow> length (conns w) \<le> 2 ^ 31"
  by (rule reg.entries_bound) (auto simp: registry_ok_def valid_fd_def)

lemma connection_count_unat: "registry_ok w \<Longrightarrow> unat (connection_count w) = length (conns w)"
  using registry_small [of w] by (simp add: connection_count_def unat_of_nat_lt)

lemma not_full: "registry_ok w \<Longrightarrow> \<not> full w \<Longrightarrow> max_connections w > 0 \<Longrightarrow> length (conns w) < unat (max_connections w)"
  by (simp add: full_def connection_count_unat [symmetric] word_less_nat_alt not_le)

lemma rejected_ok: "registry_ok w \<Longrightarrow> rejected h w w' \<Longrightarrow> same_setup w w' \<Longrightarrow> registry_ok w'"
  by (simp add: registry_ok_def rejected_def same_setup_def obj_fd_def)

lemma registered_fd:
  assumes "registered h w w'"
  shows "obj_fd w' (length (objs w)) = h" and "i < length (objs w) \<Longrightarrow> obj_fd w' i = obj_fd w i"
    and "length (objs w') = Suc (length (objs w))"
    and "map_of (conns w') = (map_of (conns w))(h \<mapsto> length (objs w))"
  using assms by (auto simp: registered_def obj_fd_def nth_append reg.look_put)

lemma registered_ok:
  assumes "registry_ok w" and "registered h w w'" and "same_setup w w'"
    and "valid_fd h" and "map_of (conns w) h = None"
  shows "registry_ok w'"
proof -
  have "length (conns w') = Suc (length (conns w))" "distinct (map fst (conns w'))"
    using assms(1,2,5) reg.entries_put [of "conns w" h] reg.ok_put [of "conns w" h]
    by (auto simp: registry_ok_def registered_def)
  moreover have "max_connections w > 0 \<Longrightarrow> length (conns w) < unat (max_connections w)"
    using assms(1,2) by (auto simp: registered_def intro: not_full)
  ultimately show ?thesis using assms registered_fd [OF assms(2)]
    by (auto simp: registry_ok_def same_setup_def Suc_le_eq less_Suc_eq)
qed

lemma on_conn_close_ok:
  assumes "registry_ok w"
  shows "registry_ok (on_conn_close h w)"
proof -
  have "length (conns_erase h (conns w)) \<le> length (conns w)" by (simp add: conns_erase_def)
  with assms reg.ok_erase [of "conns w" h] show ?thesis
    by (auto simp: registry_ok_def on_conn_close_def reg.look_erase obj_fd_def)
qed

section \<open>A batch of accepted connections\<close>







section \<open>The registry while connections come and go\<close>

text \<open>
  \<open>held\<close> are the objects whose descriptor is open, \<open>ending\<close> those that have closed their descriptor
  and have not yet reported it. The kernel hands out a descriptor that no one holds. In one-thread
  mode a connection that ends closes and reports in one call, so nothing is accepted in between;
  with pool threads the two happen on the connection's thread while the main thread accepts.
\<close>

record registry =
  sv :: sw
  held :: "nat list"
  ending :: "nat list"

inductive registry_step :: "registry \<Rightarrow> registry \<Rightarrow> bool" where
  accept_one: "valid_fd h \<Longrightarrow> h \<notin> obj_fd (sv s) ` set (held s) \<Longrightarrow> (mode (sv s) = kAllOneThread \<Longrightarrow> ending s = []) \<Longrightarrow>
    on_new_connection h addr (sv s) = Inr w \<Longrightarrow>
    registry_step s (s\<lparr>sv := w, held := held s @ [length (objs (sv s))..<length (objs w)]\<rparr>)"
| close_fd: "i \<in> set (held s) \<Longrightarrow> registry_step s (s\<lparr>held := removeAll i (held s), ending := i # ending s\<rparr>)"
| report_end: "i \<in> set (ending s) \<Longrightarrow>
    registry_step s (s\<lparr>sv := on_conn_close (obj_fd (sv s) i) (sv s), ending := removeAll i (ending s)\<rparr>)"

inductive registry_reachable :: "sw \<Rightarrow> registry \<Rightarrow> bool" for w where
  start: "conns w = [] \<Longrightarrow> objs w = [] \<Longrightarrow> registry_reachable w \<lparr>sv = w, held = [], ending = []\<rparr>"
| continue: "registry_reachable w s \<Longrightarrow> registry_step s s' \<Longrightarrow> registry_reachable w s'"

definition registry_inv :: "sw \<Rightarrow> registry \<Rightarrow> bool" where
  "registry_inv w s \<longleftrightarrow> registry_ok (sv s) \<and> mode (sv s) = mode w \<and> on_error_func (sv s) = on_error_func w \<and>
     max_connections (sv s) = max_connections w \<and>
     can_place (sv s) \<and> distinct (held s @ ending s) \<and> set (held s @ ending s) \<subseteq> {..<length (objs (sv s))} \<and>
     (\<forall>h i. map_of (conns (sv s)) h = Some i \<longleftrightarrow> i \<in> set (held s @ ending s) \<and> obj_fd (sv s) i = h)"

lemma registry_inv_look:
  "registry_inv w s \<Longrightarrow> map_of (conns (sv s)) h = Some i \<longleftrightarrow> i \<in> set (held s @ ending s) \<and> obj_fd (sv s) i = h"
  by (simp add: registry_inv_def)

lemma inv_accept:
  assumes "registry_inv w0 s" and "valid_fd h" and "h \<notin> obj_fd (sv s) ` set (held s)" and "ending s = []"
    and "on_new_connection h addr (sv s) = Inr w" and "on_error_func w0 \<noteq> Some Err_count"
  shows "registry_inv w0 (s\<lparr>sv := w, held := held s @ [length (objs (sv s))..<length (objs w)]\<rparr>)"
proof -
  note inv = assms(1) [unfolded registry_inv_def]
  have none: "map_of (conns (sv s)) h = None" using inv assms(3,4) by (cases "map_of (conns (sv s)) h") auto
  have "h \<noteq> invalid_socket" using assms(2) by (auto simp: valid_fd_def)
  from on_new_connection_outcome [OF this, of "sv s" addr] inv assms(5,6)
  have 1: "same_setup (sv s) w" "can_place w" "rejected h (sv s) w \<or> registered h (sv s) w"
    by (auto split: if_splits)
  then have ok: "registry_ok w" using inv none assms(2) rejected_ok registered_ok by blast
  from 1(3) show ?thesis
  proof
    assume "rejected h (sv s) w"
    then show ?thesis using inv 1 ok by (simp add: registry_inv_def rejected_def same_setup_def obj_fd_def)
  next
    assume reg: "registered h (sv s) w"
    note fd = registered_fd [OF reg]
    have "(map_of (conns w) k = Some i) \<longleftrightarrow> i \<in> set (held s @ [length (objs (sv s))]) \<and> obj_fd w i = k" for k i
      unfolding fd(4) using inv assms(4) fd(1,2) assms(3) registry_inv_look [OF assms(1), of k i]
      by (cases "i < length (objs (sv s))"; cases "k = h") (auto simp: image_iff)
    then show ?thesis using inv 1 ok assms(4) fd(3) by (auto simp: registry_inv_def same_setup_def)
  qed
qed

lemma inv_report:
  assumes "registry_inv w0 s" and "i \<in> set (ending s)"
  shows "registry_inv w0 (s\<lparr>sv := on_conn_close (obj_fd (sv s) i) (sv s), ending := removeAll i (ending s)\<rparr>)"
proof -
  note inv = assms(1) [unfolded registry_inv_def]
  let ?h = "obj_fd (sv s) i" and ?w = "on_conn_close (obj_fd (sv s) i) (sv s)"
  have w: "map_of (conns ?w) = (map_of (conns (sv s)))(?h := None)" "obj_fd ?w = obj_fd (sv s)"
    by (simp_all add: on_conn_close_def reg.look_erase obj_fd_def fun_eq_iff)
  note M = registry_inv_look [OF assms(1)]
  have only: "j = i" if "j \<in> set (held s @ ending s)" "obj_fd (sv s) j = ?h" for j
    using that M [of ?h j] M [of ?h i] assms(2) by auto
  have "i \<notin> set (held s)" using inv assms(2) by auto
  then have "(map_of (conns ?w) k = Some j) \<longleftrightarrow> j \<in> set (held s @ removeAll i (ending s)) \<and> obj_fd ?w j = k" for k j
    unfolding w using M [of k j] only [of j] by (cases "k = ?h") auto
  moreover have "distinct (held s @ removeAll i (ending s))" using inv by (auto simp: distinct_removeAll)
  moreover have "can_place ?w" using inv by (simp add: can_place_def on_conn_close_def)
  ultimately show ?thesis using inv on_conn_close_ok [of "sv s" ?h]
    by (auto simp: registry_inv_def on_conn_close_def)
qed

lemma inv_close:
  assumes "registry_inv w0 s" and "i \<in> set (held s)"
  shows "registry_inv w0 (s\<lparr>held := removeAll i (held s), ending := i # ending s\<rparr>)"
proof -
  have "set (removeAll i (held s) @ i # ending s) = set (held s @ ending s)" using assms(2) by auto
  moreover have "distinct (removeAll i (held s) @ i # ending s)"
    using assms by (auto simp: registry_inv_def distinct_removeAll)
  ultimately show ?thesis using assms(1) by (simp add: registry_inv_def del: set_append)
qed

lemma registry_inv_reachable:
  assumes "registry_reachable w s" and "mode w = kAllOneThread" and "on_error_func w \<noteq> Some Err_count"
  shows "registry_inv w s"
  using assms(1)
proof (induction rule: registry_reachable.induct)
  case start
  then show ?case using assms(2) by (simp add: registry_inv_def registry_ok_def can_place_def)
next
  case (continue s s')
  from continue(2,3) show ?case
  proof (induction rule: registry_step.induct)
    case (accept_one h s addr w')
    then show ?case using inv_accept [of w s h addr w'] assms(2,3) by (simp add: registry_inv_def)
  qed (simp_all add: inv_close inv_report)
qed

lemma inv_count:
  assumes "registry_inv w s"
  shows "length (conns (sv s)) = length (held s) + length (ending s)"
proof -
  note M = registry_inv_look [OF assms]
  have "dom (map_of (conns (sv s))) = obj_fd (sv s) ` set (held s @ ending s)"
    using M by (auto simp: dom_def)
  moreover have "inj_on (obj_fd (sv s)) (set (held s @ ending s))"
  proof (rule inj_onI)
    fix i j
    assume "i \<in> set (held s @ ending s)" "j \<in> set (held s @ ending s)" "obj_fd (sv s) i = obj_fd (sv s) j"
    then show "i = j" using M [of "obj_fd (sv s) i" i] M [of "obj_fd (sv s) i" j] by simp
  qed
  ultimately have "card (dom (map_of (conns (sv s)))) = card (set (held s @ ending s))" by (simp add: card_image)
  also have "\<dots> = length (held s @ ending s)"
    by (rule distinct_card) (use assms in \<open>simp add: registry_inv_def\<close>)
  also have "card (dom (map_of (conns (sv s)))) = length (conns (sv s))"
    using reg.entries [of "conns (sv s)"] assms by (simp add: registry_inv_def registry_ok_def)
  finally show ?thesis by simp
qed

section \<open>Properties\<close>


text \<open>
  C11. In one-thread mode the registry is exact: it maps precisely the descriptors of the connections
  that have not reported their end to those connections. \<open>connection_count()\<close> is their number, and a
  limit on the number of connections bounds the connections that hold a descriptor.
\<close>

theorem registry_exact_one_thread:
  assumes "registry_reachable w s" and "mode w = kAllOneThread" and "on_error_func w \<noteq> Some Err_count"
  shows "(map_of (conns (sv s)) h = Some i \<longleftrightarrow> i \<in> set (held s) \<union> set (ending s) \<and> obj_fd (sv s) i = h) \<and>
     unat (connection_count (sv s)) = length (held s) + length (ending s) \<and>
     (max_connections w > 0 \<longrightarrow> length (held s) \<le> unat (max_connections w))"
proof -
  note inv = registry_inv_reachable [OF assms]
  from inv have ok: "registry_ok (sv s)" "max_connections (sv s) = max_connections w" by (simp_all add: registry_inv_def)
  then have "max_connections w > 0 \<longrightarrow> length (conns (sv s)) \<le> unat (max_connections w)" by (simp add: registry_ok_def)
  then show ?thesis
    using registry_inv_look [OF inv, of h i] inv_count [OF inv] connection_count_unat [OF ok(1)]
    by (simp, meson add_leD1)
qed

definition sample_ntop :: inet_ntop where
  "sample_ntop fam bs = Some ''10.0.0.1''"

definition sample_server :: sw where
  "sample_server = server.extend
     \<lparr>started = True, shutting_down = False, mode = kAllOneThread, thread_num = 1, shutdown_deadline = None, conns = [],
      has_on_conn = True, on_error_func = Some Err_return, max_connections = 1, shutdown_timeout_ms = 30000,
      pool = None, sub_polls = []\<rparr>
     (sw.fields (sample_acceptor\<lparr>listen_handle := 3\<rparr>) [] (Some 0) 0 (\<lambda>i. i = 0) 0 No_thread sample_ntop [])"

definition pooled_server :: sw where
  "pooled_server = sample_server\<lparr>mode := kOnePollPerThread, thread_num := 1, max_connections := 2, pool := Some (PollThreadPool_new [1]), sub_polls := [1]\<rparr>"

lemma sample_server_simps:
  "started sample_server" "\<not> shutting_down sample_server" "mode sample_server = kAllOneThread" "conns sample_server = []"
  "objs sample_server = []" "has_on_conn sample_server" "on_error_func sample_server = Some Err_return"
  "max_connections sample_server = 1" "sv_acceptor sample_server = sample_acceptor\<lparr>listen_handle := 3\<rparr>"
  "ntop sample_server = sample_ntop" "thread_num sample_server = 1" "pool sample_server = None" "sv_log sample_server = []"
  "on_poll sample_server = Some 0" "loops sample_server = (\<lambda>i. i = 0)" "sub_polls sample_server = []"
  "shutdown_timeout_ms sample_server = 30000" "sv_now sample_server = 0" "shutdown_deadline sample_server = None"
  "thread_self sample_server = 0" "exit_thread sample_server = No_thread"
  by (simp_all add: sample_server_def server.defs sw.defs)

definition peer :: sockaddr_storage where
  "peer = \<lparr>ss_family = AF_INET, sin_port = htons 80, sin_addr = [10, 0, 0, 1]\<rparr>"

lemma peer_address: "client_address sample_ntop peer = (''10.0.0.1'', 80)"
  by (simp add: client_address_def peer_def sample_ntop_def htons_def ntohs_def)


lemma pooled_simps:
  "mode pooled_server = kOnePollPerThread" "conns pooled_server = []" "objs pooled_server = []"
  "max_connections pooled_server = 2" "ntop pooled_server = sample_ntop" "pool pooled_server = Some (PollThreadPool_new [1])"
  by (simp_all add: pooled_server_def sample_server_simps)

lemma pooled_place: "can_place pooled_server" "has_address pooled_server peer"
  by (simp_all add: can_place_def pooled_simps PollThreadPool_new_def has_address_def peer_address)

lemma register_step:
  assumes "mode (sv s) = kAllOneThread \<Longrightarrow> ending s = []" and "valid_fd h" and "h \<notin> obj_fd (sv s) ` set (held s)"
    and "\<not> full (sv s)" and "has_address (sv s) addr" and "can_place (sv s)"
  shows "\<exists>w. registry_step s (s\<lparr>sv := w, held := held s @ [length (objs (sv s))]\<rparr>) \<and> registered h (sv s) w \<and>
     same_setup (sv s) w \<and> can_place w \<and> has_address w addr"
proof -
  have h: "h \<noteq> invalid_socket" using assms(2) by (auto simp: valid_fd_def)
  from on_new_connection_register [OF assms(4) h assms(5,6)] obtain w where
    w: "on_new_connection h addr (sv s) = Inr w" "registered h (sv s) w" "same_setup (sv s) w" "can_place w"
    using assms(4) by (auto simp: registered_def same_setup_def can_place_def s_emit_def)
  from registry_step.accept_one [OF assms(2,3,1) w(1)] registered_fd(3) [OF w(2)] w(2-4) assms(5) show ?thesis
    by (intro exI [of _ w]) (auto simp: has_address_def same_setup_def)
qed

theorem registry_exact_one_thread_witness:
  "\<exists>s. registry_reachable sample_server s \<and> held s = [0] \<and> map_of (conns (sv s)) 7 = Some 0 \<and>
     unat (connection_count (sv s)) = 1"
proof -
  let ?s = "\<lparr>sv = sample_server, held = [], ending = []\<rparr>"
  have start: "registry_reachable sample_server ?s" by (rule registry_reachable.start) (simp_all add: sample_server_simps)
  from register_step [of ?s 7 peer] obtain w where
    w: "registry_step ?s (?s\<lparr>sv := w, held := [0]\<rparr>)" "registered 7 sample_server w"
    by (auto simp: sample_server_simps valid_fd_def full_def connection_count_def has_address_def peer_address can_place_def)
  from start w(1) have r: "registry_reachable sample_server (?s\<lparr>sv := w, held := [0]\<rparr>)" by (rule registry_reachable.continue)
  have "obj_fd w 0 = 7" using registered_fd(1) [OF w(2)] by (simp add: sample_server_simps)
  with registry_exact_one_thread [OF r, of 7 0] r show ?thesis
    by (intro exI [of _ "?s\<lparr>sv := w, held := [0]\<rparr>"]) (simp add: sample_server_simps)
qed

text \<open>A descriptor is reused between the close and the report of its first owner.\<close>

lemma reused_descriptor:
  "\<exists>w. registry_reachable pooled_server \<lparr>sv = w, held = [1], ending = []\<rparr> \<and> conns w = [] \<and> length (objs w) = 2 \<and>
     same_setup pooled_server w \<and> can_place w \<and> obj_fd w 1 = 7"
proof -
  let ?s0 = "\<lparr>sv = pooled_server, held = [], ending = []\<rparr>"
  have r0: "registry_reachable pooled_server ?s0" by (rule registry_reachable.start) (simp_all add: pooled_simps)
  from register_step [of ?s0 7 peer] pooled_place obtain w1 where
    s1: "registry_step ?s0 (?s0\<lparr>sv := w1, held := [0]\<rparr>)" "registered 7 pooled_server w1" "same_setup pooled_server w1"
      "can_place w1" "has_address w1 peer"
    by (auto simp: pooled_simps valid_fd_def full_def connection_count_def)
  let ?s1 = "\<lparr>sv = w1, held = [0], ending = []\<rparr>" and ?s2 = "\<lparr>sv = w1, held = [], ending = [0]\<rparr>"
  have w1: "conns w1 = [(7, 0)]" "length (objs w1) = 1" "mode w1 = kOnePollPerThread" "max_connections w1 = 2"
    using s1(2,3) by (auto simp: registered_def pooled_simps conns_put_def same_setup_def)
  have s2: "registry_step ?s1 ?s2" using registry_step.close_fd [of 0 ?s1] by simp
  let ?s3 = "\<lambda>w. \<lparr>sv = w, held = [1], ending = [0]\<rparr>"
  from register_step [of ?s2 7 peer] s1(4,5) w1 obtain w3 where
    s3: "registry_step ?s2 (?s3 w3)" "registered 7 w1 w3" "same_setup w1 w3" "can_place w3"
    by (auto simp: valid_fd_def full_def connection_count_def word_le_nat_alt)
  have w3: "conns w3 = [(7, 1)]" "length (objs w3) = 2" "obj_fd w3 0 = 7" "obj_fd w3 1 = 7"
    using s3(2) w1 registered_fd(1,2) [OF s3(2)] registered_fd(1) [OF s1(2)]
    by (auto simp: registered_def conns_put_def pooled_simps)
  define w4 where "w4 = on_conn_close 7 w3"
  have s4: "registry_step (?s3 w3) \<lparr>sv = w4, held = [1], ending = []\<rparr>"
    using registry_step.report_end [of 0 "?s3 w3"] w3(3) by (simp add: w4_def)
  have "registry_reachable pooled_server ?s1" using registry_reachable.continue [OF r0 s1(1)] by simp
  then have "registry_reachable pooled_server \<lparr>sv = w4, held = [1], ending = []\<rparr>"
    using s2 s3(1) s4 by (blast intro: registry_reachable.continue)
  then show ?thesis using w3 s1(3) s3(3,4)
    by (intro exI [of _ w4])
      (simp add: w4_def on_conn_close_def conns_erase_def same_setup_def can_place_def obj_fd_def)
qed

text \<open>
  C12. With pool threads the registry can lose a live connection. A connection closes its descriptor
  before it reports its end; when the kernel hands the same descriptor to a new connection in
  between, the report erases the new connection's entry. The new connection is then in no registry:
  it is neither counted, so that the limit on connections can be exceeded, nor reached by a
  shutdown of the server.
\<close>

theorem registry_loses_live_connection:
  "\<exists>w s i. registry_reachable w s \<and> mode w = kOnePollPerThread \<and> max_connections w = 2 \<and>
     ending s = [] \<and> i \<in> set (held s) \<and> i \<notin> snd ` set (conns (sv s)) \<and>
     length (held s) = 3 \<and> connection_count (sv s) = 2"
proof -
  from reused_descriptor obtain w where r: "registry_reachable pooled_server \<lparr>sv = w, held = [1], ending = []\<rparr>"
    and w: "conns w = []" "length (objs w) = 2" "same_setup pooled_server w" "can_place w" "obj_fd w 1 = 7" by blast
  have addr: "mode w = kOnePollPerThread" "max_connections w = 2" "has_address w peer"
    using w(3) by (simp_all add: same_setup_def pooled_simps has_address_def peer_address)
  from register_step [of "\<lparr>sv = w, held = [1], ending = []\<rparr>" 8 peer] w addr obtain w5 where
    s5: "registry_step \<lparr>sv = w, held = [1], ending = []\<rparr> \<lparr>sv = w5, held = [1, 2], ending = []\<rparr>"
      "registered 8 w w5" "same_setup w w5" "can_place w5" "has_address w5 peer"
    by (auto simp: valid_fd_def full_def connection_count_def)
  have w5: "conns w5 = [(8, 2)]" "length (objs w5) = 3" "obj_fd w5 1 = 7" "obj_fd w5 2 = 8"
    using s5(2) w registered_fd(1,2) [OF s5(2)] by (auto simp: registered_def conns_put_def)
  from register_step [of "\<lparr>sv = w5, held = [1, 2], ending = []\<rparr>" 9 peer] s5(3-5) w5 addr obtain w6 where
    s6: "registry_step \<lparr>sv = w5, held = [1, 2], ending = []\<rparr> \<lparr>sv = w6, held = [1, 2, 3], ending = []\<rparr>"
      "registered 9 w5 w6"
    by (auto simp: valid_fd_def full_def connection_count_def same_setup_def word_le_nat_alt)
  have "conns w6 = [(9, 3), (8, 2)]" using s6(2) w5 by (auto simp: registered_def conns_put_def)
  moreover have "registry_reachable pooled_server \<lparr>sv = w6, held = [1, 2, 3], ending = []\<rparr>"
    using r s5(1) s6(1) by (blast intro: registry_reachable.continue)
  ultimately show ?thesis
    by (intro exI [of _ pooled_server] exI [of _ "\<lparr>sv = w6, held = [1, 2, 3], ending = []\<rparr>"] exI [of _ 1])
      (simp add: pooled_simps connection_count_def)
qed

end
