(* ===== verification/Server_Stop.thy ===== *)
theory Server_Stop
  imports Server_Registry
begin

text \<open>
  Starting and stopping the server: what \<open>Server::start\<close> answers, and that a graceful shutdown ends
  within its timeout in either running mode, in the order acceptor, connections, poll threads, main
  poll. A wait for a closure returns only while the loop of the closure's poll runs, so the lemmas
  say which loops have to run.
\<close>

section \<open>Rounds over the connections\<close>

text \<open>The threads of the registered connections serve closures, or the caller is that thread.\<close>

definition reaches :: "sw \<Rightarrow> nat \<Rightarrow> bool" where
  "reaches w i \<longleftrightarrow> on_poll w = Some (fst (objs w ! i)) \<or> loops w (fst (objs w ! i))"

lemma for_conns_ok:
  "\<forall>i\<in>set is. reaches w i \<Longrightarrow> for_conns e is w = Inr (s_emit (map e is) w)"
proof (induction "is" arbitrary: w)
  case Nil
  then show ?case by (simp add: s_emit_def)
next
  case (Cons i "is")
  then have "for_conns e is (s_emit [e i] w) = Inr (s_emit (map e is) (s_emit [e i] w))"
    by (intro Cons.IH) (simp add: reaches_def s_emit_def)
  with Cons.prems show ?case by (simp add: run_in_poll_and_wait_def reaches_def s_emit_append)
qed

lemma on_conn_closes: "fold on_conn_close hs w = w\<lparr>conns := filter (\<lambda>e. fst e \<notin> set hs) (conns w)\<rparr>"
  by (induction hs arbitrary: w) (simp_all add: on_conn_close_def conns_erase_def conj_commute filter_True)

section \<open>The wait for the connections to go\<close>


section \<open>Graceful shutdown\<close>

text \<open>The main poll runs closures, or is the caller's, or is shut down: the acceptor can be stopped.\<close>

definition acceptor_reachable :: "sw \<Rightarrow> bool" where
  "acceptor_reachable w \<longleftrightarrow> acceptor_ok (sv_acceptor w) \<and>
     (on_poll w = Some 0 \<or> \<not> poll_shut (sv_acceptor w) \<and> loops w 0 \<or> \<not> has_poll (sv_acceptor w))"

lemma shutdown_local_ok:
  "listen_handle (shutdown_local a) = invalid_socket \<and> \<not> listening (shutdown_local a)"
  by (simp add: shutdown_local_def close_listen_handle_def)

lemma acceptor_ok_setup: "acceptor_ok (a\<lparr>a_in_poll := b, loop_alive := c\<rparr>) = acceptor_ok a"
  by (simp add: acceptor_ok_def split: option.split)

lemma stop_acceptor_ok:
  assumes "acceptor_reachable w"
  shows "\<exists>a. stop_acceptor w = Inr (s_emit [S_acceptor_shutdown] (w\<lparr>sv_acceptor := a\<rparr>)) \<and>
     listen_handle a = invalid_socket \<and> \<not> listening a"
proof -
  let ?a = "(sv_acceptor w)\<lparr>a_in_poll := (on_poll w = Some 0), loop_alive := loops w 0\<rparr>"
  have "acceptor_ok ?a" using assms by (simp add: acceptor_reachable_def acceptor_ok_setup)
  from acceptor_shutdown_in_poll_ok [OF this] obtain a where
    a: "acceptor_shutdown_in_poll ?a = Inr a" "listen_handle a = invalid_socket" "\<not> listening a" by blast
  have "\<exists>a. acceptor_shutdown ?a = Inr a \<and> listen_handle a = invalid_socket \<and> \<not> listening a"
  proof (cases "has_poll (sv_acceptor w)")
    case True
    then have "acceptor_shutdown ?a = Inr a" using assms a(1) by (auto simp: acceptor_shutdown_def acceptor_reachable_def)
    then show ?thesis using a(2,3) by blast
  next
    case False
    then show ?thesis using shutdown_local_ok [of ?a] by (simp add: acceptor_shutdown_def)
  qed
  then show ?thesis by (auto simp: stop_acceptor_def)
qed

text \<open>The last part of a shutdown, common to both modes.\<close>

definition stop_events :: "sw \<Rightarrow> server_event list" where
  "stop_events w = (case pool w of None \<Rightarrow> [] | Some p \<Rightarrow> [S_pool (fst (pool_shutdown (thread_self w) p))]) @ [S_main_shutdown]"

lemma shutdown_polls_effect:
  "sv_log (shutdown_polls w) = sv_log w @ stop_events w \<and> conns (shutdown_polls w) = conns w \<and>
   sv_now (shutdown_polls w) = sv_now w \<and> poll_shut (sv_acceptor (shutdown_polls w)) \<and> started (shutdown_polls w) = started w \<and>
   mode (shutdown_polls w) = mode w \<and> listen_handle (sv_acceptor (shutdown_polls w)) = listen_handle (sv_acceptor w)"
  by (auto simp: shutdown_polls_def stop_events_def s_emit_def Let_def split: option.split prod.split)

lemma registered_reaches:
  assumes "\<forall>i\<in>snd ` set (conns w). reaches w i" and "set cs \<subseteq> set (conns w)"
    and "on_poll v = on_poll w" and "objs v = objs w" and "loops v = loops w"
  shows "\<forall>i\<in>set (map snd cs). reaches v i"
  using assms by (auto simp: reaches_def)






lemma sample_acceptor_open: "\<not> poll_shut sample_acceptor" "has_poll sample_acceptor"
  by (simp_all add: sample_acceptor_def acceptor.defs aw.defs)



section \<open>Closing at once\<close>

text \<open>
  \<open>close()\<close> from outside the poll threads does not wait: the acceptor is stopped, every registered
  connection is cleaned up, none is asked to shut down first, and the polls are stopped; the clock
  does not advance. A server that was neither started nor shutting down is left as it is.
\<close>

lemma close_impl_ok:
  assumes "acceptor_reachable w" and "\<forall>i\<in>snd ` set (conns w). reaches w i"
  shows "\<exists>w'. close_impl w = Inr w' \<and> conns w' = [] \<and> \<not> shutting_down w' \<and> poll_shut (sv_acceptor w') \<and>
     listen_handle (sv_acceptor w') = invalid_socket \<and> sv_now w' = sv_now w \<and> started w' = started w \<and>
     sv_log w' = sv_log w @ [S_acceptor_shutdown] @ map (S_conn_cleanup \<circ> snd) (conns w) @ stop_events w"
proof -
  from stop_acceptor_ok [OF assms(1)] obtain a where
    a: "stop_acceptor w = Inr (s_emit [S_acceptor_shutdown] (w\<lparr>sv_acceptor := a\<rparr>))" "listen_handle a = invalid_socket" by blast
  define w1 where "w1 = s_emit [S_acceptor_shutdown] (w\<lparr>sv_acceptor := a\<rparr>)"
  have "\<forall>i\<in>set (map snd (conns w)). reaches (w1\<lparr>conns := []\<rparr>) i"
    by (rule registered_reaches [OF assms(2)]) (simp_all add: w1_def s_emit_def)
  then have 2: "cleanup_all w1 = Inr (s_emit (map S_conn_cleanup (map snd (conns w))) (w1\<lparr>conns := []\<rparr>))"
    by (simp add: cleanup_all_def for_conns_ok w1_def s_emit_def)
  define w2 where "w2 = s_emit (map S_conn_cleanup (map snd (conns w))) (w1\<lparr>conns := []\<rparr>)"
  have "close_impl w = Inr ((shutdown_polls w2)\<lparr>shutting_down := False\<rparr>)"
    using a(1) 2 by (simp add: close_impl_def w2_def flip: w1_def)
  moreover have "sv_log w2 = sv_log w @ [S_acceptor_shutdown] @ map (S_conn_cleanup \<circ> snd) (conns w)" "stop_events w2 = stop_events w"
    "conns w2 = []" "sv_now w2 = sv_now w" "sv_acceptor w2 = a" "started w2 = started w"
    by (simp_all add: w2_def w1_def s_emit_def stop_events_def split: option.split)
  ultimately show ?thesis using shutdown_polls_effect [of w2] a(2) by simp
qed

lemma server_close_outcome:
  assumes "on_poll w = None" and "acceptor_reachable w" and "\<forall>i\<in>snd ` set (conns w). reaches w i"
  shows "\<exists>w'. server_close tid env w = Inr w' \<and> \<not> started w' \<and> \<not> shutting_down w' \<and>
     (if started w \<or> shutting_down w then conns w' = [] \<and> poll_shut (sv_acceptor w') \<and> sv_now w' = sv_now w else w' = w)"
proof (cases "started w \<or> shutting_down w")
  case True
  define v where "v = (if started w then w\<lparr>started := False\<rparr> else w\<lparr>started := False, shutting_down := False\<rparr>)"
  have "acceptor_reachable v" "\<forall>i\<in>snd ` set (conns v). reaches v i" "\<not> is_in_managed_poll_thread v" "\<not> started v" "sv_now v = sv_now w"
    using assms by (auto simp: v_def acceptor_reachable_def reaches_def is_in_managed_poll_thread_def)
  moreover have "server_close tid env w = (if mode v = kOnePollPerThread \<and> is_in_managed_poll_thread v
      then start_exit_thread tid env Exit_close v else close_impl v)"
    using True by (cases "started w") (simp_all add: server_close_def v_def Let_def)
  ultimately show ?thesis using True close_impl_ok [of v] by auto
next
  case False
  have "w\<lparr>started := False\<rparr> = w" by (rule sw.equality) (use False in simp_all)
  then show ?thesis using False by (simp add: server_close_def)
qed

section \<open>Shutdown in one-thread mode\<close>

text \<open>
  A round of the application's loop: the time that passes and the connections that report their end
  while the main poll runs; then \<open>Server::poll\<close> looks whether the shutdown can be completed.
\<close>

definition closing_round :: "fd list \<times> nat \<Rightarrow> sw \<Rightarrow> sw result" where
  "closing_round r w = Inr ((fold on_conn_close (fst r) w)\<lparr>sv_now := sv_now w + int (snd r)\<rparr>)"

fun poll_rounds :: "(fd list \<times> nat) list \<Rightarrow> sw \<Rightarrow> sw result" where
  "poll_rounds [] w = Inr w"
| "poll_rounds (r # rs) w = andthen (server_poll (closing_round r) w) (poll_rounds rs)"

text \<open>\<open>draining d w0 w\<close>: in \<open>w\<close> the shutdown begun in \<open>w0\<close> goes on, with deadline \<open>d\<close>.\<close>

definition draining :: "time option \<Rightarrow> sw \<Rightarrow> sw \<Rightarrow> bool" where
  "draining d w0 w \<longleftrightarrow> started w \<and> shutting_down w \<and> mode w = kAllOneThread \<and> shutdown_deadline w = d \<and> \<not> poll_shut (sv_acceptor w) \<and>
     set (conns w) \<subseteq> set (conns w0) \<and> distinct (map fst (conns w)) \<and> length (conns w) < 2 ^ 64 \<and> conns w \<noteq> [] \<and>
     pool w = pool w0 \<and> thread_self w = thread_self w0 \<and>
     (case d of None \<Rightarrow> True | Some t \<Rightarrow> sv_now w < t) \<and>
     sv_log w = sv_log w0 @ S_acceptor_shutdown # map (S_conn_shutdown \<circ> snd) (conns w0)"

definition drained :: "time option \<Rightarrow> sw \<Rightarrow> sw \<Rightarrow> bool" where
  "drained d w0 w \<longleftrightarrow> \<not> started w \<and> \<not> shutting_down w \<and> conns w = [] \<and>
     (\<exists>left. set left \<subseteq> set (conns w0) \<and> distinct (map fst left) \<and>
       (left = [] \<or> (case d of None \<Rightarrow> False | Some t \<Rightarrow> t \<le> sv_now w)) \<and>
       sv_log w = sv_log w0 @ S_acceptor_shutdown # map (S_conn_shutdown \<circ> snd) (conns w0) @
         map (S_conn_cleanup \<circ> snd) left @ stop_events w0)"

text \<open>The state just before a look: like \<open>draining\<close>, with the deadline perhaps over or no one left.\<close>

definition pending :: "time option \<Rightarrow> sw \<Rightarrow> sw \<Rightarrow> bool" where
  "pending d w0 w \<longleftrightarrow> started w \<and> shutting_down w \<and> mode w = kAllOneThread \<and> shutdown_deadline w = d \<and> \<not> poll_shut (sv_acceptor w) \<and>
     set (conns w) \<subseteq> set (conns w0) \<and> distinct (map fst (conns w)) \<and> length (conns w) < 2 ^ 64 \<and>
     pool w = pool w0 \<and> thread_self w = thread_self w0 \<and>
     sv_log w = sv_log w0 @ S_acceptor_shutdown # map (S_conn_shutdown \<circ> snd) (conns w0)"

lemma count_zero: "length (conns w) < 2 ^ 64 \<Longrightarrow> connection_count w = 0 \<longleftrightarrow> conns w = []"
  using unat_of_nat_lt [of "length (conns w)", where 'a = 64] by (auto simp: connection_count_def)

lemma finish_pending:
  assumes "pending d w0 w"
  shows "(if conns w = [] \<or> deadline_passed w then drained d w0 (finish_shutdown_all_one_thread w)
          else finish_shutdown_all_one_thread w = w \<and> draining d w0 w)"
proof (cases "conns w = [] \<or> deadline_passed w")
  case True
  let ?w = "s_emit (map (S_conn_cleanup \<circ> snd) (conns w)) (w\<lparr>conns := []\<rparr>)"
  have c: "connection_count w \<noteq> 0 \<longrightarrow> deadline_passed w" using True assms count_zero [of w] by (auto simp: pending_def)
  with assms have f: "finish_shutdown_all_one_thread w = (shutdown_polls ?w)\<lparr>shutting_down := False, started := False\<rparr>"
    by (auto simp: finish_shutdown_all_one_thread_def pending_def Let_def)
  have "stop_events ?w = stop_events w0"
    using assms by (simp add: stop_events_def s_emit_def pending_def split: option.split)
  moreover have "conns w = [] \<or> (case d of None \<Rightarrow> False | Some t \<Rightarrow> t \<le> sv_now w)"
    using True assms by (auto simp: deadline_passed_def pending_def)
  moreover have "sv_log ?w = sv_log w0 @ S_acceptor_shutdown # map (S_conn_shutdown \<circ> snd) (conns w0) @ map (S_conn_cleanup \<circ> snd) (conns w)"
    "conns ?w = []" "sv_now ?w = sv_now w"
    using assms by (simp_all add: s_emit_def pending_def)
  moreover note shutdown_polls_effect [of ?w]
  moreover have "set (conns w) \<subseteq> set (conns w0)" "distinct (map fst (conns w))" using assms by (simp_all add: pending_def)
  ultimately have "drained d w0 (finish_shutdown_all_one_thread w)"
    unfolding f drained_def by (intro conjI exI [of _ "conns w"]) (simp_all split: option.splits)
  with True show ?thesis by simp
next
  case False
  with assms show ?thesis
    by (auto simp: finish_shutdown_all_one_thread_def draining_def pending_def deadline_passed_def count_zero split: option.splits)
qed

lemma drained_stays: "drained d w0 w \<Longrightarrow> server_poll round w = Inr w"
  by (simp add: drained_def server_poll_def)

lemma draining_round:
  assumes "draining d w0 w"
  shows "\<exists>w'. server_poll (closing_round r) w = Inr w' \<and>
     (drained d w0 w' \<or> draining d w0 w' \<and> sv_now w' = sv_now w + int (snd r))"
proof -
  define v where "v = (fold on_conn_close (fst r) w)\<lparr>sv_now := sv_now w + int (snd r)\<rparr>"
  have "length (filter (\<lambda>e. fst e \<notin> set (fst r)) (conns w)) < 2 ^ 64"
    by (rule le_less_trans [OF length_filter_le]) (use assms in \<open>simp add: draining_def\<close>)
  then have "pending d w0 v" using assms
    by (auto simp: v_def on_conn_closes pending_def draining_def distinct_map_filter)
  from finish_pending [OF this] have "drained d w0 (finish_shutdown_all_one_thread v) \<or>
      finish_shutdown_all_one_thread v = v \<and> draining d w0 v" by (auto split: if_splits)
  moreover have "server_poll (closing_round r) w = Inr (finish_shutdown_all_one_thread v)" "sv_now v = sv_now w + int (snd r)"
    using assms by (simp_all add: server_poll_def main_poll_round_def closing_round_def draining_def v_def)
  ultimately show ?thesis by auto
qed

lemma drained_rounds: "drained d w0 w \<Longrightarrow> poll_rounds rs w = Inr w"
  by (induction rs) (simp_all add: drained_stays)

lemma draining_rounds:
  assumes "draining d w0 w"
  shows "\<exists>w'. poll_rounds rs w = Inr w' \<and>
     (drained d w0 w' \<or> draining d w0 w' \<and> sv_now w' = sv_now w + int (sum_list (map snd rs)))"
  using assms
proof (induction rs arbitrary: w)
  case (Cons r rs)
  from draining_round [OF Cons.prems] obtain w1 where 1: "server_poll (closing_round r) w = Inr w1"
    "drained d w0 w1 \<or> draining d w0 w1 \<and> sv_now w1 = sv_now w + int (snd r)" by blast
  from 1(2) show ?case
  proof
    assume "drained d w0 w1"
    then show ?thesis using 1(1) drained_rounds [of d w0 w1 rs] by simp
  next
    assume d: "draining d w0 w1 \<and> sv_now w1 = sv_now w + int (snd r)"
    with Cons.IH [of w1] 1(1) show ?thesis by (simp add: add.assoc)
  qed
qed simp

lemma shutdown_keeps_poll_shut:
  assumes "acceptor_shutdown_in_poll a = Inr a'"
  shows "poll_shut a' = poll_shut a"
proof -
  have "poll_shut (close_listen_handle v) = poll_shut v" for v by (simp add: close_listen_handle_def a_emit_def)
  then show ?thesis using assms
    by (cases "a_channel a") (force simp: acceptor_shutdown_in_poll_def andthen_eq_Inr)+
qed

definition grace_deadline :: "sw \<Rightarrow> time option" where
  "grace_deadline w = (if shutdown_timeout_ms w > 0 then Some (sv_now w + 1000000 * uint (shutdown_timeout_ms w)) else None)"

lemma stop_acceptor_on_main:
  assumes "acceptor_reachable w" and "on_poll w = Some 0" and "has_poll (sv_acceptor w)"
  shows "\<exists>a. stop_acceptor w = Inr (s_emit [S_acceptor_shutdown] (w\<lparr>sv_acceptor := a\<rparr>)) \<and> poll_shut a = poll_shut (sv_acceptor w)"
proof -
  let ?a = "(sv_acceptor w)\<lparr>a_in_poll := True, loop_alive := loops w 0\<rparr>"
  have "acceptor_ok ?a" using assms(1) by (simp add: acceptor_reachable_def acceptor_ok_setup)
  from acceptor_shutdown_in_poll_ok [OF this] obtain a where a: "acceptor_shutdown_in_poll ?a = Inr a" by blast
  with shutdown_keeps_poll_shut [OF a] assms(2,3) show ?thesis
    by (intro exI [of _ a]) (simp add: stop_acceptor_def acceptor_shutdown_def)
qed

lemma one_thread_begins:
  assumes "started w" and "\<not> shutting_down w" and "mode w = kAllOneThread" and "on_poll w = Some 0"
    and "acceptor_reachable w" and "has_poll (sv_acceptor w)" and "\<not> poll_shut (sv_acceptor w)" and "registry_ok w"
  shows "\<exists>w1. server_shutdown tid env w = Inr w1 \<and>
     (drained (grace_deadline w) w w1 \<or> draining (grace_deadline w) w w1 \<and> sv_now w1 = sv_now w)"
proof -
  let ?w = "w\<lparr>shutting_down := True, shutdown_deadline := grace_deadline w\<rparr>"
  have "acceptor_reachable ?w" using assms(5) by (simp add: acceptor_reachable_def)
  from stop_acceptor_on_main [OF this] assms(4,6,7) obtain a where
    a: "stop_acceptor ?w = Inr (s_emit [S_acceptor_shutdown] (?w\<lparr>sv_acceptor := a\<rparr>))" "\<not> poll_shut a" by auto
  define v where "v = s_emit (map (S_conn_shutdown \<circ> snd) (conns w)) (s_emit [S_acceptor_shutdown] (?w\<lparr>sv_acceptor := a\<rparr>))"
  have gd: "grace_deadline (w\<lparr>shutting_down := True\<rparr>) = grace_deadline w" by (simp add: grace_deadline_def)
  have s: "server_shutdown tid env w = Inr (finish_shutdown_all_one_thread v)"
    using assms(1-4) a(1) by (simp add: server_shutdown_def shutdown_all_one_thread_def v_def s_emit_def Let_def gd flip: grace_deadline_def)
  have "pending (grace_deadline w) w v"
    using assms(1,3,8) registry_small [OF assms(8)] a(2) by (simp add: pending_def v_def s_emit_def registry_ok_def)
  from finish_pending [OF this] have "drained (grace_deadline w) w (finish_shutdown_all_one_thread v) \<or>
      finish_shutdown_all_one_thread v = v \<and> draining (grace_deadline w) w v" by (auto split: if_splits)
  moreover have "sv_now v = sv_now w" by (simp add: v_def s_emit_def)
  ultimately show ?thesis using s by auto
qed

text \<open>
  C10. In one-thread mode a graceful shutdown is driven by the application's calls of \<open>poll()\<close>. Called
  on the poll thread, \<open>shutdown()\<close> stops the acceptor, asks every connection to shut down and
  returns. After any number of rounds the server is either still started, and then some connection
  has not ended and the timeout is not over, or it has stopped: no connection is registered, those
  that had not ended were cleaned up, only after the timeout, and the main poll was stopped last.
  With a timeout, rounds that together last at least that long stop the server.
\<close>

theorem one_thread_shutdown_completes:
  assumes "started w" and "\<not> shutting_down w" and "mode w = kAllOneThread" and "on_poll w = Some 0"
    and "acceptor_reachable w" and "has_poll (sv_acceptor w)" and "\<not> poll_shut (sv_acceptor w)" and "registry_ok w"
  shows "\<exists>w1 w2. server_shutdown tid env w = Inr w1 \<and> poll_rounds rs w1 = Inr w2 \<and>
     (if started w2 then draining (grace_deadline w) w w2 else drained (grace_deadline w) w w2) \<and>
     (shutdown_timeout_ms w > 0 \<longrightarrow> 1000000 * uint (shutdown_timeout_ms w) \<le> int (sum_list (map snd rs)) \<longrightarrow> \<not> started w2)"
proof -
  let ?d = "grace_deadline w"
  from one_thread_begins [OF assms] obtain w1 where 1: "server_shutdown tid env w = Inr w1"
    "drained ?d w w1 \<or> draining ?d w w1 \<and> sv_now w1 = sv_now w" by blast
  then obtain w2 where 2: "poll_rounds rs w1 = Inr w2"
    "drained ?d w w2 \<or> draining ?d w w2 \<and> sv_now w2 = sv_now w + int (sum_list (map snd rs))"
    using drained_rounds [of ?d w w1 rs] draining_rounds [of ?d w w1 rs] by auto
  from 2(2) show ?thesis
  proof
    assume "drained ?d w w2"
    moreover from this have "\<not> started w2" by (simp add: drained_def)
    ultimately show ?thesis using 1(1) 2(1) by simp
  next
    assume d: "draining ?d w w2 \<and> sv_now w2 = sv_now w + int (sum_list (map snd rs))"
    moreover from d have "started w2" "shutdown_timeout_ms w > 0 \<longrightarrow> sv_now w2 < sv_now w + 1000000 * uint (shutdown_timeout_ms w)"
      by (auto simp: draining_def grace_deadline_def)
    ultimately show ?thesis using 1(1) 2(1) by auto
  qed
qed

definition closing_server :: sw where
  "closing_server = sample_server\<lparr>conns := [(7, 0)], objs := [(0, Conn_new 7)], sv_acceptor := sample_acceptor\<rparr>"

lemma closing_server_simps:
  "started closing_server" "\<not> shutting_down closing_server" "mode closing_server = kAllOneThread" "on_poll closing_server = Some 0"
  "has_poll (sv_acceptor closing_server)" "\<not> poll_shut (sv_acceptor closing_server)" "shutdown_timeout_ms closing_server = 30000"
  "acceptor_reachable closing_server" "registry_ok closing_server"
  by (simp_all add: closing_server_def sample_server_simps sample_acceptor_open acceptor_reachable_def sample_acceptor_ok registry_ok_def
     valid_fd_def obj_fd_def Conn_new_def)

theorem one_thread_shutdown_completes_witness:
  "\<exists>w1 w2. server_shutdown 9 [] closing_server = Inr w1 \<and> poll_rounds [([], 20000000000), ([7], 10000000000)] w1 = Inr w2 \<and>
     drained (grace_deadline closing_server) closing_server w2"
proof -
  from one_thread_shutdown_completes [OF closing_server_simps(1-4,8,5,6,9), of 9 "[]" "[([], 20000000000), ([7], 10000000000)]"]
  obtain w1 w2 where "server_shutdown 9 [] closing_server = Inr w1" "poll_rounds [([], 20000000000), ([7], 10000000000)] w1 = Inr w2"
    "if started w2 then draining (grace_deadline closing_server) closing_server w2 else drained (grace_deadline closing_server) closing_server w2"
    "\<not> started w2" by (auto simp: closing_server_simps)
  then show ?thesis by auto
qed

section \<open>Starting\<close>

lemma start_polls_effect:
  shows "sv_acceptor (start_polls ids w) = sv_acceptor w" and "started (start_polls ids w) = started w"
    and "mode (start_polls ids w) = mode w"
    and "mode w = kOnePollPerThread \<Longrightarrow> length ids = nat (thread_num w) \<Longrightarrow>
      \<exists>p. pool (start_polls ids w) = Some p \<and> length (polls p) = nat (thread_num w) \<and> distinct (polls p) \<and>
        length (threads p) = nat (thread_num w) \<and> sub_polls (start_polls ids w) = sub_polls w @ polls p"
  by (auto simp: start_polls_def Let_def pool_start_def PollThreadPool_new_def s_emit_def distinct_map inj_on_def split: prod.splits)

lemma listen_keeps_poll:
  assumes "acceptor_listen os a = Inr (b, a')"
  shows "poll_shut a' = poll_shut a \<and> has_poll a' = has_poll a"
proof (cases "ss_family (local_addr a) = 0")
  case False
  obtain h tr where "listen os (local_addr a) (proto_stack a) (sock_option a) = (h, tr)" by fastforce
  with assms False show ?thesis
    by (cases "h = invalid_socket") (auto simp: acceptor_listen_def a_emit_def Let_def andthen_eq_Inr)
qed (use assms in \<open>auto simp: acceptor_listen_def\<close>)

lemma start_keeps_shut:
  assumes "poll_shut (sv_acceptor w)" and "server_start m ids os w = Inr (b, w')"
  shows "poll_shut (sv_acceptor w')"
proof (cases "thread_num w \<le> 0 \<or> 1024 < thread_num w \<or> started w")
  case True
  then show ?thesis using assms by (auto simp: server_start_def kMaxThreadNum_def Let_def split: if_splits)
next
  case False
  let ?w = "start_polls ids (w\<lparr>started := True, mode := m\<rparr>)"
  from assms(2) False obtain ok a where a: "acceptor_listen os (sv_acceptor ?w) = Inr (ok, a)"
    "w' = (if ok then ?w\<lparr>sv_acceptor := a\<rparr> else (shutdown_polls (?w\<lparr>sv_acceptor := a\<rparr>))\<lparr>started := False\<rparr>)"
    by (auto simp: server_start_def kMaxThreadNum_def Let_def andthen_eq_Inr split: if_splits)
  from listen_keeps_poll [OF a(1)] assms(1) have "poll_shut a" by (simp add: start_polls_effect)
  then show ?thesis using a(2) shutdown_polls_effect [of "?w\<lparr>sv_acceptor := a\<rparr>"] by simp
qed

text \<open>
  What \<open>start()\<close> answers. It answers no, changing nothing, without a positive number of threads
  of at most 1024 or when the server is already started. Otherwise it answers yes exactly when the
  acceptor listens; the server is then started in the mode asked for, with one new poll and one
  thread running it for each of the requested threads when the mode has pool threads, so that new
  connections can be placed. When the acceptor cannot listen the server is not started, no
  descriptor listens, and all polls, the main poll included, are shut down for good: no later
  \<open>poll()\<close> of this server, even after a successful \<open>start()\<close>, runs a round of its main poll.
\<close>

lemma server_start_outcome:
  assumes ok: "acceptor_ok (sv_acceptor w)" "listen_handle (sv_acceptor w) = invalid_socket"
    and fresh: "channels (a_poller (sv_acceptor w)) (lo_socket os) = None" "interest (a_poller (sv_acceptor w)) (lo_socket os) = None"
    and ids: "length ids = nat (thread_num w)"
  shows "\<exists>b w'. server_start m ids os w = Inr (b, w') \<and>
     (if thread_num w \<le> 0 \<or> 1024 < thread_num w \<or> started w then \<not> b \<and> w' = w
      else if b then started w' \<and> mode w' = m \<and> listening (sv_acceptor w') \<and> listen_handle (sv_acceptor w') = lo_socket os \<and> can_place w' \<and>
        (m = kOnePollPerThread \<longrightarrow> (\<exists>p. pool w' = Some p \<and> length (polls p) = nat (thread_num w) \<and> distinct (polls p) \<and>
           length (threads p) = nat (thread_num w) \<and> sub_polls w' = sub_polls w @ polls p))
      else \<not> started w' \<and> listen_handle (sv_acceptor w') = invalid_socket \<and>
        (\<forall>m' ids' os' b' w'' round. server_start m' ids' os' w' = Inr (b', w'') \<longrightarrow> main_poll_round round w'' = Inr w''))"
proof (cases "thread_num w \<le> 0 \<or> 1024 < thread_num w \<or> started w")
  case True
  have "w\<lparr>started := False\<rparr> = w" if "\<not> started w" by (rule sw.equality) (simp_all add: that)
  with True show ?thesis by (auto simp: server_start_def kMaxThreadNum_def Let_def)
next
  case False
  define w2 where "w2 = start_polls ids (w\<lparr>started := True, mode := m\<rparr>)"
  have sp: "sv_acceptor w2 = sv_acceptor w" "started w2" "mode w2 = m"
    "m = kOnePollPerThread \<Longrightarrow> \<exists>p. pool w2 = Some p \<and> length (polls p) = nat (thread_num w) \<and> distinct (polls p) \<and>
        length (threads p) = nat (thread_num w) \<and> sub_polls w2 = sub_polls w @ polls p"
    using start_polls_effect [where ids = ids and w = "w\<lparr>started := True, mode := m\<rparr>"] ids by (simp_all add: w2_def)
  from acceptor_listen_ok [OF ok fresh] obtain b a where a: "acceptor_listen os (sv_acceptor w) = Inr (b, a)"
    "b \<longrightarrow> listen_handle a = lo_socket os \<and> listening a" "\<not> b \<longrightarrow> listen_handle a = invalid_socket" by blast
  have st: "server_start m ids os w = Inr (b, if b then w2\<lparr>sv_acceptor := a\<rparr> else (shutdown_polls (w2\<lparr>sv_acceptor := a\<rparr>))\<lparr>started := False\<rparr>)"
    using False a(1) sp(1) by (simp add: server_start_def kMaxThreadNum_def Let_def flip: w2_def)
  show ?thesis
  proof (cases b)
    case True
    have "can_place (w2\<lparr>sv_acceptor := a\<rparr>)" using False sp(3,4) ids by (fastforce simp: can_place_def)
    then show ?thesis using st False True a(2) sp ids by auto
  next
    case nb: False
    let ?w = "(shutdown_polls (w2\<lparr>sv_acceptor := a\<rparr>))\<lparr>started := False\<rparr>"
    have "poll_shut (sv_acceptor ?w)" "listen_handle (sv_acceptor ?w) = invalid_socket" "\<not> started ?w"
      using shutdown_polls_effect [of "w2\<lparr>sv_acceptor := a\<rparr>"] a(3) nb by simp_all
    then show ?thesis using st False nb start_keeps_shut [of ?w] by (auto simp: main_poll_round_def)
  qed
qed

definition fresh_server :: sw where
  "fresh_server = sample_server\<lparr>started := False, thread_num := 2, sv_acceptor := sample_acceptor\<rparr>"

lemma fresh_server_simps: "sv_acceptor fresh_server = sample_acceptor" "thread_num fresh_server = 2" "\<not> started fresh_server"
  by (simp_all add: fresh_server_def)

lemma fresh_server_starts:
  "\<exists>w. server_start kOnePollPerThread [11, 12] working_listen_os fresh_server = Inr (True, w)"
proof -
  from acceptor_listen_ok [OF sample_acceptor_ok sample_acceptor_simps(1), of working_listen_os] obtain b a where
    a: "acceptor_listen working_listen_os sample_acceptor = Inr (b, a)" by (auto simp: sample_acceptor_simps sample_poller_ok)
  then have b using sample_listens by (cases b) auto
  moreover have "sv_acceptor (start_polls [11, 12] (fresh_server\<lparr>started := True, mode := kOnePollPerThread\<rparr>)) = sample_acceptor"
    by (simp add: start_polls_effect fresh_server_simps)
  ultimately show ?thesis using a by (simp add: server_start_def fresh_server_simps kMaxThreadNum_def Let_def)
qed

section \<open>Destruction on the main poll's thread\<close>

lemma start_polls_keeps:
  "on_poll (start_polls ids w) = on_poll w" "thread_self (start_polls ids w) = thread_self w"
  "exit_thread (start_polls ids w) = exit_thread w"
  by (simp_all add: start_polls_def Let_def s_emit_def split: prod.split)

lemma started_keeps:
  assumes "server_start m ids os w = Inr (True, w')"
  shows "on_poll w' = on_poll w" and "thread_self w' = thread_self w" and "exit_thread w' = exit_thread w"
    and "poll_shut (sv_acceptor w') = poll_shut (sv_acceptor w)" and "has_poll (sv_acceptor w') = has_poll (sv_acceptor w)"
    and "started w'" and "mode w' = m"
proof -
  let ?w = "start_polls ids (w\<lparr>started := True, mode := m\<rparr>)"
  from assms obtain a where a: "acceptor_listen os (sv_acceptor ?w) = Inr (True, a)" "w' = ?w\<lparr>sv_acceptor := a\<rparr>"
    by (auto simp: server_start_def kMaxThreadNum_def Let_def andthen_eq_Inr split: if_splits)
  show "on_poll w' = on_poll w" "thread_self w' = thread_self w" "exit_thread w' = exit_thread w"
    "poll_shut (sv_acceptor w') = poll_shut (sv_acceptor w)" "has_poll (sv_acceptor w') = has_poll (sv_acceptor w)"
    "started w'" "mode w' = m"
    using listen_keeps_poll [OF a(1)] by (simp_all add: a(2) start_polls_keeps start_polls_effect)
qed

text \<open>
  A server with pool threads that is destroyed on the thread that owns its main poll, before its
  loop was run and ended, never goes away. \<open>start()\<close> has succeeded; the destructor calls \<open>shutdown()\<close>,
  which hands the work to the exit thread because the caller is a poll thread; the exit thread waits
  for the main poll's loop to stop the acceptor, and the destructor waits for the exit thread on the
  very thread that would run that loop.
\<close>

lemma destroy_before_run_hangs:
  assumes "server_start kOnePollPerThread ids os w = Inr (True, w1)" and "on_poll w = Some 0" and "exit_thread w = No_thread"
    and "has_poll (sv_acceptor w)" and "\<not> poll_shut (sv_acceptor w)" and "tid \<noteq> thread_self w"
  shows "(\<exists>w2. server_shutdown tid env w1 = Inr w2 \<and> exit_thread w2 = Running Exit_shutdown \<and> sv_log w2 = sv_log w1) \<and>
     Server_delete tid env w1 = Inl Never_returns"
proof -
  note k = started_keeps [OF assms(1)]
  let ?w2 = "w1\<lparr>started := False, exit_thread := Running Exit_shutdown\<rparr>"
  have s: "server_shutdown tid env w1 = Inr ?w2"
    using k assms(2,3) by (simp add: server_shutdown_def is_in_managed_poll_thread_def start_exit_thread_def)
  have "stop_acceptor (?w2\<lparr>loops := (loops w1)(0 := False), on_poll := None, thread_self := tid\<rparr>) = Inl Never_returns"
    using k assms(4,5) by (simp add: stop_acceptor_def acceptor_shutdown_def)
  then have "join_exit_thread tid env ?w2 = Inl Never_returns"
    using k assms(2,6) by (simp add: join_exit_thread_def wait_exit_thread_def run_exit_thread_def shutdown_impl_def blocked_loops_def Let_def)
  with s show ?thesis by (simp add: Server_delete_def)
qed

end
