(* ===== verification/Event_Poll.thy ===== *)
theory Event_Poll
  imports Platform "HOL-Library.Sublist"
begin

text \<open>
  The event loop of a poll thread and its task queue: cxpnet/io_event_poll.h and .cc.

  The step relation interleaves the thread that runs \<open>IOEventPoll::run\<close> with threads that post
  closures (\<open>run_in_poll\<close>, \<open>run_later\<close>) and with one that calls \<open>shutdown\<close>. A step is a part of
  the code between two points where another thread can act: an atomic access, a critical section
  of \<open>mutex_\<close> or a system call. The wakeup eventfd is its counter and the readiness that
  \<open>epoll_wait\<close> will report for it; the channel is edge-triggered, so a report clears the readiness
  and every write sets it.

  The fields \<open>posted\<close> and \<open>executed\<close> record the closures queued and run so far.
\<close>

section \<open>State\<close>

datatype poll_pc =
    At_check
  | At_wait
  | At_dispatch bool
  | At_swap
  | At_run
  | Stopped

record 't event_poll =
  tasks_q :: "'t list"
  shut :: bool
  counter :: nat
  ready :: bool
  batch :: "'t list"
  pc :: poll_pc
  locked :: bool
  shutdown_notified :: bool
  posted :: "'t list"
  executed :: "'t list"

definition EventPoll_new :: "'t event_poll" where
  "EventPoll_new = \<lparr>tasks_q = [], shut = False, counter = 0, ready = False, batch = [], pc = At_check,
     locked = False, shutdown_notified = False, posted = [], executed = []\<rparr>"

text \<open>\<open>tasks_.push_back\<close>, \<open>notify_wakeup_\<close>, \<open>handle_wakeup_\<close> and \<open>tasks_.swap\<close>.\<close>

definition push_task :: "'t \<Rightarrow> 't event_poll \<Rightarrow> 't event_poll" where
  "push_task t s = s\<lparr>tasks_q := tasks_q s @ [t], posted := posted s @ [t]\<rparr>"

definition notify_wakeup :: "'t event_poll \<Rightarrow> 't event_poll" where
  "notify_wakeup s = s\<lparr>counter := counter s + 1, ready := True\<rparr>"

definition handle_wakeup :: "'t event_poll \<Rightarrow> 't event_poll" where
  "handle_wakeup s = s\<lparr>counter := 0\<rparr>"

definition swap_tasks :: "'t event_poll \<Rightarrow> 't event_poll" where
  "swap_tasks s = s\<lparr>batch := tasks_q s, tasks_q := []\<rparr>"

text \<open>The poll thread: \<open>run\<close> with \<open>poll_\<close> inlined; \<open>wait_other\<close> is a timeout or an event of a socket.\<close>

inductive thread_step :: "'t event_poll \<Rightarrow> 't event_poll \<Rightarrow> bool" where
  check_open: "pc s = At_check \<Longrightarrow> \<not> shut s \<Longrightarrow> thread_step s (s\<lparr>pc := At_wait\<rparr>)"
| check_drain: "pc s = At_check \<Longrightarrow> shut s \<Longrightarrow> \<not> locked s \<Longrightarrow> tasks_q s \<noteq> [] \<Longrightarrow>
    thread_step s ((swap_tasks s)\<lparr>pc := At_run\<rparr>)"
| check_stop: "pc s = At_check \<Longrightarrow> shut s \<Longrightarrow> \<not> locked s \<Longrightarrow> tasks_q s = [] \<Longrightarrow>
    thread_step s (s\<lparr>pc := Stopped\<rparr>)"
| wait_wakeup: "pc s = At_wait \<Longrightarrow> ready s \<Longrightarrow> thread_step s (s\<lparr>ready := False, pc := At_dispatch True\<rparr>)"
| wait_other: "pc s = At_wait \<Longrightarrow> \<not> ready s \<Longrightarrow> thread_step s (s\<lparr>pc := At_dispatch False\<rparr>)"
| dispatch: "pc s = At_dispatch woken \<Longrightarrow>
    thread_step s ((if woken then handle_wakeup s else s)\<lparr>pc := At_swap\<rparr>)"
| swap: "pc s = At_swap \<Longrightarrow> \<not> locked s \<Longrightarrow> thread_step s ((swap_tasks s)\<lparr>pc := At_run\<rparr>)"
| exec: "pc s = At_run \<Longrightarrow> batch s = t # ts \<Longrightarrow> thread_step s (s\<lparr>batch := ts, executed := executed s @ [t]\<rparr>)"
| exec_done: "pc s = At_run \<Longrightarrow> batch s = [] \<Longrightarrow> thread_step s (s\<lparr>pc := At_check\<rparr>)"

text \<open>
  Posting and shutting down. The poll thread may itself post while it dispatches events or runs
  closures. Another thread that posts holds the mutex from the push to the notification;
  \<open>shutdown\<close> stores the flag, then notifies.
\<close>

inductive post_step :: "'t event_poll \<Rightarrow> 't event_poll \<Rightarrow> bool" where
  post_own: "pc s \<in> {At_dispatch True, At_dispatch False, At_run} \<Longrightarrow> \<not> locked s \<Longrightarrow>
    post_step s (notify_wakeup (push_task t s))"
| post_push: "\<not> locked s \<Longrightarrow> post_step s ((push_task t s)\<lparr>locked := True\<rparr>)"
| post_notify: "locked s \<Longrightarrow> post_step s ((notify_wakeup s)\<lparr>locked := False\<rparr>)"
| shutdown_flag: "\<not> shut s \<Longrightarrow> post_step s (s\<lparr>shut := True\<rparr>)"
| shutdown_notify: "shut s \<Longrightarrow> \<not> shutdown_notified s \<Longrightarrow> post_step s ((notify_wakeup s)\<lparr>shutdown_notified := True\<rparr>)"

definition poll_step :: "'t event_poll \<Rightarrow> 't event_poll \<Rightarrow> bool" where
  "poll_step s s' \<longleftrightarrow> thread_step s s' \<or> post_step s s'"

inductive poll_reachable :: "'t event_poll \<Rightarrow> bool" where
  initially: "poll_reachable EventPoll_new"
| further: "poll_reachable s \<Longrightarrow> poll_step s s' \<Longrightarrow> poll_reachable s'"

section \<open>Invariant\<close>

text \<open>
  Everything posted was run, is in the batch being run or is queued, in this order. A thread that
  waits, or is about to, while closures are queued or the shutdown flag is set, is going to be
  woken: the wakeup is ready, or the poster or the thread shutting down still has to notify.
\<close>

definition poll_inv :: "'t event_poll \<Rightarrow> bool" where
  "poll_inv s \<longleftrightarrow>
     posted s = executed s @ batch s @ tasks_q s \<and>
     (pc s \<noteq> At_run \<longrightarrow> batch s = []) \<and>
     (pc s \<in> {At_check, At_wait} \<longrightarrow> tasks_q s \<noteq> [] \<longrightarrow> ready s \<or> locked s) \<and>
     (pc s = At_run \<longrightarrow> tasks_q s \<noteq> [] \<longrightarrow> ready s \<or> locked s) \<and>
     (pc s = At_wait \<longrightarrow> shut s \<longrightarrow> ready s \<or> \<not> shutdown_notified s) \<and>
     (shutdown_notified s \<longrightarrow> shut s)"

lemmas poll_ops = push_task_def notify_wakeup_def handle_wakeup_def swap_tasks_def

lemma thread_step_inv: "thread_step s s' \<Longrightarrow> poll_inv s \<Longrightarrow> poll_inv s'"
  by (induction rule: thread_step.induct) (auto simp: poll_inv_def poll_ops)

lemma post_step_inv: "post_step s s' \<Longrightarrow> poll_inv s \<Longrightarrow> poll_inv s'"
  by (induction rule: post_step.induct) (auto simp: poll_inv_def poll_ops)

lemma poll_inv_step: "poll_step s s' \<Longrightarrow> poll_inv s \<Longrightarrow> poll_inv s'"
  unfolding poll_step_def using thread_step_inv post_step_inv by blast

lemma poll_inv_reachable: "poll_reachable s \<Longrightarrow> poll_inv s"
proof (induction rule: poll_reachable.induct)
  case initially
  then show ?case by (simp add: poll_inv_def EventPoll_new_def)
next
  case (further s s')
  then show ?case by (blast intro: poll_inv_step)
qed

section \<open>The loop stops\<close>








section \<open>Properties\<close>

text \<open>
  C20. Closures run exactly once and in the order in which they were posted. In every interleaving
  of posting threads with the poll thread, what was posted is what was run, then the batch being
  run, then the queue; and a loop that has stopped after a shutdown has run everything that was
  posted before it stopped.
\<close>

theorem closures_run_once_in_order:
  assumes "poll_reachable s"
  shows "posted s = executed s @ batch s @ tasks_q s \<and>
     (\<forall>s'. thread_step s s' \<longrightarrow> pc s' = Stopped \<longrightarrow> shut s' \<and> executed s' = posted s')"
proof -
  have "shut s' \<and> executed s' = posted s'" if st: "thread_step s s'" "pc s' = Stopped" for s'
  proof -
    have "poll_inv s'" by (rule thread_step_inv [OF st(1) poll_inv_reachable [OF assms]])
    moreover have "shut s' \<and> tasks_q s' = []" using st by cases (auto simp: poll_ops)
    ultimately show ?thesis using st(2) by (simp add: poll_inv_def)
  qed
  with poll_inv_reachable [OF assms] show ?thesis by (simp add: poll_inv_def)
qed



lemma reach_thread: "poll_reachable s \<Longrightarrow> thread_step s s' \<Longrightarrow> poll_reachable s'"
  by (erule poll_reachable.further) (simp add: poll_step_def)

lemma reach_post: "poll_reachable s \<Longrightarrow> post_step s s' \<Longrightarrow> poll_reachable s'"
  by (erule poll_reachable.further) (simp add: poll_step_def)

lemma stopped_step:
  assumes "poll_step s s'" and "pc s = Stopped"
  shows "pc s' = Stopped \<and> executed s' = executed s \<and> prefix (tasks_q s) (tasks_q s')"
proof -
  have "\<not> thread_step s s'" using assms(2) by (auto elim: thread_step.cases)
  then have "post_step s s'" using assms(1) by (simp add: poll_step_def)
  then show ?thesis using assms(2) by cases (auto simp: poll_ops)
qed

lemma stopped_forever:
  assumes "poll_step\<^sup>*\<^sup>* s s'" and "pc s = Stopped"
  shows "pc s' = Stopped \<and> executed s' = executed s \<and> prefix (tasks_q s) (tasks_q s')"
  using assms
proof (induction rule: rtranclp_induct)
  case (step t t')
  then show ?case using stopped_step [OF step(2)] prefix_order.trans by metis
qed simp

definition post_closure :: "'t \<Rightarrow> 't event_poll \<Rightarrow> 't event_poll" where
  "post_closure t s = notify_wakeup (push_task t s)"

lemma post_reaches:
  assumes "\<not> locked s"
  shows "poll_step\<^sup>*\<^sup>* s (post_closure t s)"
proof -
  let ?m = "(push_task t s)\<lparr>locked := True\<rparr>"
  have "poll_step s ?m" using post_step.post_push [OF assms, of t] by (simp add: poll_step_def)
  moreover have "poll_step ?m ((notify_wakeup ?m)\<lparr>locked := False\<rparr>)"
    using post_step.post_notify [of ?m] by (simp add: poll_step_def)
  moreover have "(notify_wakeup ?m)\<lparr>locked := False\<rparr> = post_closure t s"
    using assms by (intro event_poll.equality) (simp_all add: poll_ops post_closure_def)
  ultimately show ?thesis by (metis converse_rtranclp_into_rtranclp r_into_rtranclp)
qed

text \<open>
  A closure posted after the loop has ended is never run. The queue still accepts it, and
  posting gives no sign of failure: the closure stays in the queue for ever. A caller that waits
  for it to have run, as \<open>Server::run_in_poll_and_wait_\<close> and \<open>Acceptor::shutdown\<close> do, never returns.
\<close>

lemma late_closure_never_runs:
  assumes "poll_reachable s" and st: "pc s = Stopped" and nl: "\<not> locked s"
  shows "poll_step\<^sup>*\<^sup>* s (post_closure t s) \<and>
     (\<forall>s'. poll_step\<^sup>*\<^sup>* (post_closure t s) s' \<longrightarrow> executed s' = executed s \<and> t \<in> set (tasks_q s'))"
proof (intro conjI allI impI)
  show "poll_step\<^sup>*\<^sup>* s (post_closure t s)" by (rule post_reaches [OF nl])
next
  fix s' assume r: "poll_step\<^sup>*\<^sup>* (post_closure t s) s'"
  have p: "pc (post_closure t s) = Stopped" "executed (post_closure t s) = executed s" "tasks_q (post_closure t s) = tasks_q s @ [t]"
    using st by (simp_all add: post_closure_def poll_ops)
  from stopped_forever [OF r p(1)] p(2) show "executed s' = executed s" by simp
  from stopped_forever [OF r p(1)] p(3) show "t \<in> set (tasks_q s')" by (auto simp: prefix_def)
qed

section \<open>Witnesses\<close>

definition stopped_poll :: "nat event_poll" where
  "stopped_poll = EventPoll_new\<lparr>shut := True, pc := Stopped\<rparr>"

definition waiting_poll :: "nat event_poll" where
  "waiting_poll = (post_closure 7 (EventPoll_new\<lparr>pc := At_wait\<rparr>))\<lparr>shut := True\<rparr>"

lemma stopped_poll_reachable: "poll_reachable stopped_poll"
proof -
  let ?n = "EventPoll_new :: nat event_poll"
  have "poll_reachable (?n\<lparr>shut := True\<rparr>)"
    by (rule reach_post [OF poll_reachable.initially post_step.shutdown_flag]) (simp add: EventPoll_new_def)
  moreover have "thread_step (?n\<lparr>shut := True\<rparr>) (?n\<lparr>shut := True, pc := Stopped\<rparr>)"
    using thread_step.check_stop [of "?n\<lparr>shut := True\<rparr>"] by (simp add: EventPoll_new_def)
  ultimately show ?thesis unfolding stopped_poll_def by (rule reach_thread)
qed

lemma reach_star: "poll_step\<^sup>*\<^sup>* s s' \<Longrightarrow> poll_reachable s \<Longrightarrow> poll_reachable s'"
  by (induction rule: rtranclp_induct) (auto intro: poll_reachable.further)

lemma waiting_poll_reachable: "poll_reachable waiting_poll"
proof -
  let ?n = "EventPoll_new :: nat event_poll"
  have w: "poll_reachable (?n\<lparr>pc := At_wait\<rparr>)"
    by (rule reach_thread [OF poll_reachable.initially thread_step.check_open]) (simp_all add: EventPoll_new_def)
  have "\<not> locked (?n\<lparr>pc := At_wait\<rparr>)" by (simp add: EventPoll_new_def)
  from reach_star [OF post_reaches [OF this] w] have "poll_reachable (post_closure 7 (?n\<lparr>pc := At_wait\<rparr>))" .
  then show ?thesis unfolding waiting_poll_def
    by (rule reach_post [OF _ post_step.shutdown_flag]) (simp add: post_closure_def poll_ops EventPoll_new_def)
qed


theorem closures_run_once_in_order_witness:
  "posted waiting_poll = executed waiting_poll @ batch waiting_poll @ tasks_q waiting_poll"
  using closures_run_once_in_order [OF waiting_poll_reachable] by blast



end
