(* ===== verification/App_Main.thy ===== *)
theory App_Main
  imports App_Async App_Chat Server_Stop Event_Poll
begin

text \<open>
  How the programs under src/examples start and end: the \<open>start()\<close> methods of the servers, and
  the two small programs that exercise the assertions and the buffer.

  \<open>Server::run\<close> runs the main poll's loop, whose rounds are given as a list of functions on the
  server. The result tells whether the loop has ended; when the rounds are used up before the poll
  is shut down, the program is still running.
\<close>

section \<open>The servers\<close>

fun main_poll_loop :: "(sw \<Rightarrow> sw result) list \<Rightarrow> sw \<Rightarrow> (bool \<times> sw) result" where
  "main_poll_loop [] w = Inr (poll_shut (sv_acceptor w), w)"
| "main_poll_loop (round # rounds) w =
     (if poll_shut (sv_acceptor w) then Inr (True, w) else andthen (round w) (main_poll_loop rounds))"

definition server_run :: "(sw \<Rightarrow> sw result) list \<Rightarrow> sw \<Rightarrow> (bool \<times> sw) result" where
  "server_run rounds w =
     ensure (mode w = kOnePollPerThread) ''running_mode_ == RunningMode::kOnePollPerThread''
     (if \<not> started w then Inr (True, w) else main_poll_loop rounds w)"

text \<open>
  The exit code of the program, or \<open>None\<close> while it runs. echo_server, tcp_server and chat_server return
  from \<open>start()\<close> with 1 when the server does not start; http_server and file_server just return, and
  their \<open>main\<close> returns 0; async_server and stress_server do not look at the answer.
\<close>

definition exit_code :: "bool \<times> sw \<Rightarrow> (int option \<times> sw) result" where
  "exit_code r = Inr (if fst r then Some 0 else None, snd r)"

definition start_or_fail :: "nat list \<Rightarrow> listen_os \<Rightarrow> (sw \<Rightarrow> sw result) list \<Rightarrow> sw \<Rightarrow> (int option \<times> sw) result" where
  "start_or_fail ids os rounds w =
     andthen (server_start kOnePollPerThread ids os w) (\<lambda>(ok, w1).
       if \<not> ok then Inr (Some 1, w1) else andthen (server_run rounds w1) exit_code)"

definition start_or_return :: "nat list \<Rightarrow> listen_os \<Rightarrow> (sw \<Rightarrow> sw result) list \<Rightarrow> sw \<Rightarrow> (int option \<times> sw) result" where
  "start_or_return ids os rounds w =
     andthen (server_start kOnePollPerThread ids os w) (\<lambda>(ok, w1).
       if \<not> ok then Inr (Some 0, w1) else andthen (server_run rounds w1) exit_code)"

definition start_anyway :: "nat list \<Rightarrow> listen_os \<Rightarrow> (sw \<Rightarrow> sw result) list \<Rightarrow> sw \<Rightarrow> (int option \<times> sw) result" where
  "start_anyway ids os rounds w =
     andthen (server_start kOnePollPerThread ids os w) (\<lambda>(ok, w1). andthen (server_run rounds w1) exit_code)"

text \<open>
  The constructor of a server, with the main poll it makes: what is set in the state of the machine
  (\<open>running_mode_\<close> is not). The programs set the number of threads and the connection callback, and
  listen on 127.0.0.1.
\<close>

definition Server_new :: "inet_pton \<Rightarrow> string \<Rightarrow> uint16 \<Rightarrow> protocol_stack \<Rightarrow> cflags \<Rightarrow> sw \<Rightarrow> sw" where
  "Server_new resolve addr port stack option w =
     w\<lparr>started := False, shutting_down := False, thread_num := 0, shutdown_deadline := None, conns := [], has_on_conn := False,
       on_error_func := None, max_connections := 0, shutdown_timeout_ms := 30000, pool := None, sub_polls := [],
       exit_thread := No_thread,
       sv_acceptor := (set_listen_addr resolve addr port stack option
           (acceptor.extend Acceptor_new (aw.fields (a_poller (sv_acceptor w)) True (a_in_poll (sv_acceptor w)) False
              (loop_alive (sv_acceptor w)) (a_next_channel (sv_acceptor w)) [])))\<lparr>has_conn_func := True, has_err_func := True\<rparr>\<rparr>"

definition set_thread_num :: "int \<Rightarrow> sw \<Rightarrow> sw" where
  "set_thread_num n w = w\<lparr>thread_num := n\<rparr>"

definition set_conn_user_callback :: "sw \<Rightarrow> sw" where
  "set_conn_user_callback w = w\<lparr>has_on_conn := True\<rparr>"

definition set_error_user_callback :: "sw \<Rightarrow> sw" where
  "set_error_user_callback w = w\<lparr>on_error_func := Some Err_return\<rparr>"

definition local_server :: "uint16 \<Rightarrow> int \<Rightarrow> inet_pton \<Rightarrow> sw \<Rightarrow> sw" where
  "local_server port n resolve w =
     set_conn_user_callback (set_thread_num n (Server_new resolve ''127.0.0.1'' port kIPv4Only kReuseAddr w))"

definition async_server :: "inet_pton \<Rightarrow> sw \<Rightarrow> sw" where
  "async_server resolve w =
     set_error_user_callback (set_conn_user_callback (set_thread_num 1 (Server_new resolve ''127.0.0.1'' 9090 kIPv4Only 0 w)))"

type_synonym main_fun = "inet_pton \<Rightarrow> nat list \<Rightarrow> listen_os \<Rightarrow> (sw \<Rightarrow> sw result) list \<Rightarrow> sw \<Rightarrow> (int option \<times> sw) result"

definition echo_server_main :: main_fun where
  "echo_server_main resolve ids os rounds w = start_or_fail ids os rounds (local_server 9092 4 resolve w)"

definition tcp_server_main :: main_fun where
  "tcp_server_main resolve ids os rounds w = start_or_fail ids os rounds (local_server 9090 4 resolve w)"

definition chat_server_main :: main_fun where
  "chat_server_main resolve ids os rounds w = start_or_fail ids os rounds (local_server 9091 4 resolve w)"

definition http_server_main :: main_fun where
  "http_server_main resolve ids os rounds w = start_or_return ids os rounds (local_server 8080 4 resolve w)"

definition file_server_main :: main_fun where
  "file_server_main resolve ids os rounds w = start_or_return ids os rounds (local_server 9094 4 resolve w)"

definition async_server_main :: main_fun where
  "async_server_main resolve ids os rounds w = start_anyway ids os rounds (async_server resolve w)"

text \<open>\<open>StressServer::start\<close>, without the thread that prints.\<close>

definition stress_server_start :: main_fun where
  "stress_server_start resolve ids os rounds w = start_anyway ids os rounds (local_server 9093 8 resolve w)"

text \<open>A loop whose rounds never shut the main poll down is still running after any number of them.\<close>

lemma main_poll_loop_runs:
  assumes "\<And>round w. round \<in> set rounds \<Longrightarrow> \<not> poll_shut (sv_acceptor w) \<Longrightarrow>
      \<exists>w'. round w = Inr w' \<and> \<not> poll_shut (sv_acceptor w')"
    and "\<not> poll_shut (sv_acceptor w)"
  shows "\<exists>w'. main_poll_loop rounds w = Inr (False, w')"
  using assms
proof (induction rounds arbitrary: w)
  case (Cons r rs)
  from Cons.prems(1) [of r] Cons.prems(2) obtain w1 where "r w = Inr w1" "\<not> poll_shut (sv_acceptor w1)" by auto
  with Cons.IH [of w1] Cons.prems show ?case by auto
qed simp

text \<open>What a failed start leaves behind: the mode asked for, and a server that is not started.\<close>

lemma shutdown_polls_keeps: "mode (shutdown_polls w) = mode w" "poll_shut (sv_acceptor (shutdown_polls w))"
  by (auto simp: shutdown_polls_def s_emit_def Let_def split: option.split prod.split)

lemma failed_start:
  assumes "server_start m ids os w = Inr (False, w')" and "0 < thread_num w" "thread_num w \<le> 1024" "\<not> started w"
  shows "\<not> started w'" and "mode w' = m" and "poll_shut (sv_acceptor w')"
proof -
  let ?w = "start_polls ids (w\<lparr>started := True, mode := m\<rparr>)"
  from assms obtain a where w': "w' = (shutdown_polls (?w\<lparr>sv_acceptor := a\<rparr>))\<lparr>started := False\<rparr>"
    by (auto simp: server_start_def kMaxThreadNum_def Let_def andthen_eq_Inr split: if_splits)
  show "\<not> started w'" "mode w' = m" "poll_shut (sv_acceptor w')" unfolding w'
    by (simp_all add: shutdown_polls_keeps start_polls_effect)
qed

definition goes_on :: "(sw \<Rightarrow> sw result) \<Rightarrow> bool" where
  "goes_on round \<longleftrightarrow> (\<forall>w. \<not> poll_shut (sv_acceptor w) \<longrightarrow> (\<exists>w'. round w = Inr w' \<and> \<not> poll_shut (sv_acceptor w')))"

text \<open>A machine on which a server can be made: its poller works and does not know the new socket yet.\<close>

definition machine_ok :: "listen_os \<Rightarrow> sw \<Rightarrow> bool" where
  "machine_ok os w \<longleftrightarrow> epoll_ok (a_poller (sv_acceptor w)) \<and> channels (a_poller (sv_acceptor w)) (lo_socket os) = None \<and>
     interest (a_poller (sv_acceptor w)) (lo_socket os) = None"

definition configured :: "listen_os \<Rightarrow> sw \<Rightarrow> bool" where
  "configured os w \<longleftrightarrow> acceptor_ok (sv_acceptor w) \<and> listen_handle (sv_acceptor w) = invalid_socket \<and>
     channels (a_poller (sv_acceptor w)) (lo_socket os) = None \<and> interest (a_poller (sv_acceptor w)) (lo_socket os) = None \<and>
     0 < thread_num w \<and> thread_num w \<le> 1024 \<and> \<not> started w \<and> \<not> poll_shut (sv_acceptor w)"

lemma programs_configured:
  assumes "machine_ok os w"
  shows "0 < n \<Longrightarrow> n \<le> 1024 \<Longrightarrow> configured os (local_server port n resolve w)" and "configured os (async_server resolve w)"
  using assms
  by (simp_all add: configured_def machine_ok_def local_server_def async_server_def set_conn_user_callback_def set_thread_num_def
        set_error_user_callback_def Server_new_def set_listen_addr_def Acceptor_new_def acceptor_ok_def acceptor.defs aw.defs)

lemma configured_starts:
  assumes "configured os w"
  shows "\<exists>ok w1. server_start m ids os w = Inr (ok, w1) \<and> (listen_handle (sv_acceptor w1) \<noteq> invalid_socket \<longleftrightarrow> ok)"
proof -
  let ?w = "start_polls ids (w\<lparr>started := True, mode := m\<rparr>)"
  have keep: "listen_handle (sv_acceptor (shutdown_polls w)) = listen_handle (sv_acceptor w)" for w
    by (auto simp: shutdown_polls_def s_emit_def Let_def split: option.split prod.split)
  from assms acceptor_listen_ok [of "sv_acceptor w" os] obtain b a where
    a: "acceptor_listen os (sv_acceptor w) = Inr (b, a)" "listen_handle a \<noteq> invalid_socket \<longleftrightarrow> b" by (auto simp: configured_def)
  have "server_start m ids os w =
      Inr (b, if b then ?w\<lparr>sv_acceptor := a\<rparr> else (shutdown_polls (?w\<lparr>sv_acceptor := a\<rparr>))\<lparr>started := False\<rparr>)"
    using assms a(1) by (simp add: configured_def server_start_def kMaxThreadNum_def Let_def start_polls_effect)
  then show ?thesis using a(2) by (simp add: keep)
qed

text \<open>
  How a program ends when its server does not start: with the given exit code, in the state the
  attempt left. Otherwise it listens, and runs on.
\<close>

definition exits_with :: "int \<Rightarrow> nat list \<Rightarrow> listen_os \<Rightarrow> sw \<Rightarrow> (int option \<times> sw) result \<Rightarrow> bool" where
  "exits_with code ids os srv r \<longleftrightarrow> (\<exists>ok w1. server_start kOnePollPerThread ids os srv = Inr (ok, w1) \<and>
     (listen_handle (sv_acceptor w1) \<noteq> invalid_socket \<longleftrightarrow> ok) \<and>
     (if ok then \<exists>w2. r = Inr (None, w2) else r = Inr (Some code, w1)))"

lemma exits_failed:
  "exits_with code ids os srv r \<Longrightarrow> server_start kOnePollPerThread ids os srv = Inr (False, w1) \<Longrightarrow> r = Inr (Some code, w1)"
  by (auto simp: exits_with_def)

lemma start_exits:
  assumes w: "configured os w" and rounds: "list_all goes_on rounds"
  shows "exits_with 1 ids os w (start_or_fail ids os rounds w)" and "exits_with 0 ids os w (start_or_return ids os rounds w)"
    and "exits_with 0 ids os w (start_anyway ids os rounds w)"
proof -
  from configured_starts [OF w] obtain ok w1 where
    st: "server_start kOnePollPerThread ids os w = Inr (ok, w1)" "listen_handle (sv_acceptor w1) \<noteq> invalid_socket \<longleftrightarrow> ok" by blast
  have "if ok then \<exists>w2. server_run rounds w1 = Inr (False, w2) else server_run rounds w1 = Inr (True, w1)"
  proof (cases ok)
    case False
    with failed_start [of kOnePollPerThread ids os w w1] st(1) w show ?thesis by (simp add: server_run_def configured_def)
  next
    case True
    with st(1) have "server_start kOnePollPerThread ids os w = Inr (True, w1)" by simp
    note s = started_keeps [OF this]
    have "\<exists>w2. main_poll_loop rounds w1 = Inr (False, w2)"
      using main_poll_loop_runs [of rounds w1] rounds s(4) w by (auto simp: goes_on_def list_all_iff configured_def)
    then show ?thesis using True s(6,7) by (simp add: server_run_def)
  qed
  with st show "exits_with 1 ids os w (start_or_fail ids os rounds w)" "exits_with 0 ids os w (start_or_return ids os rounds w)"
    "exits_with 0 ids os w (start_anyway ids os rounds w)"
    by (auto simp: exits_with_def start_or_fail_def start_or_return_def start_anyway_def exit_code_def split: if_splits)
qed

text \<open>
  How the server programs report that they could not start. When the server does not listen,
  echo_server, tcp_server and chat_server exit with 1 without a round of the poll. http_server and
  file_server, and async_server and stress_server, which do not look at the answer of \<open>start()\<close>, exit
  with 0, as after a regular end. When the server listens, all of them run for as long as no round of
  the main poll shuts it down.
\<close>

lemma start_failure_reported:
  assumes "machine_ok os w" and "list_all goes_on rounds"
  shows "exits_with 1 ids os (local_server 9092 4 resolve w) (echo_server_main resolve ids os rounds w) \<and>
     exits_with 1 ids os (local_server 9090 4 resolve w) (tcp_server_main resolve ids os rounds w) \<and>
     exits_with 1 ids os (local_server 9091 4 resolve w) (chat_server_main resolve ids os rounds w) \<and>
     exits_with 0 ids os (local_server 8080 4 resolve w) (http_server_main resolve ids os rounds w) \<and>
     exits_with 0 ids os (local_server 9094 4 resolve w) (file_server_main resolve ids os rounds w) \<and>
     exits_with 0 ids os (async_server resolve w) (async_server_main resolve ids os rounds w) \<and>
     exits_with 0 ids os (local_server 9093 8 resolve w) (stress_server_start resolve ids os rounds w)"
  using start_exits [OF _ assms(2)] programs_configured [OF assms(1)]
  by (simp add: echo_server_main_def tcp_server_main_def chat_server_main_def http_server_main_def file_server_main_def
        async_server_main_def stress_server_start_def)

text \<open>With an \<open>inet_pton\<close> that knows no address, no server can listen.\<close>

lemma start_failure_reported_instance:
  "\<exists>w1 w2. echo_server_main (\<lambda>_ _. None) [1, 2, 3, 4] working_listen_os [Inr, Inr] fresh_server = Inr (Some 1, w1) \<and>
     http_server_main (\<lambda>_ _. None) [1, 2, 3, 4] working_listen_os [Inr, Inr] fresh_server = Inr (Some 0, w2)"
proof -
  let ?none = "\<lambda>_ _. None :: byte list option" and ?ids = "[1, 2, 3, 4] :: nat list" and ?os = working_listen_os
  have m: "machine_ok ?os fresh_server"
    by (simp add: machine_ok_def fresh_server_simps sample_acceptor_simps sample_poller_ok)
  have r: "list_all goes_on [Inr, Inr]" by (simp add: goes_on_def)
  have f: "\<exists>w1. server_start kOnePollPerThread ?ids ?os (local_server port 4 ?none fresh_server) = Inr (False, w1)" for port
    by (simp add: server_start_def local_server_def set_conn_user_callback_def set_thread_num_def Server_new_def set_listen_addr_def
          kMaxThreadNum_def Let_def start_polls_effect acceptor_listen_def get_sockaddr_def zero_sockaddr_def)
  from f [of 9092] f [of 8080] obtain w1 w2 where
    "server_start kOnePollPerThread ?ids ?os (local_server 9092 4 ?none fresh_server) = Inr (False, w1)"
    "server_start kOnePollPerThread ?ids ?os (local_server 8080 4 ?none fresh_server) = Inr (False, w2)" by blast
  with start_failure_reported [OF m r, where ids = ?ids and resolve = ?none] show ?thesis
    by (blast dest: exits_failed)
qed

section \<open>The assertion and the buffer programs\<close>

text \<open>src/examples/ensure.\<close>

definition int_text :: "int \<Rightarrow> string" where
  "int_text i = (if i < 0 then ''-'' @ digits (nat (- i)) else digits (nat i))"

definition check_user_profile :: "int \<Rightarrow> string \<Rightarrow> unit result" where
  "check_user_profile user_id name =
     ensure (user_id > 0) (''User ID must be a positive number, but got '' @ int_text user_id @ ''.'')
     (ensure (name \<noteq> []) (''User name cannot be empty for ID '' @ int_text user_id @ ''.'')
     (Inr ()))"

definition ensure_main :: "int result" where
  "ensure_main =
     andthen (check_user_profile 101 ''Alice'') (\<lambda>_.
     andthen (check_user_profile (- 5) ''Bob'') (\<lambda>_.
     andthen (check_user_profile 102 []) (\<lambda>_. Inr 0)))"

text \<open>The program stops at its second case and never reaches the third or its end.\<close>

lemma ensure_main_stops: "ensure_main = Inl (Ensure_failed ''User ID must be a positive number, but got -5.'')"
  by (simp add: ensure_main_def check_user_profile_def ensure_def int_text_def digits.simps char_of_def bit_0)

text \<open>src/examples/test_buffer: the sizes and the contents it prints.\<close>

definition buffer_report :: "buffer \<Rightarrow> (size_t \<times> size_t \<times> cell list) result" where
  "buffer_report b = andthen (peek b) (\<lambda>content. Inr (readable_size b, writable_size b, content))"

definition test_buffer_main :: "(size_t \<times> size_t \<times> cell list) list result" where
  "test_buffer_main =
     andthen (Buffer_new 10) (\<lambda>b0. andthen (buffer_report b0) (\<lambda>r0.
     andthen (append_bytes b0 (bytes ''abcde'')) (\<lambda>b1. andthen (buffer_report b1) (\<lambda>r1.
     andthen (been_read b1 3) (\<lambda>b2. andthen (buffer_report b2) (\<lambda>r2.
     andthen (append_bytes b2 (bytes ''fghuik'')) (\<lambda>b3. andthen (buffer_report b3) (\<lambda>r3.
     andthen (append_bytes b3 (bytes ''12345678901234567'')) (\<lambda>b4. andthen (buffer_report b4) (\<lambda>r4.
       Inr [r0, r1, r2, r3, r4]))))))))))"

lemma report_ok: "buf_inv b \<Longrightarrow> buffer_report b = Inr (readable_size b, writable_size b, contents b)"
  by (simp add: buffer_report_def peek_ok)

text \<open>No operation of the program fails, and the contents it shows are those its comments expect.\<close>

lemma test_buffer_shows:
  "\<exists>rs. test_buffer_main = Inr rs \<and>
     map (\<lambda>(r, w, content). content) rs =
       map (\<lambda>t. map Some (bytes t)) [[], ''abcde'', ''de'', ''defghuik'', ''defghuik12345678901234567'']"
proof -
  from Buffer_new_correct [of 10] obtain b0 where
    0: "Buffer_new 10 = Inr b0" "buf_inv b0" "contents b0 = []" by auto
  from append_bytes_correct [OF 0(2), of "bytes ''abcde''"] length_contents [OF 0(2)] 0(3) obtain b1 where
    1: "append_bytes b0 (bytes ''abcde'') = Inr b1" "buf_inv b1" "contents b1 = map Some (bytes ''abcde'')" by (auto simp: bytes_def)
  from been_read_nat [OF 1(2), of 3] 1(3) obtain b2 where
    2: "been_read b1 3 = Inr b2" "buf_inv b2" "contents b2 = map Some (bytes ''de'')" by (auto simp: bytes_def)
  from append_bytes_correct [OF 2(2), of "bytes ''fghuik''"] length_contents [OF 2(2)] 2(3) obtain b3 where
    3: "append_bytes b2 (bytes ''fghuik'') = Inr b3" "buf_inv b3" "contents b3 = map Some (bytes ''defghuik'')" by (auto simp: bytes_def)
  from append_bytes_correct [OF 3(2), of "bytes ''12345678901234567''"] length_contents [OF 3(2)] 3(3) obtain b4 where
    4: "append_bytes b3 (bytes ''12345678901234567'') = Inr b4" "buf_inv b4" "contents b4 = map Some (bytes ''defghuik12345678901234567'')"
    by (auto simp: bytes_def)
  show ?thesis using 0 1 2 3 4 by (simp add: test_buffer_main_def report_ok) (simp add: bytes_def)
qed

end
