(* ===== verification/Conn_Setup.thy ===== *)
theory Conn_Setup
  imports Conn_Props
begin

text \<open>
  Settings of a connection and connecting in one call: \<open>set_read_write_buffer_size\<close>, \<open>set_watermark\<close>,
  \<open>set_close_timeout\<close> and \<open>connect_sync\<close> of cxpnet/conn.h and cxpnet/conn.cc.
\<close>

section \<open>Objects and worlds\<close>

text \<open>The world as an object \<open>c\<close> sees it.\<close>

definition seen_by :: "conn \<Rightarrow> 'a cw \<Rightarrow> 'a cw" where
  "seen_by c w = conn.extend c (conn.more w)"

lemma seen_by_fields [simp]:
  "c_handle (seen_by c w) = c_handle c" "c_channel (seen_by c w) = c_channel c" "c_state (seen_by c w) = c_state c"
  "read_buffer (seen_by c w) = read_buffer c" "write_buffer (seen_by c w) = write_buffer c" "cleanup_done (seen_by c w) = cleanup_done c"
  "poller (seen_by c w) = poller w" "in_poll (seen_by c w) = in_poll w" "recvs (seen_by c w) = recvs w" "log (seen_by c w) = log w"
  "pton (seen_by c w) = pton w" "conn_os (seen_by c w) = conn_os w" "app (seen_by c w) = app w"
  by (cases w; cases c; simp add: seen_by_def conn.defs)+

lemma truncate_fields [simp]:
  fixes w :: "'a cw"
  shows "c_state (conn.truncate w) = c_state w" "c_handle (conn.truncate w) = c_handle w"
  by (simp_all add: conn.defs)

lemma seen_by_self [simp]: "seen_by (conn.truncate w) w = w"
  by (cases w) (simp add: seen_by_def conn.defs)

section \<open>Settings\<close>

text \<open>
  New buffers. Set while nothing waits to be sent, as in the connection callback, they leave the
  connection in order and drop what was received and not yet taken. Set while output waits, they drop
  that output although it was accepted, and the channel keeps waiting to write it.
\<close>

lemma new_buffers:
  assumes "r \<noteq> 0" "s \<noteq> 0"
  shows "\<exists>rb wb. set_read_write_buffer_size r s c = Inr (c\<lparr>read_buffer := Some rb, write_buffer := Some wb\<rparr>) \<and>
     buf_inv rb \<and> buf_inv wb \<and> contents rb = [] \<and> contents wb = []"
proof -
  have b: "unat (ucast x :: size_t) \<le> 2 ^ 61" for x :: uint32
  proof -
    have "unat x < 2 ^ 32" using unsigned_less [of x] by simp
    moreover have "unat (ucast x :: size_t) \<le> unat x" by (simp add: unsigned_ucast_eq)
    ultimately show ?thesis by simp
  qed
  from Buffer_new_correct [OF b, of r] obtain rb where "Buffer_new (ucast r) = Inr rb" "buf_inv rb" "contents rb = []" by blast
  moreover from Buffer_new_correct [OF b, of s] obtain wb where "Buffer_new (ucast s) = Inr wb" "buf_inv wb" "contents wb = []" by blast
  ultimately show ?thesis using assms by (intro exI [of _ rb] exI [of _ wb]) (simp add: set_read_write_buffer_size_def)
qed

lemma seen_by_update: "seen_by ((conn.truncate w)\<lparr>read_buffer := x, write_buffer := y\<rparr>) w = w\<lparr>read_buffer := x, write_buffer := y\<rparr>"
  by (cases w) (simp add: seen_by_def conn.defs)

lemma set_buffers_in_order:
  assumes inv: "conn_inv w" and out: "out_cells w = []" and "r \<noteq> 0" "s \<noteq> 0"
  shows "\<exists>c. set_read_write_buffer_size r s (conn.truncate w) = Inr c \<and> conn_inv (seen_by c w) \<and> in_cells (seen_by c w) = []"
proof -
  from new_buffers [OF assms(3,4), of "conn.truncate w"] obtain rb wb where
    b: "set_read_write_buffer_size r s (conn.truncate w) = Inr ((conn.truncate w)\<lparr>read_buffer := Some rb, write_buffer := Some wb\<rparr>)"
       "buf_inv rb" "buf_inv wb" "contents rb = []" "contents wb = []" by blast
  have "conn_inv (w\<lparr>read_buffer := Some rb, write_buffer := Some wb\<rparr>)"
    using inv out b(2-5) by (auto simp: cw_defs split: option.splits if_splits)
  then show ?thesis using b(1,4) by (auto simp: seen_by_update in_cells_def)
qed

lemma set_buffers_discards_output:
  assumes inv: "conn_inv w" and up: "is_up w" and out: "out_cells w \<noteq> []" and "r \<noteq> 0" "s \<noteq> 0"
  shows "\<exists>c. set_read_write_buffer_size r s (conn.truncate w) = Inr c \<and> out_cells (seen_by c w) = [] \<and>
     sent_cells (seen_by c w) \<noteq> owed_cells (seen_by c w) \<and> \<not> conn_inv (seen_by c w)"
proof -
  from new_buffers [OF assms(4,5), of "conn.truncate w"] obtain rb wb where
    b: "set_read_write_buffer_size r s (conn.truncate w) = Inr ((conn.truncate w)\<lparr>read_buffer := Some rb, write_buffer := Some wb\<rparr>)"
       "contents wb = []" by blast
  let ?w = "w\<lparr>read_buffer := Some rb, write_buffer := Some wb\<rparr>"
  have "sent_cells w @ out_cells w = owed_cells w" using inv up by (simp add: conn_inv_def stream_inv_def)
  then have ne: "sent_cells ?w \<noteq> owed_cells ?w" using out by (auto simp: sent_cells_def owed_cells_def)
  moreover have "out_cells ?w = []" "is_up ?w" using b(2) up by (simp_all add: out_cells_def is_up_def)
  ultimately have "\<not> conn_inv ?w" by (simp add: conn_inv_def stream_inv_def)
  with ne \<open>out_cells ?w = []\<close> b(1) show ?thesis by (auto simp: seen_by_update)
qed

text \<open>The watermarks are never 0 and never equal once they were set, and bad values change nothing.\<close>

lemma set_watermark_valid:
  assumes "high_watermark c \<noteq> low_watermark c" "high_watermark c \<noteq> 0" "low_watermark c \<noteq> 0"
  shows "high_watermark (set_watermark h l c) \<noteq> low_watermark (set_watermark h l c)" "high_watermark (set_watermark h l c) \<noteq> 0"
    "low_watermark (set_watermark h l c) \<noteq> 0"
  using assms by (simp_all add: set_watermark_def)

text \<open>Without a close timeout a graceful shutdown schedules no timer.\<close>

lemma no_close_timer:
  assumes "shutdown_in_poll (seen_by (set_close_timeout 0 (conn.truncate w)) w) = Inr w'"
  shows "tmgr w' = tmgr w" and "close_timer_id w' = close_timer_id w"
proof -
  let ?v = "seen_by (set_close_timeout 0 (conn.truncate w)) w"
  have v: "close_timeout_ms ?v = 0" "tmgr ?v = tmgr w" "close_timer_id ?v = close_timer_id w"
    by (cases w; simp add: seen_by_def set_close_timeout_def conn.defs)+
  have ch: "tmgr x = tmgr y \<and> close_timer_id x = close_timer_id y \<and> close_timeout_ms x = close_timeout_ms y"
    if "on_channel_if f y = Inr x" for f and x y :: "'a cw"
    using that by (auto simp: on_channel_if_def on_channel_def andthen_eq_Inr split: if_splits option.splits)
  show "tmgr w' = tmgr w" "close_timer_id w' = close_timer_id w" using assms v
    by (auto simp: shutdown_in_poll_def ensure_eq_Inr andthen_eq_Inr Let_def split: if_splits dest!: ch)
qed

section \<open>Connecting in one call\<close>

text \<open>
  \<open>connect_sync\<close> on the poll thread, with a descriptor small enough for \<open>select\<close>: it answers true exactly
  when the connection is up afterwards, on the new descriptor and in order; otherwise nothing is
  open. On any other thread it fails the assertion of \<open>start_\<close> once the connection is made.
\<close>

lemma connect_sync_outcome:
  assumes w: "in_poll w" "epoll_ok (poller w)" "bufs_ok w" "out_cells w = []" and st: "c_state w = kDisconnected"
    and h: "fresh_handle (poller w) (co_socket (conn_os w))" "0 \<le> co_socket (conn_os w)" "co_socket (conn_os w) < FD_SETSIZE"
  shows "\<exists>b w'. connect_sync addr port w = Inr (b, w') \<and> (b \<longleftrightarrow> c_state w' = kConnected) \<and>
     (if b then conn_inv w' \<and> settled w' \<and> c_handle w' = co_socket (conn_os w) \<and> epoll_watched (poller w') (c_handle w') = kRead
      else c_state w' = kDisconnected \<and> poller w' = poller w \<and> c_handle w' = c_handle w)"
proof -
  define ip where "ip = ip_address_type (pton w) addr"
  define sa where "sa = get_sockaddr (pton w) addr port (if ip = IP_v4 then kIPv4Only else kIPv6Only)"
  obtain hd tr where c: "connect (conn_os w) sa False = Inr (hd, tr)" "hd < 0 \<or> hd = co_socket (conn_os w)"
    using connect_no_leak [where os = "conn_os w" and addr = sa and async = False] h(3) by (auto split: sum.splits if_splits)
  let ?v = "w\<lparr>cleanup_done := False, c_addr := take 45 addr, c_port := port, log := log w @ map Ev_sys tr, c_handle := hd\<rparr>"
  show ?thesis
  proof (cases "ip = IP_Invalid \<or> ss_family sa = 0 \<or> hd < 0")
    case True
    then show ?thesis using st c(1) by (auto simp: connect_sync_def Let_def simp flip: ip_def sa_def)
  next
    case False
    then have hd: "hd = co_socket (conn_os w)" using c(2) by auto
    have "bufs_ok ?v" "out_cells ?v = []" using w(3,4) by (simp_all add: bufs_ok_def in_cells_def out_cells_def)
    with start_ok [of ?v] w(1,2) st h(1) hd obtain w' where
      "start ?v = Inr w'" "conn_inv w'" "settled w'" "c_state w' = kConnected" "c_handle w' = hd" "epoll_watched (poller w') hd = kRead"
      by auto
    then show ?thesis using False st c(1) hd by (auto simp: connect_sync_def Let_def simp flip: ip_def sa_def)
  qed
qed

lemma connect_sync_elsewhere:
  assumes "c_state w = kDisconnected" and "\<not> in_poll w"
  shows "(\<exists>e. connect_sync addr port w = Inl e) \<or> (\<exists>w'. connect_sync addr port w = Inr (False, w'))"
  using assms by (auto simp: connect_sync_def start_def ensure_def Let_def andthen_def split: sum.splits)

end
