(* ===== verification/App_Stress.thy ===== *)
theory App_Stress
  imports App_Main Conn_Setup
begin

text \<open>
  The programs stress_client and stress_server under src/examples: the connections of the client,
  how it opens them and how it fails to end, and how the server runs for a minute and ends.
\<close>

section \<open>The stress client\<close>

record stress_client =
  sc_connected :: "32 word"
  sc_messages :: "64 word"
  sc_scheduled :: nat

definition sc_on_close :: "int \<Rightarrow> stress_client \<Rightarrow> stress_client" where
  "sc_on_close err s = s\<lparr>sc_connected := sc_connected s - 1\<rparr>"

definition sc_base :: "stress_client user_cb" where
  "sc_base = closing_user_cb sc_on_close (\<lambda>_ s. s)"

text \<open>\<open>n\<close> is the length drawn; each character is computed from its value, which is that of \<open>A\<close>.\<close>

definition random_message :: "nat \<Rightarrow> byte list" where
  "random_message n = map (\<lambda>c. 65 + c mod 26) (replicate n 65)"

definition sc_send_random :: "nat \<Rightarrow> stress_client cw \<Rightarrow> stress_client cw result" where
  "sc_send_random n w =
     (if c_state w \<noteq> kConnected then Inr w
      else andthen (send sc_base (Some (random_message n)) w) (\<lambda>w1.
        Inr (with_app (\<lambda>s. s\<lparr>sc_scheduled := sc_scheduled s + 1\<rparr>) w1)))"

definition sc_on_message :: "stress_client cw \<Rightarrow> stress_client cw result" where
  "sc_on_message w = consume (with_app (\<lambda>s. s\<lparr>sc_messages := sc_messages s + 1\<rparr>) w)"

definition sc_on_connected :: "nat \<Rightarrow> stress_client cw \<Rightarrow> stress_client cw result" where
  "sc_on_connected n w = sc_send_random n (install_callbacks (with_app (\<lambda>s. s\<lparr>sc_connected := sc_connected s + 1\<rparr>) w))"

text \<open>The closure a detached thread posts after 100 milliseconds.\<close>

definition sc_resend :: "nat \<Rightarrow> stress_client cw \<Rightarrow> stress_client cw result" where
  "sc_resend n w = sc_send_random n (with_app (\<lambda>s. s\<lparr>sc_scheduled := sc_scheduled s - 1\<rparr>) w)"

lemma random_message_constant: "random_message n = replicate n 78"
  by (induction n) (simp_all add: random_message_def)

text \<open>
  A connection of the stress client: while it is live, one resend stays scheduled, and the output
  is one character repeated.
\<close>

lemma resend_keeps_going:
  assumes inv: "conn_inv w" and st: "live w" and room: "has_room (random_message n) w" and n: "0 < n" "0 < sc_scheduled (app w)"
  shows "\<exists>w'. sc_resend n w = Inr w' \<and> conn_inv w' \<and> sc_scheduled (app w') = sc_scheduled (app w) \<and>
           owed_cells w' = owed_cells w @ replicate n (Some 78)"
proof -
  let ?v = "with_app (\<lambda>s. s\<lparr>sc_scheduled := sc_scheduled s - 1\<rparr>) w"
  let ?I = "\<lambda>s (_ :: bool) l. snd (stream l) = owed_cells w @ replicate n (Some 78) \<and> sc_scheduled s = sc_scheduled (app w) - 1"
  note A = alike_inv [OF alike_with_app [of w "\<lambda>s. s\<lparr>sc_scheduled := sc_scheduled s - 1\<rparr>"]]
    and C = alike_cells [OF alike_with_app [of w "\<lambda>s. s\<lparr>sc_scheduled := sc_scheduled s - 1\<rparr>"]]
  have P: "closing_program sc_base ?I sc_on_close (\<lambda>_ s. s)"
    by unfold_locales (auto simp: sc_base_def sc_on_close_def owed_inert owed_close)
  have "conn_inv ?v" "live ?v" "has_room (random_message n) ?v" using A C inv st room by (simp_all add: has_room_def)
  moreover have "?I (app ?v) (live ?v) (log ?v @ [Ev_queued (random_message n)])" "random_message n \<noteq> []"
    using n(1) by (simp_all add: stream_step_owed owed_cells_def random_message_constant)
  ultimately obtain w1 where "send sc_base (Some (random_message n)) ?v = Inr w1" "conn_inv w1" "?I (app w1) (live w1) (log w1)"
    using closing_program.send_keeps [OF P, of ?v "random_message n"] by auto
  moreover note alike_inv(2) [OF alike_with_app [of w1 "\<lambda>s. s\<lparr>sc_scheduled := sc_scheduled s + 1\<rparr>"]]
  ultimately show ?thesis using st n(2) by (auto simp: sc_resend_def sc_send_random_def owed_cells_def)
qed

section \<open>Opening the connections\<close>

definition sc_cb :: "nat \<Rightarrow> stress_client user_cb" where
  "sc_cb n = sc_base\<lparr>u_message := sc_on_message, u_connected := sc_on_connected n\<rparr>"

text \<open>
  The loop of \<open>start()\<close>: for each connection what the kernel answers to the attempt and the length of
  the first message. The objects share the poll; each attempt runs on its own object.
\<close>

fun sc_start :: "(connect_os \<times> nat) list \<Rightarrow> string \<Rightarrow> uint16 \<Rightarrow> stress_client cw \<Rightarrow> (conn list \<times> stress_client cw) result" where
  "sc_start [] addr port w = Inr ([], w)"
| "sc_start ((os, n) # rest) addr port w =
     andthen (Conn_connect (sc_cb n) addr port True True (renew_conn (w\<lparr>conn_os := os\<rparr>))) (\<lambda>v.
     andthen (sc_start rest addr port v) (\<lambda>(conns, x). Inr (conn.truncate v # conns, x)))"

definition env_ok :: "'a cw \<Rightarrow> bool" where
  "env_ok w \<longleftrightarrow> in_poll w \<and> epoll_ok (poller w) \<and> incoming (recvs w) \<le> 2 ^ 59 \<and> prefix (sent_cells w) (owed_cells w)"

text \<open>A step of the environment that concerns the descriptor \<open>h\<close> only.\<close>

definition beside :: "fd \<Rightarrow> 'a cw \<Rightarrow> 'a cw \<Rightarrow> bool" where
  "beside h w w' \<longleftrightarrow> env_ok w' \<and> epoll_touches h (poller w) (poller w') \<and> recvs w' = recvs w \<and> pton w' = pton w \<and>
     (\<exists>es. log w' = log w @ es \<and> list_all neutral es)"

lemma renew_conn_seen: "renew_conn w = seen_by (Conn_new invalid_socket) w"
  by (simp add: renew_conn_def seen_by_def)

lemma chan_ok_beside:
  assumes "epoll_chan_ok p ch" and "epoll_touches h p p'" and "epoll_ok p'" and "ch_handle ch \<noteq> h"
  shows "epoll_chan_ok p' ch"
  using assms by (simp add: chan_ok_def epoll_synced_def epoll_watched_def epoll_touches_def)

text \<open>An object keeps its invariant while others act on their own descriptors.\<close>

lemma conn_inv_beside:
  assumes inv: "conn_inv (seen_by c w)" and b: "beside h w w'" and h: "c_handle c \<noteq> h"
  shows "conn_inv (seen_by c w')"
proof -
  let ?w = "seen_by c w" and ?w' = "seen_by c w'"
  have cells: "sent_cells ?w' = sent_cells ?w" "owed_cells ?w' = owed_cells ?w" "out_cells ?w' = out_cells ?w" "in_cells ?w' = in_cells ?w"
    using b by (auto simp: beside_def sent_cells_def owed_cells_def stream_neutral out_cells_def in_cells_def)
  have chan: "open_channel ?w' ch" if "open_channel ?w ch" for ch
    using that chan_ok_beside [of "poller w" ch h "poller w'"] b h cells by (simp add: open_channel_def beside_def env_ok_def)
  have up: "is_up ?w' = is_up ?w" by (simp add: is_up_def)
  show ?thesis using inv chan b up cells
    by (auto simp: conn_inv_def conn_wf_def bufs_ok_def chan_inv_def stream_inv_def beside_def env_ok_def split: option.splits if_splits)
qed

text \<open>What has become of the attempt with the answers \<open>os\<close>.\<close>

definition opened :: "string \<Rightarrow> uint16 \<Rightarrow> 'a cw \<Rightarrow> connect_os \<Rightarrow> conn \<Rightarrow> bool" where
  "opened addr port w os c \<longleftrightarrow>
     (if fails_at_once addr port (w\<lparr>conn_os := os\<rparr>) then c_state c = kDisconnected
      else c_state c = kConnecting \<and> c_handle c = co_socket os \<and> conn_inv (seen_by c w) \<and>
        epoll_watched (poller w) (co_socket os) = kWrite)"

lemma opened_beside:
  assumes "opened addr port w os c" and "beside h w w'" and "co_socket os \<noteq> h"
  shows "opened addr port w' os c"
proof -
  have "fails_at_once addr port (w'\<lparr>conn_os := os\<rparr>) = fails_at_once addr port (w\<lparr>conn_os := os\<rparr>)"
    using assms(2) by (simp add: fails_at_once_def beside_def)
  moreover have "epoll_watched (poller w') (co_socket os) = epoll_watched (poller w) (co_socket os)"
    using assms(2,3) by (simp add: epoll_watched_def beside_def epoll_touches_def)
  ultimately show ?thesis using assms conn_inv_beside [OF _ assms(2), of c] by (auto simp: opened_def)
qed

lemma alike_beside:
  assumes "alike w v" and "env_ok w" and "pton v = pton w"
  shows "beside h w v"
  using assms alike_cells(1,2) [OF assms(1)] by (auto simp: beside_def env_ok_def alike_def epoll_touches_def)

lemma sc_attempt:
  assumes w: "env_ok w" and h: "fresh_handle (poller w) (co_socket os)"
  shows "\<exists>v. Conn_connect (sc_cb n) addr port True True (renew_conn (w\<lparr>conn_os := os\<rparr>)) = Inr v \<and>
     beside (co_socket os) w v \<and> app v = app w \<and> opened addr port v os (conn.truncate v)"
proof -
  let ?v = "(seen_by (Conn_new invalid_socket) (w\<lparr>conn_os := os\<rparr>))\<lparr>cleanup_done := False, has_connected_func := True,
    has_connect_error := True, c_addr := take 45 addr, c_port := port\<rparr>"
  have run: "Conn_connect (sc_cb n) addr port True True (renew_conn (w\<lparr>conn_os := os\<rparr>)) = start_connect_in_poll (sc_cb n) addr port ?v"
    using w by (simp add: Conn_connect_def renew_conn_seen Conn_new_def env_ok_def)
  have inv: "conn_inv ?v" "c_state ?v = kDisconnected" "out_cells ?v = []" "pton ?v = pton w" "log ?v = log w" "recvs ?v = recvs w"
    "poller ?v = poller w" "in_poll ?v" using w by (simp_all add: cw_defs Conn_new_def env_ok_def)
  have fl: "fails_at_once addr port ?v = fails_at_once addr port (w\<lparr>conn_os := os\<rparr>)" by (simp add: fails_at_once_def)
  show ?thesis
  proof (cases "fails_at_once addr port ?v")
    case True
    from attempt_reports [OF inv(8) this, of "sc_cb n"] obtain err x where
      x: "start_connect_in_poll (sc_cb n) addr port ?v = connect_error (sc_cb n) err x" "pton x = pton w" "has_connect_error x"
         "app x = app w" "alike ?v x" by auto
    let ?x = "emit (Ev_connect_error err) x"
    have nt: "neutral (Ev_connect_error err)" by simp
    have "connect_error (sc_cb n) err x = Inr ?x" using x(3)
      by (simp add: connect_error_def call_if_def sc_cb_def sc_base_def)
    moreover have "alike ?v ?x" by (rule alike_trans [OF x(5) alike_emit [OF nt]])
    moreover have "env_ok ?v" using w by (simp add: env_ok_def sent_cells_def owed_cells_def)
    ultimately show ?thesis using run x(1,2,4) True fl alike_beside [of ?v ?x "co_socket os"] inv(2)
      by (intro exI [of _ ?x]) (auto simp: opened_def beside_def alike_def fails_at_once_def)
  next
    case False
    with attempt_starts [OF inv(1-2) _ inv(3) False, of "sc_cb n"] h obtain v tr where
      v: "start_connect_in_poll (sc_cb n) addr port ?v = Inr v" "conn_inv v" "c_state v = kConnecting" "c_handle v = co_socket os"
         "app v = app w" "epoll_watched (poller v) (co_socket os) = kWrite" "epoll_touches (co_socket os) (poller w) (poller v)"
         "recvs v = recvs w" "pton v = pton w" "log v = log w @ map Ev_sys tr" by auto
    have "env_ok v" using v(2) by (simp add: env_ok_def conn_inv_def conn_wf_def bufs_ok_def stream_inv_def)
    then have "beside (co_socket os) w v" using v(7-10) by (auto simp: beside_def)
    moreover have "\<not> fails_at_once addr port (v\<lparr>conn_os := os\<rparr>)" using False fl v(9) by (simp add: fails_at_once_def)
    ultimately show ?thesis using run v by (intro exI [of _ v]) (simp add: opened_def)
  qed
qed

lemma fresh_beside: "fresh_handle (poller w) f \<Longrightarrow> beside h w w' \<Longrightarrow> f \<noteq> h \<Longrightarrow> fresh_handle (poller w') f"
  by (simp add: fresh_handle_def beside_def epoll_touches_def)

text \<open>
  stress_client opens all its connections. With a poller that knows none of the new descriptors,
  which are pairwise different, every attempt is made, whatever became of the ones before it;
  afterwards every connection whose attempt did not fail at once is connecting on its own
  descriptor, is in order, and is watched for writing. Connections on other descriptors stay as
  they are.
\<close>

lemma sc_start_opens:
  assumes "env_ok w" and "distinct (map (co_socket \<circ> fst) oss)" and "\<forall>os \<in> fst ` set oss. fresh_handle (poller w) (co_socket os)"
  shows "\<exists>cs w'. sc_start oss addr port w = Inr (cs, w') \<and> app w' = app w \<and> list_all2 (opened addr port w') (map fst oss) cs \<and>
     (\<forall>os c. co_socket os \<notin> (co_socket \<circ> fst) ` set oss \<longrightarrow> opened addr port w os c \<longrightarrow> opened addr port w' os c)"
  using assms
proof (induction oss arbitrary: w)
  case (Cons a rest)
  obtain os n where a: "a = (os, n)" by fastforce
  from sc_attempt [OF Cons.prems(1), of os n addr port] Cons.prems(3) a obtain v where
    v: "Conn_connect (sc_cb n) addr port True True (renew_conn (w\<lparr>conn_os := os\<rparr>)) = Inr v" "beside (co_socket os) w v"
       "app v = app w" "opened addr port v os (conn.truncate v)" by auto
  have "env_ok v" using v(2) by (simp add: beside_def)
  moreover have new: "co_socket os \<notin> (co_socket \<circ> fst) ` set rest" "distinct (map (co_socket \<circ> fst) rest)"
    using Cons.prems(2) a by (simp_all add: comp_def)
  moreover have "\<forall>x \<in> fst ` set rest. fresh_handle (poller v) (co_socket x)"
    using Cons.prems(3) new(1) fresh_beside [OF _ v(2)] by (force simp: image_iff)
  ultimately obtain cs w' where
    IH: "sc_start rest addr port v = Inr (cs, w')" "app w' = app v" "list_all2 (opened addr port w') (map fst rest) cs"
        "\<And>x c. co_socket x \<notin> (co_socket \<circ> fst) ` set rest \<Longrightarrow> opened addr port v x c \<Longrightarrow> opened addr port w' x c"
    using Cons.IH [of v] by blast
  have "opened addr port w' os (conn.truncate v)" by (rule IH(4) [OF new(1) v(4)])
  moreover have "opened addr port w' x c" if "co_socket x \<notin> (co_socket \<circ> fst) ` set (a # rest)" "opened addr port w x c" for x c
    using IH(4) opened_beside [OF that(2) v(2)] that(1) a by auto
  ultimately show ?case using a v(1,3) IH(1-3) by auto
qed simp


section \<open>The end of stress_client\<close>

text \<open>
  \<open>main\<close> lets a thread run the poll, sleeps, calls \<open>stop()\<close> and joins the thread. \<open>stop()\<close> sets the flag the
  statistics thread looks at and joins that one. The detached threads that schedule the next
  messages post closures to the poll. The poll is that of theory Event_Poll, except that nothing
  here shuts it down.
\<close>

datatype stress_pc = Sleeping | Joining_stats | Joining_poll | Returned

record stress_main =
  sm_pc :: stress_pc
  sm_shutdown :: bool
  sm_stats_alive :: bool
  sm_poll :: "nat event_poll"

definition stress_main_start :: stress_main where
  "stress_main_start = \<lparr>sm_pc = Sleeping, sm_shutdown = False, sm_stats_alive = True, sm_poll = EventPoll_new\<rparr>"

inductive stress_main_step :: "stress_main \<Rightarrow> stress_main \<Rightarrow> bool" where
  stop: "sm_pc s = Sleeping \<Longrightarrow> stress_main_step s (s\<lparr>sm_pc := Joining_stats, sm_shutdown := True\<rparr>)"
| stats_joined: "sm_pc s = Joining_stats \<Longrightarrow> \<not> sm_stats_alive s \<Longrightarrow> stress_main_step s (s\<lparr>sm_pc := Joining_poll\<rparr>)"
| poll_joined: "sm_pc s = Joining_poll \<Longrightarrow> pc (sm_poll s) = Stopped \<Longrightarrow> stress_main_step s (s\<lparr>sm_pc := Returned\<rparr>)"
| stats_end: "sm_stats_alive s \<Longrightarrow> sm_shutdown s \<Longrightarrow> stress_main_step s (s\<lparr>sm_stats_alive := False\<rparr>)"
| loop: "thread_step (sm_poll s) p \<Longrightarrow> stress_main_step s (s\<lparr>sm_poll := p\<rparr>)"
| schedule: "post_step (sm_poll s) p \<Longrightarrow> shut p = shut (sm_poll s) \<Longrightarrow> stress_main_step s (s\<lparr>sm_poll := p\<rparr>)"

definition stress_main_inv :: "stress_main \<Rightarrow> bool" where
  "stress_main_inv s \<longleftrightarrow> sm_pc s \<noteq> Returned \<and> pc (sm_poll s) \<noteq> Stopped \<and> \<not> shut (sm_poll s) \<and>
     (sm_pc s = Joining_stats \<longrightarrow> sm_shutdown s)"

lemma post_keeps_pc: "post_step p p' \<Longrightarrow> pc p' = pc p"
  by (erule post_step.cases) (simp_all add: notify_wakeup_def push_task_def)

lemma open_loop_step: "thread_step p p' \<Longrightarrow> \<not> shut p \<Longrightarrow> \<not> shut p' \<and> pc p' \<noteq> Stopped"
  by (erule thread_step.cases) (simp_all add: handle_wakeup_def swap_tasks_def)

lemma stress_main_step_inv: "stress_main_step s s' \<Longrightarrow> stress_main_inv s \<Longrightarrow> stress_main_inv s'"
  by (erule stress_main_step.cases) (auto simp: stress_main_inv_def dest: post_keeps_pc open_loop_step)

lemma stress_main_reachable: "stress_main_step\<^sup>*\<^sup>* stress_main_start s \<Longrightarrow> stress_main_inv s"
proof (induction rule: rtranclp_induct)
  case base
  then show ?case by (simp add: stress_main_inv_def stress_main_start_def EventPoll_new_def)
next
  case (step s s')
  then show ?case using stress_main_step_inv by blast
qed

text \<open>From each state the main thread can get to the point where it waits for the poll's thread.\<close>

lemma stress_stops_joining:
  assumes "sm_pc s = Joining_stats" and "sm_shutdown s"
  shows "\<exists>s'. stress_main_step\<^sup>*\<^sup>* s s' \<and> sm_pc s' = Joining_poll"
proof -
  let ?v = "s\<lparr>sm_stats_alive := False\<rparr>"
  have "stress_main_step\<^sup>*\<^sup>* s ?v"
  proof (cases "sm_stats_alive s")
    case True
    from stress_main_step.stats_end [OF this assms(2)] show ?thesis by (rule r_into_rtranclp)
  next
    case False
    then have "?v = s" by (intro stress_main.equality) simp_all
    then show ?thesis by simp
  qed
  moreover have "stress_main_step ?v (?v\<lparr>sm_pc := Joining_poll\<rparr>)" using assms by (intro stress_main_step.stats_joined) simp_all
  ultimately show ?thesis by (intro exI [of _ "?v\<lparr>sm_pc := Joining_poll\<rparr>"]) (simp add: rtranclp.rtrancl_into_rtrancl)
qed

lemma stress_stops:
  assumes "stress_main_inv s"
  shows "\<exists>s'. stress_main_step\<^sup>*\<^sup>* s s' \<and> sm_pc s' = Joining_poll"
proof (cases "sm_pc s")
  case Sleeping
  let ?v = "s\<lparr>sm_pc := Joining_stats, sm_shutdown := True\<rparr>"
  have "stress_main_step s ?v" using Sleeping by (rule stress_main_step.stop)
  moreover from stress_stops_joining [of ?v] obtain s' where "stress_main_step\<^sup>*\<^sup>* ?v s'" "sm_pc s' = Joining_poll" by auto
  ultimately show ?thesis by (intro exI [of _ s']) (simp add: converse_rtranclp_into_rtranclp)
next
  case Joining_stats
  then show ?thesis using assms stress_stops_joining by (simp add: stress_main_inv_def)
qed (use assms in \<open>auto simp: stress_main_inv_def\<close>)

text \<open>
  stress_client never ends. Its \<open>stop()\<close> does not shut the poll down, so the thread that runs the poll
  never leaves the loop: in whatever way the threads interleave, \<open>main\<close> can always get past \<open>stop()\<close> to
  where it joins that thread, but the loop never ends and \<open>main\<close> never returns.
\<close>

lemma stress_client_never_exits:
  assumes "stress_main_step\<^sup>*\<^sup>* stress_main_start s"
  shows "sm_pc s \<noteq> Returned \<and> pc (sm_poll s) \<noteq> Stopped \<and> (\<exists>s'. stress_main_step\<^sup>*\<^sup>* s s' \<and> sm_pc s' = Joining_poll)"
  using stress_main_reachable [OF assms] stress_stops by (simp add: stress_main_inv_def)

lemma stress_client_never_exits_instance:
  "\<exists>s. stress_main_step\<^sup>*\<^sup>* stress_main_start s \<and> sm_pc s = Joining_poll"
  using stress_client_never_exits [of stress_main_start] by simp

section \<open>The stress server\<close>



















end
