(* ===== verification/App_Links.thy ===== *)
theory App_Links
  imports App_Clients
begin

text \<open>
  A client program and a server program at the two ends of one TCP connection: echo_client with
  echo_server, file_client with file_server, http_client with http_server (src/examples).

  Each end is a connection of its own. Besides what each end does by itself, the network offers
  bytes to an end. Of the network only what TCP promises is used: the bytes an end has been
  offered since the start are, in order, bytes the other end has handed to its socket. How many
  there are, in which pieces they come and when they are reported is open, and offered bytes that
  were not received yet may be lost again, as after a reset.
\<close>

section \<open>Two ends\<close>

definition in_transit_ok :: "recv_answer list \<Rightarrow> 'a cw \<Rightarrow> 'b cw \<Rightarrow> bool" where
  "in_transit_ok rs w peer \<longleftrightarrow> incoming rs \<le> 2 ^ 59 \<and> prefix (heard (log w) @ map Some (recv_bytes rs)) (sent_cells peer)"

inductive link_step :: "'a user_cb \<Rightarrow> ('a \<Rightarrow> 'a \<Rightarrow> bool) \<Rightarrow> 'b user_cb \<Rightarrow> ('b \<Rightarrow> 'b \<Rightarrow> bool) \<Rightarrow>
    'a cw \<times> 'b cw \<Rightarrow> 'a cw result \<times> 'b cw result \<Rightarrow> bool" for uc Ec us Es where
  at_client: "own_step uc Ec c r \<Longrightarrow> link_step uc Ec us Es (c, s) (r, Inr s)"
| at_server: "own_step us Es s r \<Longrightarrow> link_step uc Ec us Es (c, s) (Inr c, r)"
| to_client: "in_transit_ok rs c s \<Longrightarrow> link_step uc Ec us Es (c, s) (Inr (kernel_offers rs ss e a t c), Inr s)"
| to_server: "in_transit_ok rs s c \<Longrightarrow> link_step uc Ec us Es (c, s) (Inr c, Inr (kernel_offers rs ss e a t s))"

inductive link_reachable :: "'a user_cb \<Rightarrow> ('a \<Rightarrow> 'a \<Rightarrow> bool) \<Rightarrow> 'b user_cb \<Rightarrow> ('b \<Rightarrow> 'b \<Rightarrow> bool) \<Rightarrow>
    'a cw \<times> 'b cw \<Rightarrow> 'a cw \<times> 'b cw \<Rightarrow> bool" for uc Ec us Es p0 where
  linked: "link_reachable uc Ec us Es p0 p0"
| onwards: "link_reachable uc Ec us Es p0 p \<Longrightarrow> link_step uc Ec us Es p (Inr c, Inr s) \<Longrightarrow> link_reachable uc Ec us Es p0 (c, s)"

text \<open>What each end was given is a part of what the other end sent.\<close>

definition link_inv :: "('a \<Rightarrow> bool \<Rightarrow> conn_event list \<Rightarrow> bool) \<Rightarrow> ('b \<Rightarrow> bool \<Rightarrow> conn_event list \<Rightarrow> bool) \<Rightarrow>
    'a cw \<times> 'b cw \<Rightarrow> bool" where
  "link_inv Ic Is p \<longleftrightarrow> session Ic (fst p) \<and> session Is (snd p) \<and>
     prefix (given (fst p)) (sent_cells (snd p)) \<and> prefix (given (snd p)) (sent_cells (fst p))"

lemma link_invD:
  assumes "link_inv Ic Is (c, s)"
  shows "session Ic c" and "session Is s" and "prefix (heard (log c)) (sent_cells s)" and "prefix (heard (log s)) (sent_cells c)"
  using assms by (auto simp: link_inv_def given_def dest: append_prefixD)

lemma offered_given:
  "given (kernel_offers rs ss e a t w) = heard (log w) @ map Some (recv_bytes rs)"
  "sent_cells (kernel_offers rs ss e a t w) = sent_cells w"
  by (simp_all add: given_def kernel_offers_def sent_cells_def)

lemma begun_given: "begun w w1 \<Longrightarrow> recv_bytes (recvs w) = [] \<Longrightarrow> given w1 = []"
  by (simp add: begun_def given_def heard_def)

locale linked_programs =
  client: message_program uc Ic closec errorc Ec + server: message_program us Is closes errors Es
  for uc :: "'a user_cb" and Ic closec errorc Ec and us :: "'b user_cb" and Is closes errors Es
begin

lemma link_keeps:
  assumes inv: "link_inv Ic Is p" and "link_step uc Ec us Es p r"
  shows "\<exists>c s. r = (Inr c, Inr s) \<and> link_inv Ic Is (c, s)"
proof -
  have w: "session Ic (fst p)" "session Is (snd p)" "in_cells (fst p) = []" "in_cells (snd p) = []"
    using inv by (simp_all add: link_inv_def session_def kept_def)
  from assms(2) show ?thesis
  proof cases
    case (at_client c r' s)
    with client.session_own_step [of c r'] w(1) inv show ?thesis
      by (auto simp: link_inv_def conserved_def intro: prefix_order.trans)
  next
    case (at_server s r' c)
    with server.session_own_step [of s r'] w(2) inv show ?thesis
      by (auto simp: link_inv_def conserved_def intro: prefix_order.trans)
  next
    case (to_client rs c s ss e a t)
    with client.session_offer [of c rs] w(1,3) inv show ?thesis by (auto simp: link_inv_def in_transit_ok_def offered_given)
  next
    case (to_server rs s c ss e a t)
    with server.session_offer [of s rs] w(2,4) inv show ?thesis by (auto simp: link_inv_def in_transit_ok_def offered_given)
  qed
qed

lemma link_stays:
  assumes "link_inv Ic Is p0" and "link_reachable uc Ec us Es p0 p"
  shows "link_inv Ic Is p"
  using assms(2)
proof induction
  case (onwards p c s)
  then show ?case using link_keeps [of p "(Inr c, Inr s)"] by simp
qed (rule assms(1))

lemma link_never_fails:
  assumes "link_inv Ic Is p0" and "link_reachable uc Ec us Es p0 p" and "link_step uc Ec us Es p r"
  shows "\<exists>c s. r = (Inr c, Inr s)"
  using link_keeps [OF link_stays [OF assms(1,2)] assms(3)] by blast

end

interpretation echo_link: linked_programs ec_cb ec_inv ec_stop ec_stop "(=)"
  echo_cb "reply_inv [] (\<lambda>m. m)" echo_on_close "\<lambda>_ s. s" "\<lambda>_ _. True"
  by (intro linked_programs.intro ec.message_program_axioms echo.message_program_axioms)

section \<open>The echo client and the echo server\<close>

abbreviation echo_reachable :: "echo_client cw \<times> echo_server cw \<Rightarrow> echo_client cw \<times> echo_server cw \<Rightarrow> bool" where
  "echo_reachable \<equiv> link_reachable ec_cb (=) echo_cb (\<lambda>_ _. True)"

text \<open>The chain of streams from what the client hears back to what it has to send.\<close>

lemma echo_chain:
  assumes "link_inv ec_inv (reply_inv [] (\<lambda>m. m)) (c, s)"
  shows "prefix (heard (log c)) (sent_cells s)" and "prefix (sent_cells s) (heard (log s))"
    and "prefix (heard (log s)) (sent_cells c)"
    and "prefix (sent_cells c) (map Some (concat (map ec_message [1..ec_sent (app c)])))"
    and "is_up s \<Longrightarrow> sent_cells s @ out_cells s = heard (log s)"
    and "is_up c \<Longrightarrow> sent_cells c @ out_cells c = map Some (concat (map ec_message [1..ec_sent (app c)]))"
proof -
  note L = link_invD [OF assms]
  note C = session_streams [OF L(1)] and S = session_streams [OF L(2)]
  have o: "owed_cells c = map Some (concat (map ec_message [1..ec_sent (app c)]))" "owed_cells s = heard (log s)"
    using C(4) reply_inv_owed [OF S(4)] by (simp_all add: ec_inv_def owed_cells_def)
  show "prefix (heard (log c)) (sent_cells s)" "prefix (heard (log s)) (sent_cells c)" by (rule L(3), rule L(4))
  show "prefix (sent_cells s) (heard (log s))" using S(1) o(2) by simp
  show "prefix (sent_cells c) (map Some (concat (map ec_message [1..ec_sent (app c)])))" using C(1) o(1) by simp
  show "is_up s \<Longrightarrow> sent_cells s @ out_cells s = heard (log s)" using S(2) o(2) by simp
  show "is_up c \<Longrightarrow> sent_cells c @ out_cells c = map Some (concat (map ec_message [1..ec_sent (app c)]))" using C(2) o(1) by simp
qed

text \<open>Both ends are up, nothing waits to be written and everything written has been heard.\<close>

definition at_rest :: "'a cw \<Rightarrow> 'b cw \<Rightarrow> bool" where
  "at_rest c s \<longleftrightarrow> is_up c \<and> is_up s \<and> out_cells c = [] \<and> out_cells s = [] \<and>
     heard (log s) = sent_cells c \<and> heard (log c) = sent_cells s"

lemma echo_linked:
  assumes c: "dialing wc" "0 \<le> fst (so_answer wc)" "snd (so_answer wc) = 0"
      "app wc = (echo_client_new n)\<lparr>ec_has_conn := True\<rparr>" "0 < n" "n < 2 ^ 31"
    and s: "accepted ws" and none: "recv_bytes (recvs wc) = []" "recv_bytes (recvs ws) = []"
  shows "\<exists>c s. handle_connect_event ec_cb wc = Inr c \<and> start_accepted (Some echo_on_connection) ws = Inr s \<and>
     link_inv ec_inv (reply_inv [] (\<lambda>m. m)) (c, s)"
proof -
  from ec_connects [OF c] obtain c where 1: "handle_connect_event ec_cb wc = Inr c" "session ec_inv c" "begun wc c" by blast
  from echo_accepts [OF s] obtain s where
    2: "start_accepted (Some echo_on_connection) ws = Inr s" "session (reply_inv [] (\<lambda>m. m)) s" "begun ws s" by blast
  have "link_inv ec_inv (reply_inv [] (\<lambda>m. m)) (c, s)"
    using 1(2) 2(2) begun_given [OF 1(3) none(1)] begun_given [OF 2(3) none(2)] by (simp add: link_inv_def)
  with 1(1) 2(1) show ?thesis by blast
qed

text \<open>
  C13. Echo end to end. echo_client connects to echo_server; afterwards the two ends and the network
  act in any order, and the network cuts the streams into pieces, delays and reports them as it
  likes. No call at either end fails; everything the client hears is, in order, part of the
  numbered messages it sent; and whenever the connection comes to rest, it has heard exactly these
  messages back.
\<close>

theorem echo_roundtrip:
  assumes "dialing wc" "0 \<le> fst (so_answer wc)" "snd (so_answer wc) = 0"
      "app wc = (echo_client_new n)\<lparr>ec_has_conn := True\<rparr>" "0 < n" "n < 2 ^ 31"
    and "accepted ws" and "recv_bytes (recvs wc) = []" "recv_bytes (recvs ws) = []"
  shows "\<exists>c s. handle_connect_event ec_cb wc = Inr c \<and> start_accepted (Some echo_on_connection) ws = Inr s \<and>
     (\<forall>c' s'. echo_reachable (c, s) (c', s') \<longrightarrow>
        prefix (heard (log c')) (map Some (concat (map ec_message [1..ec_sent (app c')]))) \<and>
        (at_rest c' s' \<longrightarrow> heard (log c') = map Some (concat (map ec_message [1..ec_sent (app c')]))) \<and>
        (\<forall>r. link_step ec_cb (=) echo_cb (\<lambda>_ _. True) (c', s') r \<longrightarrow> (\<exists>c'' s''. r = (Inr c'', Inr s''))))"
proof -
  from echo_linked [OF assms] obtain c s where
    0: "handle_connect_event ec_cb wc = Inr c" "start_accepted (Some echo_on_connection) ws = Inr s"
       "link_inv ec_inv (reply_inv [] (\<lambda>m. m)) (c, s)" by blast
  have "prefix (heard (log c')) (map Some (concat (map ec_message [1..ec_sent (app c')]))) \<and>
      (at_rest c' s' \<longrightarrow> heard (log c') = map Some (concat (map ec_message [1..ec_sent (app c')])))"
    if "echo_reachable (c, s) (c', s')" for c' s'
  proof -
    note E = echo_chain [OF echo_link.link_stays [OF 0(3) that]]
    have "prefix (heard (log c')) (map Some (concat (map ec_message [1..ec_sent (app c')])))"
      using prefix_order.trans [OF prefix_order.trans [OF E(1,2)] prefix_order.trans [OF E(3,4)]] .
    then show ?thesis using E(5,6) by (auto simp: at_rest_def)
  qed
  with 0 echo_link.link_never_fails [OF 0(3)] show ?thesis by blast
qed

theorem echo_roundtrip_witness:
  "\<exists>c s. handle_connect_event ec_cb (dialing_with ((echo_client_new 5)\<lparr>ec_has_conn := True\<rparr>)) = Inr c \<and>
     start_accepted (Some echo_on_connection) ((fresh_with \<lparr>open_count = 0, message_count = 0\<rparr>)\<lparr>recvs := []\<rparr>) = Inr s \<and>
     prefix (heard (log c)) (map Some (concat (map ec_message [1..ec_sent (app c)])))"
proof -
  let ?c = "dialing_with ((echo_client_new 5)\<lparr>ec_has_conn := True\<rparr>)"
  let ?s = "(fresh_with \<lparr>open_count = 0, message_count = 0\<rparr>)\<lparr>recvs := []\<rparr>"
  have "dialing ?c" "recv_bytes (recvs ?c) = []" by (rule dialing_with_dialing, simp add: dialing_with_def conn.defs cw.defs)
  moreover have "accepted ?s" "recv_bytes (recvs ?s) = []"
    using fresh_with_accepted [of "\<lparr>open_count = 0, message_count = 0\<rparr>"] by (simp_all add: accepted_def queued_work_def)
  ultimately obtain c s where
    "handle_connect_event ec_cb ?c = Inr c" "start_accepted (Some echo_on_connection) ?s = Inr s"
    "echo_reachable (c, s) (c, s) \<longrightarrow> prefix (heard (log c)) (map Some (concat (map ec_message [1..ec_sent (app c)])))"
    using echo_roundtrip [of ?c 5 ?s] by (auto simp: dialing_with_fields)
  then show ?thesis using link_reachable.linked [of ec_cb "(=)" echo_cb "\<lambda>_ _. True" "(c, s)"] by blast
qed

section \<open>Requests and responses\<close>

interpretation http_link: linked_programs http_client_cb "rc_inv request" rc_on_close rc_on_error elsewhere_ok
  http_cb "reply_once [] http_response" "\<lambda>_ s. s" "\<lambda>_ s. s" "\<lambda>_ _. True" for request
  by (intro linked_programs.intro http_client_program http.message_program_axioms)


text \<open>
  What a client that sends one request hears from a server that answers once with \<open>r\<close>: the server
  was given a part of the request, and the client hears a part of the answer to just that part.
\<close>

definition exchanged :: "byte list \<Rightarrow> (byte list \<Rightarrow> byte list) \<Rightarrow> 'a cw \<Rightarrow> 'b cw \<Rightarrow> bool" where
  "exchanged request r c s \<longleftrightarrow> length (messages (log c)) \<le> 1 \<and>
     (if messages (log s) = [] then heard (log c) = []
      else \<exists>part. messages (log s) = [map Some part] \<and> prefix part request \<and> prefix (heard (log c)) (map Some (r part)))"

lemma cells_prefix: "prefix m (map Some xs) \<Longrightarrow> m = map Some (map the m) \<and> prefix (map the m) xs"
  by (auto simp: prefix_def map_eq_append_conv comp_def)

lemma link_exchanged:
  assumes "link_inv (rc_inv request) (reply_once [] r) (c, s)"
  shows "exchanged request r c s"
proof -
  note L = link_invD [OF assms]
  have C: "answers_once request (\<lambda>_. []) c" by (rule rc_inv_answers [OF L(1)])
  have S: "answers_once [] r s" by (rule reply_once_answers [OF L(2)])
  have sent: "prefix (sent_cells c) (map Some request)" using C by (auto simp: answers_once_def split: if_splits)
  have once: "length (messages (log c)) \<le> 1" using C by (auto simp: answers_once_def split: if_splits)
  show ?thesis
  proof (cases "messages (log s) = []")
    case True
    then have "sent_cells s = []" using S by (auto simp: answers_once_def)
    then show ?thesis using True L(3) once by (simp add: exchanged_def)
  next
    case False
    then obtain m where m: "messages (log s) = [m]" "prefix (sent_cells s) (map Some (r (map the m)))"
      using S by (auto simp: answers_once_def)
    have "prefix m (map Some request)" using L(4) sent m(1) by (auto simp: heard_def intro: prefix_order.trans)
    from cells_prefix [OF this] m L(3) once show ?thesis
      unfolding exchanged_def by (auto intro!: exI [of _ "map the m"] intro: prefix_order.trans)
  qed
qed


lemma requests_linked:
  assumes c: "session (rc_inv request) c" "begun wc c" and s: "session (reply_once [] r) s" "begun ws s"
    and none: "recv_bytes (recvs wc) = []" "recv_bytes (recvs ws) = []"
  shows "link_inv (rc_inv request) (reply_once [] r) (c, s)"
  using c s begun_given [OF c(2) none(1)] begun_given [OF s(2) none(2)] by (simp add: link_inv_def)



text \<open>The same for http_client and http_server.\<close>

lemma http_exchanged:
  assumes "dialing wc" "0 \<le> fst (so_answer wc)" "snd (so_answer wc) = 0" "rc_has_conn (app wc)"
    and "length (rc_addr (app wc)) \<le> 2 ^ 58"
    and "accepted ws" and "recv_bytes (recvs wc) = []" "recv_bytes (recvs ws) = []"
  shows "\<exists>c s. handle_connect_event http_client_cb wc = Inr c \<and> start_accepted (Some plain_on_connection) ws = Inr s \<and>
     (\<forall>c' s'. link_reachable http_client_cb elsewhere_ok http_cb (\<lambda>_ _. True) (c, s) (c', s') \<longrightarrow>
        exchanged (http_request (rc_addr (app wc))) http_response c' s')"
proof -
  from http_client_connects [OF assms(1-5)] obtain c where
    1: "handle_connect_event http_client_cb wc = Inr c" "session (rc_inv (http_request (rc_addr (app wc)))) c" "begun wc c" by blast
  from once_accepts [OF assms(6), of http_response] obtain s where
    2: "start_accepted (Some plain_on_connection) ws = Inr s" "session (reply_once [] http_response) s" "begun ws s" by blast
  note inv = requests_linked [OF 1(2,3) 2(2,3) assms(7,8)]
  show ?thesis using 1(1) 2(1) link_exchanged [OF http_link.link_stays [OF inv]] by blast
qed

end
