(* ===== verification/Buffer_Types.thy ===== *)
theory Buffer_Types
  imports Buffer
begin

text \<open>
  Programs over several buffers: src/cxpnet/buffer.h as its users see it, with construction, every
  public method and moving. A buffer that has been moved from has no array and must not be used.
  A static check follows which buffers are alive; programs that pass it are safe.
\<close>

section \<open>Programs\<close>

type_synonym buffers = "nat \<Rightarrow> buffer"

datatype buffer_call =
    C_append "byte list"
  | C_reserve size_t
  | C_written size_t
  | C_peek
  | C_read size_t
  | C_read_all
  | C_clear

datatype buffer_cmd =
    New nat size_t
  | New_from nat "byte list"
  | Call nat buffer_call
  | Move_new nat nat
  | Move_assign nat nat

fun buffer_call_run :: "buffer_call \<Rightarrow> buffer \<Rightarrow> buffer result" where
  "buffer_call_run (C_append xs) b = append_bytes b xs"
| "buffer_call_run (C_reserve n) b = ensure_writable_size b n"
| "buffer_call_run (C_written n) b = been_written b n"
| "buffer_call_run C_peek b = andthen (peek b) (\<lambda>_. Inr b)"
| "buffer_call_run (C_read n) b = been_read b n"
| "buffer_call_run C_read_all b = been_read_all b"
| "buffer_call_run C_clear b = Inr (clear b)"

fun buffer_cmd_run :: "buffer_cmd \<Rightarrow> buffers \<Rightarrow> buffers result" where
  "buffer_cmd_run (New i n) st = andthen (Buffer_new n) (\<lambda>b. Inr (st(i := b)))"
| "buffer_cmd_run (New_from i xs) st = andthen (Buffer_from xs) (\<lambda>b. Inr (st(i := b)))"
| "buffer_cmd_run (Call i c) st = andthen (buffer_call_run c (st i)) (\<lambda>b. Inr (st(i := b)))"
| "buffer_cmd_run (Move_new this other) st = Inr (move_construct st this other)"
| "buffer_cmd_run (Move_assign this other) st = Inr (move_assign st this other)"

fun buffer_program_run :: "buffer_cmd list \<Rightarrow> buffers \<Rightarrow> buffers result" where
  "buffer_program_run [] st = Inr st"
| "buffer_program_run (c # cs) st = andthen (buffer_cmd_run c st) (buffer_program_run cs)"

section \<open>The check\<close>

text \<open>
  What a command needs of the buffers that are alive, and which are alive after it. A buffer made
  from no bytes has capacity 0 and cannot grow, so it is ruled out; assigning a buffer to itself
  does nothing.
\<close>

fun allowed :: "nat set \<Rightarrow> buffer_cmd \<Rightarrow> bool" where
  "allowed L (New i n) \<longleftrightarrow> i \<notin> L \<and> n \<le> 2 ^ 61"
| "allowed L (New_from i xs) \<longleftrightarrow> i \<notin> L \<and> xs \<noteq> []"
| "allowed L (Call i c) \<longleftrightarrow> i \<in> L"
| "allowed L (Move_new this other) \<longleftrightarrow> this \<notin> L \<and> other \<in> L"
| "allowed L (Move_assign this other) \<longleftrightarrow> other \<in> L"

fun alive :: "nat set \<Rightarrow> buffer_cmd \<Rightarrow> nat set" where
  "alive L (New i n) = insert i L"
| "alive L (New_from i xs) = insert i L"
| "alive L (Call i c) = L"
| "alive L (Move_new this other) = insert this (L - {other})"
| "alive L (Move_assign this other) = (if this = other then L else insert this (L - {other}))"

fun checked :: "nat set \<Rightarrow> buffer_cmd list \<Rightarrow> bool" where
  "checked L [] \<longleftrightarrow> True"
| "checked L (c # cs) \<longleftrightarrow> allowed L c \<and> checked (alive L c) cs"

text \<open>The bytes a program asks room for.\<close>

fun demand :: "buffer_cmd \<Rightarrow> nat" where
  "demand (New_from i xs) = length xs"
| "demand (Call i (C_append xs)) = length xs"
| "demand (Call i (C_reserve n)) = unat n"
| "demand (Call i (C_written n)) = unat n"
| "demand _ = 0"

definition buffers_ok :: "nat \<Rightarrow> nat set \<Rightarrow> buffers \<Rightarrow> bool" where
  "buffers_ok t L st \<longleftrightarrow> (\<forall>i \<in> L. buf_inv (st i) \<and> length (contents (st i)) \<le> t)"

definition only_ensure :: "failure \<Rightarrow> bool" where
  "only_ensure e \<longleftrightarrow> (\<exists>msg. e = Ensure_failed msg)"

section \<open>Safety\<close>

lemma call_safe:
  assumes inv: "buf_inv b" and len: "length (contents b) \<le> t" and room: "t + demand (Call i c) \<le> 2 ^ 60"
  shows "case buffer_call_run c b of Inl e \<Rightarrow> only_ensure e
     | Inr b' \<Rightarrow> buf_inv b' \<and> length (contents b') \<le> t + demand (Call i c)"
proof (cases c)
  case (C_append xs)
  then show ?thesis using append_bytes_spec [OF inv, of xs] len room by (auto simp: only_ensure_def split: sum.splits)
next
  case (C_reserve n)
  have "unat (readable_size b) + unat n \<le> 2 ^ 60" using C_reserve len room length_contents [OF inv] by simp
  from ensure_writable_size_correct [OF inv this] obtain b' where
    "ensure_writable_size b n = Inr b'" "buf_inv b'" "contents b' = contents b" by blast
  then show ?thesis using C_reserve len by simp
next
  case (C_written n)
  show ?thesis
  proof (cases "n \<le> writable_size b")
    case True
    from been_written_correct [OF inv True] obtain b' where
      "been_written b n = Inr b'" "buf_inv b'" "unat (readable_size b') = unat (readable_size b) + unat n" by blast
    then show ?thesis using C_written len length_contents [OF inv] length_contents [of b'] by simp
  qed (simp add: C_written been_written_def ensure_def only_ensure_def)
next
  case C_peek
  then show ?thesis using mem_read_contents [OF inv] inv len by (simp add: peek_def)
next
  case (C_read n)
  then show ?thesis using been_read_spec [OF inv, of n] len by (auto simp: only_ensure_def split: sum.splits)
next
  case C_read_all
  then show ?thesis using been_read_spec [OF inv, of "readable_size b"] len
    by (auto simp: been_read_all_def only_ensure_def split: sum.splits)
next
  case C_clear
  then show ?thesis using clear_correct [OF inv] by simp
qed

lemma buffers_ok_upd:
  assumes "buffers_ok t L st" and "t \<le> t'" and "buf_inv b" and "length (contents b) \<le> t'"
  shows "buffers_ok t' (insert i L) (st(i := b))"
  using assms by (auto simp: buffers_ok_def)

lemma buffers_ok_moved:
  assumes "buffers_ok t L st" and "other \<in> L" and "this \<noteq> other"
  shows "buffers_ok t (insert this (L - {other})) (st(this := st other, other := moved_from))"
  using assms by (auto simp: buffers_ok_def)

lemma cmd_safe:
  assumes ok: "buffers_ok t L st" and a: "allowed L c" and room: "t + demand c \<le> 2 ^ 60"
  shows "case buffer_cmd_run c st of Inl e \<Rightarrow> only_ensure e | Inr st' \<Rightarrow> buffers_ok (t + demand c) (alive L c) st'"
proof (cases c)
  case (New i n)
  have "unat n \<le> 2 ^ 61" using a New by (simp add: word_le_nat_alt)
  from Buffer_new_correct [OF this] obtain b where "Buffer_new n = Inr b" "buf_inv b" "contents b = []" by blast
  then show ?thesis using New ok buffers_ok_upd [OF ok, of t b] by simp
next
  case (New_from i xs)
  have "length xs \<le> 2 ^ 61" using room New_from by simp
  from Buffer_from_correct [OF _ this] a New_from obtain b where
    "Buffer_from xs = Inr b" "buf_inv b" "contents b = map Some xs" by auto
  then show ?thesis using New_from buffers_ok_upd [OF ok, of "t + length xs" b] by simp
next
  case (Call i bc)
  then have i: "i \<in> L" "buf_inv (st i)" "length (contents (st i)) \<le> t" using a ok by (simp_all add: buffers_ok_def)
  show ?thesis
  proof (cases "buffer_call_run bc (st i)")
    case (Inl e)
    then show ?thesis using call_safe [OF i(2,3) room [unfolded Call]] Call by simp
  next
    case (Inr b)
    then have "buf_inv b \<and> length (contents b) \<le> t + demand c"
      using call_safe [OF i(2,3) room [unfolded Call]] Call by simp
    then show ?thesis using Inr Call buffers_ok_upd [OF ok, of "t + demand c" b i] i(1) by (simp add: insert_absorb)
  qed
next
  case (Move_new this other)
  then show ?thesis using a buffers_ok_moved [OF ok, of other this] by (auto simp: move_construct_def)
next
  case (Move_assign this other)
  then have "buf_inv (st other)" using a ok by (simp add: buffers_ok_def)
  then have "data_ptr (st other) \<noteq> None" by (auto elim: buf_invE)
  then show ?thesis using Move_assign a ok buffers_ok_moved [OF ok, of other this] by (auto simp: move_assign_def same_data_def)
qed

lemma program_safe:
  assumes "buffers_ok t L st" and "checked L cs" and "t + (\<Sum>c\<leftarrow>cs. demand c) \<le> 2 ^ 60"
  shows "case buffer_program_run cs st of Inl e \<Rightarrow> only_ensure e
     | Inr st' \<Rightarrow> buffers_ok (t + (\<Sum>c\<leftarrow>cs. demand c)) (foldl alive L cs) st'"
  using assms
proof (induction cs arbitrary: t L st)
  case (Cons c cs)
  have safe: "case buffer_cmd_run c st of Inl e \<Rightarrow> only_ensure e | Inr st' \<Rightarrow> buffers_ok (t + demand c) (alive L c) st'"
    using cmd_safe [OF Cons.prems(1), of c] Cons.prems(2,3) by simp
  show ?case
  proof (cases "buffer_cmd_run c st")
    case (Inl e)
    then show ?thesis using safe by simp
  next
    case (Inr st')
    then show ?thesis using safe Cons.IH [of "t + demand c" "alive L c" st'] Cons.prems(2,3)
      by (auto simp: add.assoc split: sum.splits)
  qed
qed simp

text \<open>
  C33. Programs that use no moved-from buffer are safe. Whatever sequence of constructions, calls and
  moves a program makes, if the check finds that it uses live buffers only, then it never reads or
  writes outside of an array, never uses a null pointer, never loops for ever and never asks for an
  impossible allocation: it can only stop at one of the assertions, and otherwise all live buffers
  are well formed in the end. The bound on the bytes asked for excludes a wrap of the size arithmetic.
\<close>

theorem buffer_programs_safe:
  assumes "checked {} cs" and "(\<Sum>c\<leftarrow>cs. demand c) \<le> 2 ^ 60"
  shows "case buffer_program_run cs st of Inl e \<Rightarrow> only_ensure e
     | Inr st' \<Rightarrow> \<forall>i \<in> foldl alive {} cs. buf_inv (st' i)"
proof -
  have "buffers_ok 0 {} st" by (simp add: buffers_ok_def)
  from program_safe [OF this assms(1)] assms(2) show ?thesis
    by (auto simp: buffers_ok_def split: sum.splits)
qed

theorem buffer_programs_safe_witness:
  "case buffer_program_run [New 0 10, Call 0 (C_append [1, 2, 3]), Move_new 1 0, New_from 0 [7], Call 1 (C_read 2), Move_assign 0 1] (\<lambda>_. moved_from) of
     Inl e \<Rightarrow> only_ensure e | Inr st' \<Rightarrow> buf_inv (st' 0)"
  using buffer_programs_safe [of "[New 0 10, Call 0 (C_append [1, 2, 3]), Move_new 1 0, New_from 0 [7], Call 1 (C_read 2), Move_assign 0 1]" "\<lambda>_. moved_from"]
  by (auto split: sum.splits)

text \<open>The check is needed: a buffer that was moved from hangs on its first append.\<close>

lemma moved_from_hangs:
  assumes "st 0 = moved_from"
  shows "\<not> checked {} [Call 0 (C_append [x])]" and "buffer_program_run [Call 0 (C_append [x])] st = Inl Never_returns"
  using assms growth_never_returns by simp_all

end
