(* ===== verification/Spec2Isabelle.thy ===== *)
theory Spec2Isabelle
  imports Poll_Round Kqueue Macos App_Threads App_Stress App_Links App_Async Buffer_Types
begin

text \<open>
  A verification of cxpnet, a TCP library built around event polls (src/cxpnet), and of the programs
  that come with it (src/examples).

  \<^bold>\<open>The program.\<close> An \<open>IOEventPoll\<close> waits for events of descriptors through a poller (epoll on Linux,
  kqueue on macOS), dispatches them to the \<open>Channel\<close> of the descriptor, and runs closures that other
  threads post to it; each poll has a \<open>TimerManager\<close> with its own thread. A \<open>Conn\<close> is one TCP
  connection: it owns a channel, a read and a write \<open>Buffer\<close>, and runs the user's callbacks on its
  poll's thread. A \<open>Server\<close> owns a main poll, an \<open>Acceptor\<close> that listens on it, and in the mode
  \<open>kOnePollPerThread\<close> a \<open>PollThreadPool\<close> of further polls, one thread each, over which new connections
  are distributed; in the mode \<open>kAllOneThread\<close> the application drives the main poll itself. The programs are servers
  and clients that set the callbacks of their connections.

  \<^bold>\<open>Theories.\<close> Each models the source files named with it.

  \<^item> \<open>Prelude\<close>: machine types as words, the failures in which a call can end instead of returning
    (an \<open>ENSURE\<close> of ensure.h, a null pointer, an access out of bounds, a refused allocation, a wait or
    loop that never ends), sequencing of such calls, shared lemmas.
  \<^item> \<open>Fifo_Spec\<close> and \<open>Buffer\<close> (buffer.h): an abstract byte queue and the growing array that refines it,
    with \<open>size_t\<close> as 64-bit words. Programs of appends and reads behave as on the queue; the growth
    loop ends for sizes up to $2^{63}$ and provably not beyond. \<open>Buffer_Types\<close>: programs over several
    buffers with moves between them; a check that tracks which buffers are live, like a type system,
    accepts only programs that can fail in no way but by an assertion.
  \<^item> \<open>Timer_Spec\<close> and \<open>Timer\<close> (timer.h, timer.cc): the contract of a deadline-ordered schedule, the
    operations under the mutex, and the interleaving of the timer thread with its callers as a step
    relation: every callback is fired, cancelled or scheduled exactly once, the thread never
    oversleeps, and \<open>shutdown\<close> can lose its wakeup.
  \<^item> \<open>Platform\<close> (sock.h, platform_api.h, platform_api_for_linux.cc) and \<open>Macos\<close>
    (platform_api_for_macos.cc): addresses, error classes, \<open>listen\<close>, \<open>connect\<close>, \<open>accept\<close>, wakeups. System
    calls are arguments (their answers) and results (the trace), so that leaks are visible.
  \<^item> \<open>Channel\<close> (channel.h, channel.cc, poller_base.h): interest changes and dispatch, over the locale
    \<open>poller_contract\<close>, which states what a channel relies on. \<open>Epoll\<close> (poller_for_epoll.h and .cc) and
    \<open>Kqueue\<close> (poller_for_kqueue.h and .cc) interpret it: the kernel watches exactly what the channels ask.
  \<^item> \<open>Conn\<close> (conn.h, conn.cc): the whole class. The user's callbacks are functions on the
    connection and the state of the user's program, the field \<open>app\<close>, of a type the theories leave open;
    the kernel's answers to \<open>recv\<close> and \<open>send\<close> are lists in the state. \<open>Conn_Inv\<close> has the
    invariant and its preservation by the operations, \<open>Conn_Run\<close> the step relation of all events,
    calls and posted closures of a connection, \<open>Conn_Props\<close> the properties: no step fails, the output
    stream is exact, cleanup happens once, a graceful shutdown flushes, reads deliver everything.
    \<open>Conn_Setup\<close>: the setters a program calls on a connection, and \<open>connect_sync\<close>.
  \<^item> \<open>Event_Poll\<close> (io_event_poll.h, io_event_poll.cc): the loop, the task queue and the edge-triggered
    wakeup as interleaved steps: closures run once and in order, no wakeup is lost, the loop ends after
    a shutdown, and a closure posted later never runs.
  \<^item> \<open>Poll_Round\<close> (io_event_poll.cc, channel.cc): one round on the poll's own thread, with destroyed
    channels as failures: what it calls and in which order, that deferring deletions suffices, and that
    a shutdown from the connection callback does not; construction and destruction of a poll.
  \<^item> \<open>Acceptor\<close> (acceptor.h, acceptor.cc) on the epoll model: accepted connections are conserved.
  \<^item> \<open>Thread_Pool\<close> (poll_thread_pool.h and .cc): polls are dealt out in turn, shutdown joins each
    thread once and never itself.
  \<^item> \<open>Server\<close> (server.h, server.cc): all methods, over the acceptor and the pool. \<open>Server_Registry\<close>: the
    locale \<open>handle_registry\<close> for \<open>conns_\<close>; every accepted descriptor is closed or owned by one registered
    connection; in one-thread mode the registry is exact, with pool threads a reused descriptor can
    erase a live connection. \<open>Server_Stop\<close>: what \<open>start\<close> answers, and that a graceful shutdown ends
    within its timeout in both modes, with the loops it needs stated; two hangs.

  \<^item> \<open>Conn_App\<close> and \<open>Conn_Serve\<close>: programs on a connection. The locale \<open>closing_program\<close> states what the close
    callback of a program keeps of an invariant over its state and the log of the connection, the locale
    \<open>message_program\<close> adds the message callback; from these follows that everything that can happen to
    the connection keeps it. A step is one of the program's own end or an offer of the kernel, so that
    what the kernel was given and what the program was given are conserved. Also here: a half-closed
    connection loses its waiting output.
  \<^item> \<open>App_Servers\<close> (echo_server, tcp_server, async_server, stress_server, http_server, file_server): the
    callbacks, as interpretations of the locales. What a peer is owed is determined by the messages it
    was heard to send: echoed, or answered once.
  \<^item> \<open>App_Chat\<close> (chat_server): all connections of the server with their common map. A message is passed on
    to each connection that is up, once; a closed connection stays in the map.
  \<^item> \<open>App_Clients\<close> (echo_client, http_client, file_client): what the clients send, and that they look at one
    fragment of a response only.
  \<^item> \<open>App_Threads\<close> (tcp_client, chat_client): methods called from two threads, as a step relation: messages
    go out in order, none is lost while the connection is up; connecting races with the start of the loop.
  \<^item> \<open>App_Links\<close>: a client and a server joined by a network that cuts and delays the two streams. The
    locale \<open>linked_programs\<close> combines what the two programs promise; echo_client with echo_server and
    file_client with file_server from end to end.
  \<^item> \<open>App_Async\<close> (async_client): a closed connection is replaced by a new object from inside the close
    callback of the old one, which is exact; reconnecting recurses without end when attempts fail at once.
  \<^item> \<open>App_Main\<close>: construction and \<open>run\<close> of a server, how the server programs start and report failure, and
    the programs ensure and test_buffer.
  \<^item> \<open>App_Stress\<close> (stress_client, stress_server): the loop that opens the connections of the client, how the
    client does not end, and how the server, after whatever traffic, does.

  \<^bold>\<open>Conventions.\<close> An object is a record with the fields of its class; a world record (\<open>cw\<close>, \<open>aw\<close>, \<open>sw\<close>)
  extends it by what its methods act on and by a log of their effects. A call that may fail has a
  \<open>result\<close> type. Code outside the sources (the kernel, \<open>inet_pton\<close>, \<open>inet_ntop\<close>) is a parameter;
  hypotheses on it (\<open>epoll_documented\<close>, \<open>kqueue_documented\<close>) state manual pages.

  \<^bold>\<open>Bounds and termination.\<close> Loops over answers of the kernel terminate because each answer is used
  up; the write loop has as fuel one more than the number of answers to \<open>send\<close>, which suffices. The
  reconnecting of async_client has fuel, and uses up any amount of it. The rounds of the main poll's
  loop are a list; a program whose list is used up is still running. A buffer
  is assumed to hold at most $2^{59}$ to $2^{61}$ bytes in the lemmas on connections, far above what can be
  allocated, so that its size arithmetic does not wrap. Descriptors are C ints, so at most $2^{31}$
  connections are registered and \<open>connection_count\<close> does not wrap. The wait of \<open>shutdown_impl_\<close>
  decreases the time to its deadline.

  \<^bold>\<open>Not modelled.\<close> Printing of messages; thread identity beyond the number of a poll; cxpnet.h, which only
  includes; the build scripts. Connections inside the server are the objects it creates and the orders
  it gives them; what they do with an order is the subject of the theories on \<open>Conn\<close>. The threads that
  print counters are modelled by their end alone.
\<close>

end
